(* ===== verification/KV_Prelude.thy ===== *)
theory KV_Prelude
  imports Main "HOL-Library.Word" "HOL-Library.Product_Lexorder"
begin

text \<open>
  Shared groundwork of the development: outcomes of fallible Rust code (\<open>Result\<close> plus a panic),
  the early return of the \<open>?\<close> operator over a mutable receiver, overflow-checked 64-bit
  arithmetic on \<open>nat\<close>, rounding up to a multiple, and generic list lemmas.
\<close>

section \<open>Named theorem collections\<close>

named_theorems kv_const \<open>defining equations of the constants of src/constants.rs\<close>
named_theorems outcome_simps \<open>evaluation of the outcome combinators\<close>

section \<open>Outcomes\<close>

text \<open>
  A Rust function that returns \<open>Result\<close> has three observable endings: a value, an error value,
  or a panic (here: an arithmetic overflow under the checked profile, or an index out of range).
\<close>

datatype ('e, 'a) outcome = Ok 'a | Err 'e | Panic

fun is_ok :: "('e, 'a) outcome \<Rightarrow> bool" where
  "is_ok (Ok _) = True"
| "is_ok _ = False"

lemma is_ok_iff: "is_ok r \<longleftrightarrow> (\<exists>x. r = Ok x)"
  by (cases r) auto

text \<open>Sequencing of pure fallible code.\<close>

fun bind_outcome :: "('e, 'a) outcome \<Rightarrow> ('a \<Rightarrow> ('e, 'b) outcome) \<Rightarrow> ('e, 'b) outcome" where
  "bind_outcome (Ok x) k = k x"
| "bind_outcome (Err e) k = Err e"
| "bind_outcome Panic k = Panic"

text \<open>
  The \<open>?\<close> operator inside a method on \<open>&mut self\<close>: on an error or a panic the rest is skipped and
  the mutations made so far stay.
\<close>

fun try_bind :: "'s \<times> ('e, 'a) outcome \<Rightarrow> ('a \<Rightarrow> 's \<Rightarrow> 's \<times> ('e, 'b) outcome) \<Rightarrow> 's \<times> ('e, 'b) outcome"
  where
  "try_bind (s, Ok x) k = k x s"
| "try_bind (s, Err e) k = (s, Err e)"
| "try_bind (s, Panic) k = (s, Panic)"

text \<open>Arithmetic that may overflow: \<open>None\<close> is the overflow panic.\<close>

fun or_panic :: "'a option \<Rightarrow> ('e, 'a) outcome" where
  "or_panic (Some x) = Ok x"
| "or_panic None = Panic"

lemmas outcome_basic [outcome_simps] = bind_outcome.simps try_bind.simps or_panic.simps

lemma try_bind_OkD:
  assumes "try_bind p k = (s', Ok y)"
  obtains s x where "p = (s, Ok x)" "k x s = (s', Ok y)"
proof (cases p)
  case (Pair s r)
  with assms that show thesis by (cases r) auto
qed

lemma bind_outcome_OkD:
  assumes "bind_outcome r k = Ok y"
  obtains x where "r = Ok x" "k x = Ok y"
  using assms that by (cases r) auto

section \<open>Checked 64-bit arithmetic\<close>

text \<open>
  \<open>u64\<close> and \<open>usize\<close> (64-bit targets) values are natural numbers below \<open>2 ^ 64\<close>. The operators
  \<open>+\<close>, \<open>-\<close>, \<open>*\<close> of the source panic on overflow in the checked profile; a theorem that an operation
  does not panic therefore also says that the wrapping profile computes the same value.
\<close>

definition U64_LIM :: nat where
  "U64_LIM = 2 ^ 64"

definition checked_add :: "nat \<Rightarrow> nat \<Rightarrow> nat option" where
  "checked_add a b = (if a + b < U64_LIM then Some (a + b) else None)"

definition checked_sub :: "nat \<Rightarrow> nat \<Rightarrow> nat option" where
  "checked_sub a b = (if b \<le> a then Some (a - b) else None)"

definition checked_mul :: "nat \<Rightarrow> nat \<Rightarrow> nat option" where
  "checked_mul a b = (if a * b < U64_LIM then Some (a * b) else None)"

lemma checked_in_range [simp]:
  "a + b < U64_LIM \<Longrightarrow> checked_add a b = Some (a + b)"
  "b \<le> a \<Longrightarrow> checked_sub a b = Some (a - b)"
  "a * b < U64_LIM \<Longrightarrow> checked_mul a b = Some (a * b)"
  by (simp_all add: checked_add_def checked_sub_def checked_mul_def)

lemma checked_overflow [simp]:
  "U64_LIM \<le> a + b \<Longrightarrow> checked_add a b = None"
  "a < b \<Longrightarrow> checked_sub a b = None"
  "U64_LIM \<le> a * b \<Longrightarrow> checked_mul a b = None"
  by (simp_all add: checked_add_def checked_sub_def checked_mul_def)

lemmas checked_defs = checked_add_def checked_sub_def checked_mul_def

text \<open>
  Atomic counters wrap in every profile: \<open>fetch_add\<close> and \<open>fetch_sub\<close> of \<open>AtomicU64\<close> (and
  \<open>AtomicUsize\<close>) and of \<open>AtomicU32\<close>.
\<close>

definition wrapping_add :: "nat \<Rightarrow> nat \<Rightarrow> nat" where
  "wrapping_add a b = (a + b) mod U64_LIM"

definition wrapping_sub :: "nat \<Rightarrow> nat \<Rightarrow> nat" where
  "wrapping_sub a b = (a + (U64_LIM - b mod U64_LIM)) mod U64_LIM"

definition wrapping_add32 :: "nat \<Rightarrow> nat \<Rightarrow> nat" where
  "wrapping_add32 a b = (a + b) mod 2 ^ 32"

definition wrapping_sub32 :: "nat \<Rightarrow> nat \<Rightarrow> nat" where
  "wrapping_sub32 a b = (a + (2 ^ 32 - b mod 2 ^ 32)) mod 2 ^ 32"

lemma U64_LIM_pos [simp]: "0 < U64_LIM"
  by (simp add: U64_LIM_def)

lemma wrapping_in_range:
  "a + b < U64_LIM \<Longrightarrow> wrapping_add a b = a + b"
  "b \<le> a \<Longrightarrow> a < U64_LIM \<Longrightarrow> wrapping_sub a b = a - b"
  "a + b < 2 ^ 32 \<Longrightarrow> wrapping_add32 a b = a + b"
  "b \<le> a \<Longrightarrow> a < 2 ^ 32 \<Longrightarrow> wrapping_sub32 a b = a - b"
proof -
  show "wrapping_sub a b = a - b" if "b \<le> a" "a < U64_LIM"
  proof -
    from that have "b mod U64_LIM = b" by simp
    moreover from that have "a + (U64_LIM - b) = (a - b) + U64_LIM" by simp
    ultimately have "wrapping_sub a b = ((a - b) + U64_LIM) mod U64_LIM"
      by (simp only: wrapping_sub_def)
    with that show ?thesis by (simp only: mod_add_self2) simp
  qed
  show "wrapping_sub32 a b = a - b" if "b \<le> a" "a < 2 ^ 32"
  proof -
    from that have "b mod 2 ^ 32 = b" by simp
    moreover from that have "a + (2 ^ 32 - b) = (a - b) + 2 ^ 32" by simp
    ultimately have "wrapping_sub32 a b = ((a - b) + 2 ^ 32) mod 2 ^ 32"
      by (simp only: wrapping_sub32_def)
    with that show ?thesis by (simp only: mod_add_self2) simp
  qed
qed (simp_all add: wrapping_add_def wrapping_add32_def)

lemma wrapping_bound [simp]:
  "wrapping_add a b < U64_LIM" "wrapping_sub a b < U64_LIM"
  "wrapping_add32 a b < 2 ^ 32" "wrapping_sub32 a b < 2 ^ 32"
  by (simp_all add: wrapping_add_def wrapping_sub_def wrapping_add32_def wrapping_sub32_def)

lemma wrapping_sub_add:
  assumes "a < U64_LIM"
  shows "wrapping_sub (wrapping_add a b) b = a"
proof -
  let ?M = U64_LIM
  have "wrapping_sub (wrapping_add a b) b = (a + (b mod ?M + (?M - b mod ?M))) mod ?M"
    unfolding wrapping_sub_def wrapping_add_def
    by (metis (no_types) add.assoc mod_add_left_eq mod_add_right_eq)
  also have "b mod ?M + (?M - b mod ?M) = ?M"
    by (simp add: less_imp_le)
  finally show ?thesis using assms by simp
qed

lemma mod_minus_wrap:
  fixes s d m :: nat
  assumes "0 < m" "d \<le> s"
  shows "(s mod m + (m - d mod m)) mod m = (s - d) mod m"
proof -
  have "d mod m + (m - d mod m) = m" using assms(1) by (simp add: less_imp_le)
  then have "((s - d) + (d mod m + (m - d mod m))) mod m = (s - d) mod m" by simp
  moreover have "(s mod m + (m - d mod m)) mod m = ((s - d) + d + (m - d mod m)) mod m"
    using assms(2) by (simp add: mod_add_left_eq)
  moreover have "\<dots> = ((s - d) + (d mod m + (m - d mod m))) mod m"
    by (metis (no_types) add.assoc mod_add_left_eq mod_add_right_eq)
  ultimately show ?thesis by simp
qed

text \<open>Counters that hold a sum up to wrap-around follow the sum.\<close>

lemma wrapping_mod:
  "wrapping_add (n mod U64_LIM) d = (n + d) mod U64_LIM"
  "d \<le> n \<Longrightarrow> wrapping_sub (n mod U64_LIM) d = (n - d) mod U64_LIM"
  "wrapping_add32 (n mod 2 ^ 32) d = (n + d) mod 2 ^ 32"
  "d \<le> n \<Longrightarrow> wrapping_sub32 (n mod 2 ^ 32) d = (n - d) mod 2 ^ 32"
  using mod_minus_wrap[of U64_LIM d n] mod_minus_wrap[of "2 ^ 32" d n]
  by (simp_all add: wrapping_add_def wrapping_sub_def wrapping_add32_def wrapping_sub32_def mod_add_left_eq)

lemmas wrapping_defs = wrapping_add_def wrapping_sub_def wrapping_add32_def wrapping_sub32_def

text \<open>\<open>usize::div_ceil\<close> of the standard library.\<close>

definition div_ceil :: "nat \<Rightarrow> nat \<Rightarrow> nat" where
  "div_ceil n d = (if n mod d = 0 then n div d else n div d + 1)"

lemma div_ceil_bounds:
  assumes "0 < d"
  shows "n \<le> div_ceil n d * d" "div_ceil n d * d < n + d"
proof -
  have eq: "n = n div d * d + n mod d" by simp
  have less: "n mod d < d" using assms by simp
  show "n \<le> div_ceil n d * d"
  proof (cases "n mod d = 0")
    case True
    then show ?thesis by (simp add: div_ceil_def minus_mod_eq_div_mult [symmetric])
  next
    case False
    have "n \<le> n div d * d + d" using eq less by linarith
    with False show ?thesis by (simp add: div_ceil_def)
  qed
  show "div_ceil n d * d < n + d"
  proof (cases "n mod d = 0")
    case True
    with eq assms show ?thesis by (simp add: div_ceil_def)
  next
    case False
    with eq have "n div d * d < n" by linarith
    with False show ?thesis by (simp add: div_ceil_def)
  qed
qed

lemma div_ceil_alt:
  assumes "0 < d"
  shows "(n + (d - 1)) div d = div_ceil n d"
proof (rule div_nat_eqI)
  show "d * div_ceil n d \<le> n + (d - 1)" "n + (d - 1) < d * Suc (div_ceil n d)"
    using div_ceil_bounds[OF assms, of n] assms by (simp_all add: algebra_simps)
qed

lemma div_ceil_pos: "0 < d \<Longrightarrow> 0 < n \<Longrightarrow> 0 < div_ceil n d"
  using div_ceil_bounds(1)[of d n] by (cases "div_ceil n d") auto

lemma div_ceil_mono: "0 < d \<Longrightarrow> m \<le> n \<Longrightarrow> div_ceil m d \<le> div_ceil n d"
proof (rule ccontr)
  assume d: "0 < d" and le: "m \<le> n" and "\<not> div_ceil m d \<le> div_ceil n d"
  then have "Suc (div_ceil n d) * d \<le> div_ceil m d * d" by (intro mult_le_mono1) simp
  with div_ceil_bounds(1)[OF d, of n] div_ceil_bounds(2)[OF d, of m] le show False
    by (simp add: algebra_simps)
qed

section \<open>Lists\<close>

lemma find_Some_split:
  assumes "find P xs = Some x"
  obtains ys zs where "xs = ys @ x # zs" "P x" "\<forall>y\<in>set ys. \<not> P y"
proof -
  from assms obtain i where i: "i < length xs" "P (xs ! i)" "x = xs ! i" "\<forall>j<i. \<not> P (xs ! j)"
    by (auto simp: find_Some_iff)
  have "xs = take i xs @ x # drop (Suc i) xs"
    using i by (simp add: id_take_nth_drop)
  moreover have "\<forall>y\<in>set (take i xs). \<not> P y"
    using i by (auto simp: in_set_conv_nth)
  ultimately show thesis using that i by blast
qed

lemma find_NoneD: "find P xs = None \<Longrightarrow> x \<in> set xs \<Longrightarrow> \<not> P x"
  by (auto simp: find_None_iff)

lemma take_append_exact: "length xs = n \<Longrightarrow> take n (xs @ ys) = xs"
  by simp

lemma drop_append_exact: "length xs = n \<Longrightarrow> drop n (xs @ ys) = ys"
  by simp

end
