(* ===== verification/KV_Constants.thy ===== *)
theory KV_Constants
  imports KV_Prelude
begin

text \<open>
  The constants of src/constants.rs that the modelled code uses, the operation tags of the write
  buffer, and the error type of src/error.rs with its conversions from and to \<open>errno\<close> codes.
\<close>

type_synonym byte = "8 word"
type_synonym bytes = "byte list"

section \<open>Constants\<close>

definition KB :: nat where [kv_const]: "KB = 1024"
definition MB :: nat where [kv_const]: "MB = 1024 * KB"
definition GB :: nat where [kv_const]: "GB = 1024 * MB"
definition TB :: nat where [kv_const]: "TB = 1024 * GB"

text \<open>Time is counted in nanoseconds.\<close>

definition SECOND :: nat where [kv_const]: "SECOND = 1000000000"

definition MAX_KEY_SIZE :: nat where [kv_const]: "MAX_KEY_SIZE = 100 * KB"
definition MAX_VALUE_SIZE :: nat where [kv_const]: "MAX_VALUE_SIZE = 4 * MB"
definition DEFAULT_MAX_MEMORY :: nat where [kv_const]: "DEFAULT_MAX_MEMORY = 4 * GB"
definition DEFAULT_PERSISTENT_SIZE :: nat where [kv_const]: "DEFAULT_PERSISTENT_SIZE = 4 * GB"
definition MAX_PERSISTENT_SIZE :: nat where [kv_const]: "MAX_PERSISTENT_SIZE = TB"
definition CACHE_BUCKETS :: nat where [kv_const]: "CACHE_BUCKETS = 16384"

definition METADATA_VERSION :: nat where [kv_const]: "METADATA_VERSION = 1"
definition SIGNATURE_SIZE :: nat where [kv_const]: "SIGNATURE_SIZE = 9"
definition RESERVED_SIZE :: nat where [kv_const]: "RESERVED_SIZE = 68"
definition METADATA_BLOCK_SIZE :: nat where [kv_const]: "METADATA_BLOCK_SIZE = 16"
definition METADATA_BLOCK :: nat where [kv_const]: "METADATA_BLOCK = 0"
definition DATA_START_BLOCK :: nat where [kv_const]: "DATA_START_BLOCK = 16"
definition BLOCK_SIZE :: nat where [kv_const]: "BLOCK_SIZE = 4096"
definition SECTOR_HEADER_SIZE :: nat where [kv_const]: "SECTOR_HEADER_SIZE = 4"
definition SECTOR_MARKER :: nat where [kv_const]: "SECTOR_MARKER = 0xABCD"

definition CACHE_HIGH_WATERMARK_MB :: nat where [kv_const]: "CACHE_HIGH_WATERMARK_MB = 100"
definition CACHE_LOW_WATERMARK_MB :: nat where [kv_const]: "CACHE_LOW_WATERMARK_MB = 50"
definition MAX_SCANS :: nat where [kv_const]: "MAX_SCANS = 3"
definition CACHE_MAX_SIZE :: nat where [kv_const]: "CACHE_MAX_SIZE = GB"

definition MALLOC_LIMIT :: nat where [kv_const]: "MALLOC_LIMIT = 8192"
definition PAGE_SIZE :: nat where [kv_const]: "PAGE_SIZE = 4 * KB"
definition PAGE_MASK :: nat where [kv_const]: "PAGE_MASK = PAGE_SIZE - 1"
definition IOURING_MAX_BATCH :: nat where [kv_const]: "IOURING_MAX_BATCH = 128"
definition READ_BUFFER_SIZE :: nat where [kv_const]: "READ_BUFFER_SIZE = 4 * KB"
definition DEFAULT_HASH_BITS :: nat where [kv_const]: "DEFAULT_HASH_BITS = 23"
definition DEFAULT_ITERATION :: nat where [kv_const]: "DEFAULT_ITERATION = 16"

definition WRITE_BUFFER_COUNT :: nat where [kv_const]: "WRITE_BUFFER_COUNT = 1024"
definition WRITE_BUFFER_SIZE :: nat where [kv_const]: "WRITE_BUFFER_SIZE = 16 * MB"

text \<open>Byte strings: \<open>b"FUNKV_SIG"\<close> and \<open>b"\0DELETED"\<close>.\<close>

definition SIGNATURE :: bytes where
  "SIGNATURE = [0x46, 0x55, 0x4E, 0x4B, 0x56, 0x5F, 0x53, 0x49, 0x47]"

definition DELETED_MARKER :: bytes where
  "DELETED_MARKER = [0, 0x44, 0x45, 0x4C, 0x45, 0x54, 0x45, 0x44]"

lemma length_SIGNATURE: "length SIGNATURE = SIGNATURE_SIZE"
  by (simp add: SIGNATURE_def kv_const)

lemma length_DELETED_MARKER: "length DELETED_MARKER = 8"
  by (simp add: DELETED_MARKER_def)

datatype operation = Insert | Update | Delete | Get | PartialUpdate

section \<open>Errors\<close>

text \<open>An operating-system error carries its code; errors the code builds carry their kind.\<close>

datatype io_error = OsError int | UnexpectedEof | NotFound | OtherIo

datatype db_error =
    KeyNotFound
  | OutOfMemory
  | AllocationFailed
  | OlderTimestamp
  | InvalidArgument
  | InvalidDevice
  | InvalidKeySize
  | InvalidValueSize
  | InvalidNumericValue
  | InvalidOperation
  | DatabaseFull
  | DuplicateKey
  | CorruptedData
  | OutOfSpace
  | NumericOverflow
  | SizeMismatch nat nat
  | SystemError int
  | IoError io_error
  | ShuttingDown
  | ChannelError
  | NoDevice
  | InvalidRecord
  | TtlNotEnabled

type_synonym 'a res = "(db_error, 'a) outcome"

definition EINVAL :: int where [kv_const]: "EINVAL = 22"
definition ENOENT :: int where [kv_const]: "ENOENT = 2"
definition ENOSPC :: int where [kv_const]: "ENOSPC = 28"
definition ENOMEM :: int where [kv_const]: "ENOMEM = 12"
definition EEXIST :: int where [kv_const]: "EEXIST = 17"
definition EOVERFLOW :: int where [kv_const]: "EOVERFLOW = 75"
definition EMSGSIZE :: int where [kv_const]: "EMSGSIZE = 90"
definition EIO :: int where [kv_const]: "EIO = 5"
definition ENODEV :: int where [kv_const]: "ENODEV = 19"

text \<open>\<open>impl From<i32> for DbError\<close>.\<close>

definition from_errno :: "int \<Rightarrow> db_error" where
  "from_errno n =
     (if n = 2 then KeyNotFound
      else if n = 12 then OutOfMemory
      else if n = 17 then OlderTimestamp
      else if n = 22 then InvalidKeySize
      else if n = 28 then DatabaseFull
      else if n = 75 then NumericOverflow
      else if n = 90 then SizeMismatch 0 0
      else SystemError n)"

fun errno :: "db_error \<Rightarrow> int" where
  "errno InvalidKeySize = EINVAL"
| "errno InvalidValueSize = EINVAL"
| "errno KeyNotFound = ENOENT"
| "errno DatabaseFull = ENOSPC"
| "errno OutOfMemory = ENOMEM"
| "errno AllocationFailed = ENOMEM"
| "errno OlderTimestamp = EEXIST"
| "errno NumericOverflow = EOVERFLOW"
| "errno (SystemError e) = e"
| "errno (SizeMismatch _ _) = EMSGSIZE"
| "errno (IoError _) = EIO"
| "errno NoDevice = ENODEV"
| "errno _ = EIO"

lemma errno_from_errno_eq: "errno (from_errno n) = n"
  by (simp add: from_errno_def kv_const)

end
