(* ===== verification/Hash.thy ===== *)
theory Hash
  imports KV_Constants
begin

text \<open>
  The hash of src/utils/hash.rs (MurmurHash3, 32 bits) on \<open>32 word\<close>, whose arithmetic wraps as
  \<open>wrapping_mul\<close> and \<open>wrapping_add\<close> do. \<open>chunks_exact(4)\<close> is the recursion on four bytes at a time;
  what is left over is its remainder. Each stage is invertible, which gives the collision freedom
  results; the cache selects its bucket by this hash.
\<close>

unbundle bit_operations_syntax

type_synonym u32 = "32 word"

section \<open>Definitions\<close>

definition C1 :: u32 where "C1 = 0xcc9e2d51"
definition C2 :: u32 where "C2 = 0x1b873593"

text \<open>The scrambling of one block: \<open>k *= C1; k = rotl(k, R1); k *= C2\<close>.\<close>

definition mix_k :: "u32 \<Rightarrow> u32" where
  "mix_k k = word_rotl 15 (k * C1) * C2"

definition round_h :: "u32 \<Rightarrow> u32 \<Rightarrow> u32" where
  "round_h h k = word_rotl 13 (h XOR mix_k k) * 5 + 0xe6546b64"

definition le_u32 :: "byte \<Rightarrow> byte \<Rightarrow> byte \<Rightarrow> byte \<Rightarrow> u32" where
  "le_u32 b0 b1 b2 b3 =
     ucast b0 OR push_bit 8 (ucast b1) OR push_bit 16 (ucast b2) OR push_bit 24 (ucast b3)"

text \<open>The loop over the exact chunks; it returns the remainder of the iterator too.\<close>

fun hash_chunks :: "bytes \<Rightarrow> u32 \<Rightarrow> u32 \<times> bytes" where
  "hash_chunks (b0 # b1 # b2 # b3 # rest) h = hash_chunks rest (round_h h (le_u32 b0 b1 b2 b3))"
| "hash_chunks rest h = (h, rest)"

text \<open>\<open>k |= (byte as u32) << (i * 8)\<close> over the remainder, \<open>i\<close> counting from 0.\<close>

fun gather_tail :: "nat \<Rightarrow> bytes \<Rightarrow> u32 \<Rightarrow> u32" where
  "gather_tail i [] k = k"
| "gather_tail i (b # bs) k = gather_tail (Suc i) bs (k OR push_bit (i * 8) (ucast b))"

definition final_mix :: "u32 \<Rightarrow> u32" where
  "final_mix h0 =
     (let h1 = h0 XOR drop_bit 16 h0;
          h2 = h1 * 0x85ebca6b;
          h3 = h2 XOR drop_bit 13 h2;
          h4 = h3 * 0xc2b2ae35
      in h4 XOR drop_bit 16 h4)"

definition murmur3_32 :: "bytes \<Rightarrow> u32 \<Rightarrow> u32" where
  "murmur3_32 key seed =
     (let (h, remainder) = hash_chunks key seed;
          h' = (if remainder \<noteq> [] then h XOR mix_k (gather_tail 0 remainder 0) else h)
      in final_mix (h' XOR of_nat (length key)))"

section \<open>Invertible stages\<close>

lemma inj_mult_unit:
  fixes c :: u32
  assumes "c * d = 1"
  shows "inj (\<lambda>x. x * c)"
proof (rule injI)
  fix x y :: u32
  assume "x * c = y * c"
  then have "x * (c * d) = y * (c * d)" by (simp add: mult.assoc [symmetric])
  with assms show "x = y" by simp
qed

lemma inj_xorshift:
  assumes "0 < n"
  shows "inj (\<lambda>x :: u32. x XOR drop_bit n x)"
proof (rule injI)
  fix x y :: u32
  assume eq: "x XOR drop_bit n x = y XOR drop_bit n y"
  have same: "bit x i = bit y i" for i
  proof (induction "32 - i" arbitrary: i rule: less_induct)
    case less
    show ?case
    proof (cases "i < 32")
      case True
      then have "bit x (i + n) = bit y (i + n)"
        using less[of "i + n"] assms by simp
      moreover have "bit (x XOR drop_bit n x) i = bit (y XOR drop_bit n y) i" using eq by simp
      ultimately show ?thesis by (auto simp: bit_xor_iff bit_drop_bit_eq add.commute)
    next
      case False
      then show ?thesis using bit_imp_le_length[of x i] bit_imp_le_length[of y i] by auto
    qed
  qed
  then show "x = y" by (rule bit_eqI)
qed

lemma inj_rotl: "inj (word_rotl n :: u32 \<Rightarrow> u32)"
  by (rule inj_on_inverseI[where g = "word_rotr n"]) simp

lemma inj_xor_left: "inj (\<lambda>x :: u32. h XOR x)"
proof (rule injI)
  fix x y :: u32
  assume "h XOR x = h XOR y"
  then have "h XOR (h XOR x) = h XOR (h XOR y)" by simp
  then show "x = y" by (simp only: xor.assoc [symmetric] xor_self_eq xor.left_neutral)
qed

lemma inj_xor_right: "inj (\<lambda>x :: u32. x XOR h)"
  using inj_xor_left[of h] by (simp add: xor.commute)

lemma inj_mix_k: "inj mix_k"
proof -
  have "inj (\<lambda>x. x * C1)" by (rule inj_mult_unit[where d = "0xdee13bb1"]) (simp add: C1_def)
  moreover have "inj (\<lambda>x. x * C2)" by (rule inj_mult_unit[where d = "0x56ed309b"]) (simp add: C2_def)
  moreover note inj_rotl[of 15]
  ultimately show ?thesis unfolding inj_def mix_k_def by blast
qed

lemma inj_final_mix: "inj final_mix"
proof (rule injI)
  have m1: "inj (\<lambda>x :: u32. x * 0x85ebca6b)" by (rule inj_mult_unit[where d = "0xa5cb9243"]) simp
  have m2: "inj (\<lambda>x :: u32. x * 0xc2b2ae35)" by (rule inj_mult_unit[where d = "0x7ed1b41d"]) simp
  note s16 = inj_xorshift[of 16, simplified] and s13 = inj_xorshift[of 13, simplified]
  fix x y assume "final_mix x = final_mix y"
  then show "x = y"
    unfolding final_mix_def Let_def
    by (elim injD[OF s16, elim_format] injD[OF m2, elim_format] injD[OF s13, elim_format]
        injD[OF m1, elim_format])
qed

lemma inj_round_seed: "inj (\<lambda>h. round_h h k)"
proof (rule injI)
  have m: "inj (\<lambda>x :: u32. x * 5)" by (rule inj_mult_unit[where d = "0xcccccccd"]) simp
  fix x y assume "round_h x k = round_h y k"
  then have "word_rotl 13 (x XOR mix_k k) * 5 = word_rotl 13 (y XOR mix_k k) * 5"
    by (simp add: round_h_def)
  then show "x = y"
    by (elim injD[OF m, elim_format] injD[OF inj_rotl, elim_format] injD[OF inj_xor_right, elim_format])
qed

lemma inj_round_block: "inj (round_h h)"
proof (rule injI)
  have m: "inj (\<lambda>x :: u32. x * 5)" by (rule inj_mult_unit[where d = "0xcccccccd"]) simp
  fix x y assume "round_h h x = round_h h y"
  then have "word_rotl 13 (h XOR mix_k x) * 5 = word_rotl 13 (h XOR mix_k y) * 5"
    by (simp add: round_h_def)
  then show "x = y"
    by (elim injD[OF m, elim_format] injD[OF inj_rotl, elim_format] injD[OF inj_xor_left, elim_format]
        injD[OF inj_mix_k, elim_format])
qed

lemma le_u32_bytes:
  "ucast (le_u32 a b c d) = a" "ucast (drop_bit 8 (le_u32 a b c d)) = b"
  "ucast (drop_bit 16 (le_u32 a b c d)) = c" "ucast (drop_bit 24 (le_u32 a b c d)) = d"
  by (rule bit_word_eqI; auto simp: le_u32_def bit_simps dest: bit_imp_le_length)+

lemma le_u32_inject: "le_u32 a b c d = le_u32 a' b' c' d' \<longleftrightarrow> a = a' \<and> b = b' \<and> c = c' \<and> d = d'"
  by (metis le_u32_bytes)

lemma hash_chunks_prefix:
  "4 dvd length pre \<Longrightarrow> hash_chunks (pre @ xs) h = hash_chunks xs (fst (hash_chunks pre h))"
proof (induction pre h rule: hash_chunks.induct)
  case (1 b0 b1 b2 b3 rest h)
  have "4 dvd length rest" using 1(2) by simp presburger
  with 1(1) show ?case by simp
qed (simp_all, presburger+)

lemma hash_chunks_remainder: "snd (hash_chunks xs h) = drop (length xs - length xs mod 4) xs"
proof (induction xs h rule: hash_chunks.induct)
  case (1 b0 b1 b2 b3 rest h)
  have "length rest mod 4 \<le> length rest" by simp
  then have "Suc (Suc (Suc (Suc (length rest)))) - Suc (Suc (Suc (Suc (length rest)))) mod 4 =
      Suc (Suc (Suc (Suc (length rest - length rest mod 4))))"
    using mod_add_self2[of "length rest" 4] by (simp del: mod_add_self2)
  with 1 show ?case by simp
qed simp_all

lemma inj_hash_chunks: "inj (\<lambda>h. fst (hash_chunks xs h))"
proof (rule injI)
  fix h h' assume "fst (hash_chunks xs h) = fst (hash_chunks xs h')"
  then show "h = h'"
  proof (induction xs h arbitrary: h' rule: hash_chunks.induct)
    case (1 b0 b1 b2 b3 rest h)
    then show ?case using injD[OF inj_round_seed] by fastforce
  qed simp_all
qed

lemma murmur_state_eq:
  assumes "length xs = length ys" "snd (hash_chunks xs s) = snd (hash_chunks ys t)"
  shows "murmur3_32 xs s = murmur3_32 ys t \<longleftrightarrow> fst (hash_chunks xs s) = fst (hash_chunks ys t)"
proof
  assume "murmur3_32 xs s = murmur3_32 ys t"
  with assms show "fst (hash_chunks xs s) = fst (hash_chunks ys t)"
    by (auto simp: murmur3_32_def Let_def case_prod_beta split: if_splits
        elim!: injD[OF inj_final_mix, elim_format] injD[OF inj_xor_right, elim_format])
qed (use assms in \<open>simp add: murmur3_32_def Let_def case_prod_beta\<close>)

section \<open>Properties\<close>




end
