(* ===== verification/Stats.thy ===== *)
theory Stats
  imports KV_Constants Complex_Main
begin

text \<open>
  The counters of src/stats.rs. Every counter is an atomic cell that wraps at its width, a natural
  number here; each \<open>record_*\<close> method is one definition, and \<open>snapshot\<close> reads them all. Plain \<open>+\<close>
  on the loaded values is overflow-checked, so \<open>snapshot\<close> may panic. The rounding of \<open>f64\<close> results is
  the argument \<open>rnd\<close>: a conversion or an arithmetic operation rounds its exact result.
\<close>

section \<open>Counters\<close>

record statistics =
  st_record_count :: nat
  st_memory_usage :: nat
  st_disk_usage :: nat
  st_total_gets :: nat
  st_total_inserts :: nat
  st_total_updates :: nat
  st_total_deletes :: nat
  st_total_range_queries :: nat
  st_get_latency_ns :: nat
  st_insert_latency_ns :: nat
  st_delete_latency_ns :: nat
  st_range_query_latency_ns :: nat
  st_cache_hits :: nat
  st_cache_misses :: nat
  st_cache_evictions :: nat
  st_cache_memory :: nat
  st_writes_buffered :: nat
  st_writes_flushed :: nat
  st_write_failures :: nat
  st_flush_count :: nat
  st_disk_reads :: nat
  st_disk_writes :: nat
  st_disk_bytes_read :: nat
  st_disk_bytes_written :: nat
  st_key_not_found_errors :: nat
  st_out_of_memory_errors :: nat
  st_io_errors :: nat
  st_ttl_expired_lazy :: nat
  st_ttl_expired_active :: nat
  st_ttl_cleaner_runs :: nat
  st_keys_with_ttl :: nat

definition stats_new :: statistics where
  "stats_new =
     \<lparr>st_record_count = 0, st_memory_usage = 0, st_disk_usage = 0,
      st_total_gets = 0, st_total_inserts = 0, st_total_updates = 0,
      st_total_deletes = 0, st_total_range_queries = 0, st_get_latency_ns = 0,
      st_insert_latency_ns = 0, st_delete_latency_ns = 0, st_range_query_latency_ns = 0,
      st_cache_hits = 0, st_cache_misses = 0, st_cache_evictions = 0,
      st_cache_memory = 0, st_writes_buffered = 0, st_writes_flushed = 0,
      st_write_failures = 0, st_flush_count = 0, st_disk_reads = 0,
      st_disk_writes = 0, st_disk_bytes_read = 0, st_disk_bytes_written = 0,
      st_key_not_found_errors = 0, st_out_of_memory_errors = 0, st_io_errors = 0,
      st_ttl_expired_lazy = 0, st_ttl_expired_active = 0, st_ttl_cleaner_runs = 0,
      st_keys_with_ttl = 0\<rparr>"

lemma stats_new_simps [simp]:
  "st_record_count stats_new = 0" "st_memory_usage stats_new = 0" "st_disk_usage stats_new = 0"
  "st_total_gets stats_new = 0" "st_total_inserts stats_new = 0" "st_total_updates stats_new = 0"
  "st_total_deletes stats_new = 0" "st_total_range_queries stats_new = 0" "st_get_latency_ns stats_new = 0"
  "st_insert_latency_ns stats_new = 0" "st_delete_latency_ns stats_new = 0" "st_range_query_latency_ns stats_new = 0"
  "st_cache_hits stats_new = 0" "st_cache_misses stats_new = 0" "st_cache_evictions stats_new = 0"
  "st_cache_memory stats_new = 0" "st_writes_buffered stats_new = 0" "st_writes_flushed stats_new = 0"
  "st_write_failures stats_new = 0" "st_flush_count stats_new = 0" "st_disk_reads stats_new = 0"
  "st_disk_writes stats_new = 0" "st_disk_bytes_read stats_new = 0" "st_disk_bytes_written stats_new = 0"
  "st_key_not_found_errors stats_new = 0" "st_out_of_memory_errors stats_new = 0" "st_io_errors stats_new = 0"
  "st_ttl_expired_lazy stats_new = 0" "st_ttl_expired_active stats_new = 0" "st_ttl_cleaner_runs stats_new = 0"
  "st_keys_with_ttl stats_new = 0"
  by (simp_all add: stats_new_def)

section \<open>Recording\<close>

definition record_get :: "nat \<Rightarrow> bool \<Rightarrow> statistics \<Rightarrow> statistics" where
  "record_get latency_ns hit s =
     (let s1 = s\<lparr>st_total_gets := wrapping_add (st_total_gets s) 1,
                 st_get_latency_ns := wrapping_add (st_get_latency_ns s) latency_ns\<rparr>
      in if hit then s1\<lparr>st_cache_hits := wrapping_add (st_cache_hits s1) 1\<rparr>
         else s1\<lparr>st_cache_misses := wrapping_add (st_cache_misses s1) 1\<rparr>)"

definition record_insert :: "nat \<Rightarrow> bool \<Rightarrow> statistics \<Rightarrow> statistics" where
  "record_insert latency_ns is_update s =
     (let s1 = (if is_update then s\<lparr>st_total_updates := wrapping_add (st_total_updates s) 1\<rparr>
                else s\<lparr>st_total_inserts := wrapping_add (st_total_inserts s) 1\<rparr>)
      in s1\<lparr>st_insert_latency_ns := wrapping_add (st_insert_latency_ns s1) latency_ns\<rparr>)"

definition record_delete :: "nat \<Rightarrow> statistics \<Rightarrow> statistics" where
  "record_delete latency_ns s =
     s\<lparr>st_total_deletes := wrapping_add (st_total_deletes s) 1,
       st_delete_latency_ns := wrapping_add (st_delete_latency_ns s) latency_ns\<rparr>"

definition record_range_query :: "nat \<Rightarrow> statistics \<Rightarrow> statistics" where
  "record_range_query latency_ns s =
     s\<lparr>st_total_range_queries := wrapping_add (st_total_range_queries s) 1,
       st_range_query_latency_ns := wrapping_add (st_range_query_latency_ns s) latency_ns\<rparr>"

definition record_eviction :: "nat \<Rightarrow> statistics \<Rightarrow> statistics" where
  "record_eviction count s = s\<lparr>st_cache_evictions := wrapping_add (st_cache_evictions s) count\<rparr>"

definition record_write_buffered :: "statistics \<Rightarrow> statistics" where
  "record_write_buffered s = s\<lparr>st_writes_buffered := wrapping_add (st_writes_buffered s) 1\<rparr>"

definition record_write_flushed :: "nat \<Rightarrow> statistics \<Rightarrow> statistics" where
  "record_write_flushed count s = s\<lparr>st_writes_flushed := wrapping_add (st_writes_flushed s) count\<rparr>"

definition record_write_failed :: "statistics \<Rightarrow> statistics" where
  "record_write_failed s = s\<lparr>st_write_failures := wrapping_add (st_write_failures s) 1\<rparr>"

definition record_disk_read :: "nat \<Rightarrow> statistics \<Rightarrow> statistics" where
  "record_disk_read n s =
     s\<lparr>st_disk_reads := wrapping_add (st_disk_reads s) 1,
       st_disk_bytes_read := wrapping_add (st_disk_bytes_read s) n\<rparr>"

definition record_disk_write :: "nat \<Rightarrow> statistics \<Rightarrow> statistics" where
  "record_disk_write n s =
     s\<lparr>st_disk_writes := wrapping_add (st_disk_writes s) 1,
       st_disk_bytes_written := wrapping_add (st_disk_bytes_written s) n\<rparr>"

fun record_error :: "db_error \<Rightarrow> statistics \<Rightarrow> statistics" where
  "record_error KeyNotFound s = s\<lparr>st_key_not_found_errors := wrapping_add (st_key_not_found_errors s) 1\<rparr>"
| "record_error OutOfMemory s = s\<lparr>st_out_of_memory_errors := wrapping_add (st_out_of_memory_errors s) 1\<rparr>"
| "record_error (IoError _) s = s\<lparr>st_io_errors := wrapping_add (st_io_errors s) 1\<rparr>"
| "record_error _ s = s"

section \<open>Snapshots\<close>

record stats_snapshot =
  sn_record_count :: nat
  sn_memory_usage :: nat
  sn_total_operations :: nat
  sn_total_gets :: nat
  sn_total_inserts :: nat
  sn_total_updates :: nat
  sn_total_deletes :: nat
  sn_total_range_queries :: nat
  sn_avg_get_latency_ns :: nat
  sn_avg_insert_latency_ns :: nat
  sn_avg_delete_latency_ns :: nat
  sn_avg_range_query_latency_ns :: nat
  sn_cache_hits :: nat
  sn_cache_misses :: nat
  sn_cache_hit_rate :: rat
  sn_cache_evictions :: nat
  sn_cache_memory :: nat
  sn_writes_buffered :: nat
  sn_writes_flushed :: nat
  sn_write_failures :: nat
  sn_flush_count :: nat
  sn_disk_reads :: nat
  sn_disk_writes :: nat
  sn_disk_bytes_read :: nat
  sn_disk_bytes_written :: nat
  sn_key_not_found_errors :: nat
  sn_out_of_memory_errors :: nat
  sn_io_errors :: nat

definition avg_latency :: "nat \<Rightarrow> nat \<Rightarrow> nat" where
  "avg_latency latency_ns n = (if 0 < n then latency_ns div n else 0)"

text \<open>\<open>(cache_hits as f64 / total_cache_ops as f64) * 100.0\<close>.\<close>

definition cache_hit_rate :: "(rat \<Rightarrow> rat) \<Rightarrow> nat \<Rightarrow> nat \<Rightarrow> rat" where
  "cache_hit_rate rnd hits ops =
     (if 0 < ops then rnd (rnd (rnd (of_nat hits) / rnd (of_nat ops)) * 100) else 0)"

definition stats_snapshot_of :: "(rat \<Rightarrow> rat) \<Rightarrow> statistics \<Rightarrow> stats_snapshot res" where
  "stats_snapshot_of rnd s =
     bind_outcome (or_panic (checked_add (st_total_gets s) (st_total_inserts s))) (\<lambda>ops1.
     bind_outcome (or_panic (checked_add ops1 (st_total_updates s))) (\<lambda>ops2.
     bind_outcome (or_panic (checked_add ops2 (st_total_deletes s))) (\<lambda>total_ops.
     bind_outcome (or_panic (checked_add (st_total_inserts s) (st_total_updates s))) (\<lambda>inserts.
     bind_outcome (or_panic (checked_add (st_cache_hits s) (st_cache_misses s))) (\<lambda>total_cache_ops.
     Ok \<lparr>sn_record_count = st_record_count s, sn_memory_usage = st_memory_usage s,
         sn_total_operations = total_ops, sn_total_gets = st_total_gets s,
         sn_total_inserts = st_total_inserts s, sn_total_updates = st_total_updates s,
         sn_total_deletes = st_total_deletes s, sn_total_range_queries = st_total_range_queries s,
         sn_avg_get_latency_ns = avg_latency (st_get_latency_ns s) (st_total_gets s), sn_avg_insert_latency_ns = avg_latency (st_insert_latency_ns s) inserts,
         sn_avg_delete_latency_ns = avg_latency (st_delete_latency_ns s) (st_total_deletes s), sn_avg_range_query_latency_ns = avg_latency (st_range_query_latency_ns s) (st_total_range_queries s),
         sn_cache_hits = st_cache_hits s, sn_cache_misses = st_cache_misses s,
         sn_cache_hit_rate = cache_hit_rate rnd (st_cache_hits s) total_cache_ops, sn_cache_evictions = st_cache_evictions s,
         sn_cache_memory = st_cache_memory s, sn_writes_buffered = st_writes_buffered s,
         sn_writes_flushed = st_writes_flushed s, sn_write_failures = st_write_failures s,
         sn_flush_count = st_flush_count s, sn_disk_reads = st_disk_reads s,
         sn_disk_writes = st_disk_writes s, sn_disk_bytes_read = st_disk_bytes_read s,
         sn_disk_bytes_written = st_disk_bytes_written s, sn_key_not_found_errors = st_key_not_found_errors s,
         sn_out_of_memory_errors = st_out_of_memory_errors s, sn_io_errors = st_io_errors s\<rparr>)))))"

section \<open>Properties\<close>

text \<open>
  What the rounding of \<open>f64\<close> guarantees: it keeps the order and represents 0, 1 and 100 exactly.
\<close>

definition f64_rounding :: "(rat \<Rightarrow> rat) \<Rightarrow> bool" where
  "f64_rounding rnd \<longleftrightarrow> (\<forall>x y. x \<le> y \<longrightarrow> rnd x \<le> rnd y) \<and> rnd 0 = 0 \<and> rnd 1 = 1 \<and> rnd 100 = 100"

lemma cache_hit_rate_bounds:
  assumes "f64_rounding rnd" "hits \<le> ops"
  shows "0 \<le> cache_hit_rate rnd hits ops" "cache_hit_rate rnd hits ops \<le> 100"
proof -
  have mono: "rnd x \<le> rnd y" if "x \<le> y" for x y using assms that by (simp add: f64_rounding_def)
  have r: "rnd 0 = 0" "rnd 1 = 1" "rnd 100 = 100" using assms by (simp_all add: f64_rounding_def)
  have h: "0 \<le> rnd (of_nat hits)" using mono[of 0 "of_nat hits"] r by simp
  have ht: "rnd (of_nat hits) \<le> rnd (of_nat ops)" using mono assms(2) by simp
  have "0 \<le> cache_hit_rate rnd hits ops \<and> cache_hit_rate rnd hits ops \<le> 100"
  proof (cases "0 < ops")
    case True
    then have t: "1 \<le> rnd (of_nat ops)" using mono[of 1 "of_nat ops"] r by simp
    let ?q = "rnd (of_nat hits) / rnd (of_nat ops)"
    have "0 \<le> ?q" "?q \<le> 1" using h ht t by simp_all
    then have "0 \<le> rnd ?q" "rnd ?q \<le> 1" using mono[of 0 ?q] mono[of ?q 1] r by simp_all
    then have "rnd 0 \<le> rnd (rnd ?q * 100)" "rnd (rnd ?q * 100) \<le> rnd 100"
      by (simp_all add: mono)
    with True r show ?thesis by (simp add: cache_hit_rate_def)
  qed (simp add: cache_hit_rate_def)
  then show "0 \<le> cache_hit_rate rnd hits ops" "cache_hit_rate rnd hits ops \<le> 100" by simp_all
qed

lemma avg_latency_between:
  assumes "0 < n" "n * lo \<le> t" "t \<le> n * hi"
  shows "lo \<le> avg_latency t n" "avg_latency t n \<le> hi"
proof -
  show "lo \<le> avg_latency t n"
    using assms by (simp add: avg_latency_def less_eq_div_iff_mult_less_eq mult.commute)
  have "t div n \<le> n * hi div n" using assms(3) by (rule div_le_mono)
  then show "avg_latency t n \<le> hi" using assms(1) by (simp add: avg_latency_def)
qed

text \<open>Recording a sequence of reads, each with its latency and whether it hit the cache.\<close>

definition record_gets :: "(nat \<times> bool) list \<Rightarrow> statistics \<Rightarrow> statistics" where
  "record_gets gs s = fold (\<lambda>(l, hit). record_get l hit) gs s"

lemma record_get_counters:
  assumes "st_total_gets s + 1 < U64_LIM" "st_get_latency_ns s + l < U64_LIM"
    "st_cache_hits s + st_cache_misses s = st_total_gets s"
  shows "record_get l hit s =
    s\<lparr>st_total_gets := st_total_gets s + 1, st_get_latency_ns := st_get_latency_ns s + l,
      st_cache_hits := st_cache_hits s + of_bool hit,
      st_cache_misses := st_cache_misses s + of_bool (\<not> hit)\<rparr>"
  using assms by (cases hit) (simp_all add: record_get_def Let_def wrapping_in_range)

lemma record_gets_counters:
  assumes "st_total_gets s + length gs < U64_LIM"
    "st_get_latency_ns s + sum_list (map fst gs) < U64_LIM"
    "st_cache_hits s + st_cache_misses s = st_total_gets s"
  shows "record_gets gs s =
    s\<lparr>st_total_gets := st_total_gets s + length gs,
      st_get_latency_ns := st_get_latency_ns s + sum_list (map fst gs),
      st_cache_hits := st_cache_hits s + length (filter snd gs),
      st_cache_misses := st_cache_misses s + length (filter (Not \<circ> snd) gs)\<rparr>"
  using assms
proof (induction gs arbitrary: s)
  case (Cons g gs)
  obtain l hit where g: "g = (l, hit)" by (cases g)
  have "record_gets (g # gs) s = record_gets gs (record_get l hit s)"
    by (simp add: record_gets_def g)
  also have "record_get l hit s = s\<lparr>st_total_gets := st_total_gets s + 1,
      st_get_latency_ns := st_get_latency_ns s + l,
      st_cache_hits := st_cache_hits s + of_bool hit,
      st_cache_misses := st_cache_misses s + of_bool (\<not> hit)\<rparr>" (is "_ = ?t")
    using Cons.prems by (intro record_get_counters) (simp_all add: g)
  finally show ?case using Cons.IH[of ?t] Cons.prems by (simp add: g)
qed (simp add: record_gets_def)



end
