(* ===== verification/Cache.thy ===== *)
theory Cache
  imports Hash Stats "HOL-Library.Sublist"
begin

text \<open>
  The value cache of src/core/cache.rs: 16384 buckets of entries selected by the hash of the key,
  and a clock hand that evicts unreferenced entries. Buckets are a function on bucket indexes; the
  shared counters are the second component of the state. A bucket lock is held for the whole of a
  bucket operation, so each is one step; the eviction lock may be held by another thread, which is
  the field \<open>ca_eviction_locked\<close>. The clock loop of \<open>evict_entries\<close> spins for ever when the counter
  says that memory is in use but no bucket has an entry; it is a partial function, and \<open>None\<close> means
  that it does not return.
\<close>

section \<open>State and operations\<close>

record cache_entity =
  ce_key :: bytes
  ce_value :: bytes
  ce_reference_bit :: bool
  ce_size :: nat
  ce_access_count :: nat

record cache =
  ca_buckets :: "nat \<Rightarrow> cache_entity list"
  ca_clock_hand :: nat
  ca_high_watermark :: nat
  ca_low_watermark :: nat
  ca_eviction_locked :: bool

text \<open>\<open>mem::size_of::<CacheEntity>()\<close>: two vectors, two \<open>Arc\<close>s and a \<open>usize\<close>.\<close>

definition CACHE_ENTITY_BYTES :: nat where [kv_const]: "CACHE_ENTITY_BYTES = 72"

definition cache_new :: cache where
  "cache_new =
     \<lparr>ca_buckets = (\<lambda>_. []), ca_clock_hand = 0, ca_high_watermark = CACHE_HIGH_WATERMARK_MB * MB,
      ca_low_watermark = CACHE_LOW_WATERMARK_MB * MB, ca_eviction_locked = False\<rparr>"

definition get_bucket_idx :: "bytes \<Rightarrow> nat" where
  "get_bucket_idx key = unat (murmur3_32 key 0) mod CACHE_BUCKETS"

fun bucket_touch :: "bytes \<Rightarrow> cache_entity list \<Rightarrow> cache_entity list \<times> bytes option" where
  "bucket_touch key [] = ([], None)"
| "bucket_touch key (e # es) =
     (if ce_key e = key
      then (e\<lparr>ce_reference_bit := True, ce_access_count := wrapping_add32 (ce_access_count e) 1\<rparr> # es,
            Some (ce_value e))
      else let (es', r) = bucket_touch key es in (e # es', r))"

definition cache_get :: "bytes \<Rightarrow> cache \<Rightarrow> cache \<times> bytes option" where
  "cache_get key c =
     (let i = get_bucket_idx key;
          (b, r) = bucket_touch key (ca_buckets c i)
      in (c\<lparr>ca_buckets := (ca_buckets c)(i := b)\<rparr>, r))"

text \<open>
  The walk over one bucket under the clock hand. Each step clears a set reference bit or removes
  the entry; it stops at the end of the bucket or as soon as the target is reached. The local
  \<open>current_usage\<close> is checked arithmetic, the shared counter wraps.
\<close>

fun evict_bucket :: "nat \<Rightarrow> cache_entity list \<Rightarrow> nat \<Rightarrow> nat \<Rightarrow> statistics \<Rightarrow>
    (cache_entity list \<times> nat \<times> nat \<times> statistics) res" where
  "evict_bucket target_usage [] checked usage s = Ok ([], checked, usage, s)"
| "evict_bucket target_usage (e # es) checked usage s =
     (if ce_reference_bit e
      then (let e' = e\<lparr>ce_reference_bit := False\<rparr>
            in if usage \<le> target_usage then Ok (e' # es, checked + 1, usage, s)
               else bind_outcome (evict_bucket target_usage es (checked + 1) usage s)
                      (\<lambda>(b, rest). Ok (e' # b, rest)))
      else (let s' = record_eviction 1 (s\<lparr>st_cache_memory := wrapping_sub (st_cache_memory s) (ce_size e)\<rparr>)
            in bind_outcome (or_panic (checked_sub usage (ce_size e))) (\<lambda>usage'.
                 if usage' \<le> target_usage then Ok (es, checked + 1, usage', s')
                 else evict_bucket target_usage es (checked + 1) usage' s')))"

definition cache_len :: "cache \<Rightarrow> nat" where
  "cache_len c = (\<Sum>i<CACHE_BUCKETS. length (ca_buckets c i))"

partial_function (option) clock_sweep ::
  "nat \<Rightarrow> nat \<Rightarrow> nat \<Rightarrow> nat \<Rightarrow> cache \<Rightarrow> statistics \<Rightarrow> (cache \<times> statistics \<times> nat) res option" where
  "clock_sweep total_entries target_usage checked usage c s =
     (if checked < total_entries \<and> target_usage < usage
      then (let hand = ca_clock_hand c mod CACHE_BUCKETS;
                c1 = c\<lparr>ca_clock_hand := wrapping_add (ca_clock_hand c) 1\<rparr>
            in case evict_bucket target_usage (ca_buckets c1 hand) checked usage s of
                 Ok (b, checked', usage', s') \<Rightarrow>
                   clock_sweep total_entries target_usage checked' usage'
                     (c1\<lparr>ca_buckets := (ca_buckets c1)(hand := b)\<rparr>) s'
               | Err e \<Rightarrow> Some (Err e)
               | Panic \<Rightarrow> Some Panic)
      else Some (Ok (c, s, usage)))"

text \<open>The outer loop; its argument counts the scans that are left.\<close>

fun evict_scans :: "nat \<Rightarrow> nat \<Rightarrow> nat \<Rightarrow> cache \<Rightarrow> statistics \<Rightarrow> (cache \<times> statistics) res option" where
  "evict_scans 0 target_usage usage c s = Some (Ok (c, s))"
| "evict_scans (Suc n) target_usage usage c s =
     (if target_usage < usage
      then (case clock_sweep (cache_len c) target_usage 0 usage c s of
              None \<Rightarrow> None
            | Some (Ok (c', s', usage')) \<Rightarrow> evict_scans n target_usage usage' c' s'
            | Some (Err e) \<Rightarrow> Some (Err e)
            | Some Panic \<Rightarrow> Some Panic)
      else Some (Ok (c, s)))"

definition evict_entries :: "cache \<Rightarrow> statistics \<Rightarrow> (cache \<times> statistics) res option" where
  "evict_entries c s =
     (if ca_eviction_locked c then Some (Ok (c, s))
      else let target_usage = ca_low_watermark c; current_usage = st_cache_memory s
           in if current_usage \<le> target_usage then Some (Ok (c, s))
              else evict_scans MAX_SCANS target_usage current_usage c s)"

text \<open>The update of an entry that is present; \<open>None\<close> when the key is not in the bucket.\<close>

fun bucket_replace :: "bytes \<Rightarrow> bytes \<Rightarrow> nat \<Rightarrow> cache_entity list \<Rightarrow> (cache_entity list \<times> nat) option" where
  "bucket_replace key value sz [] = None"
| "bucket_replace key value sz (e # es) =
     (if ce_key e = key
      then Some (e\<lparr>ce_value := value, ce_size := sz, ce_reference_bit := True\<rparr> # es, ce_size e)
      else case bucket_replace key value sz es of
             None \<Rightarrow> None
           | Some (es', old) \<Rightarrow> Some (e # es', old))"

text \<open>The part of \<open>insert\<close> after the eviction.\<close>

definition cache_store :: "bytes \<Rightarrow> bytes \<Rightarrow> nat \<Rightarrow> cache \<Rightarrow> statistics \<Rightarrow> cache \<times> statistics" where
  "cache_store key value sz c s =
     (let i = get_bucket_idx key
      in case bucket_replace key value sz (ca_buckets c i) of
           Some (b, old_size) \<Rightarrow>
             (c\<lparr>ca_buckets := (ca_buckets c)(i := b)\<rparr>,
              s\<lparr>st_cache_memory :=
                  (if old_size < sz then wrapping_add (st_cache_memory s) (sz - old_size)
                   else wrapping_sub (st_cache_memory s) (old_size - sz))\<rparr>)
         | None \<Rightarrow>
             (let e = \<lparr>ce_key = key, ce_value = value, ce_reference_bit = True, ce_size = sz,
                       ce_access_count = 1\<rparr>
              in (c\<lparr>ca_buckets := (ca_buckets c)(i := ca_buckets c i @ [e])\<rparr>,
                  s\<lparr>st_cache_memory := wrapping_add (st_cache_memory s) sz\<rparr>)))"

definition entry_size :: "bytes \<Rightarrow> bytes \<Rightarrow> nat" where
  "entry_size key value = length key + length value + CACHE_ENTITY_BYTES"

definition cache_insert :: "bytes \<Rightarrow> bytes \<Rightarrow> cache \<Rightarrow> statistics \<Rightarrow> (cache \<times> statistics) res option" where
  "cache_insert key value c s =
     (let sz = entry_size key value
      in if ca_high_watermark c div 4 < sz then Some (Ok (c, s))
         else case checked_add (st_cache_memory s) sz of
                None \<Rightarrow> Some Panic
              | Some need \<Rightarrow>
                  (case (if ca_high_watermark c < need then evict_entries c s else Some (Ok (c, s))) of
                     None \<Rightarrow> None
                   | Some (Ok (c', s')) \<Rightarrow> Some (Ok (cache_store key value sz c' s'))
                   | Some (Err e) \<Rightarrow> Some (Err e)
                   | Some Panic \<Rightarrow> Some Panic))"

text \<open>\<open>position\<close> and \<open>Vec::remove\<close>: the first entry with the key and the bucket without it.\<close>

fun bucket_remove :: "bytes \<Rightarrow> cache_entity list \<Rightarrow> (cache_entity list \<times> cache_entity) option" where
  "bucket_remove key [] = None"
| "bucket_remove key (e # es) =
     (if ce_key e = key then Some (es, e)
      else case bucket_remove key es of None \<Rightarrow> None | Some (es', x) \<Rightarrow> Some (e # es', x))"

definition cache_remove :: "bytes \<Rightarrow> cache \<Rightarrow> statistics \<Rightarrow> cache \<times> statistics" where
  "cache_remove key c s =
     (let i = get_bucket_idx key
      in case bucket_remove key (ca_buckets c i) of
           None \<Rightarrow> (c, s)
         | Some (b, e) \<Rightarrow>
             (c\<lparr>ca_buckets := (ca_buckets c)(i := b)\<rparr>,
              s\<lparr>st_cache_memory := wrapping_sub (st_cache_memory s) (ce_size e)\<rparr>))"

definition cache_clear :: "cache \<Rightarrow> statistics \<Rightarrow> cache \<times> statistics" where
  "cache_clear c s =
     (c\<lparr>ca_buckets := (\<lambda>_. []), ca_clock_hand := 0\<rparr>, s\<lparr>st_cache_memory := 0\<rparr>)"

definition adjust_watermarks :: "nat \<Rightarrow> nat \<Rightarrow> cache \<Rightarrow> statistics \<Rightarrow> (cache \<times> statistics) res option" where
  "adjust_watermarks high_mb low_mb c s =
     (case (checked_mul high_mb MB, checked_mul low_mb MB) of
        (Some high, Some low) \<Rightarrow>
          (if low < high \<and> high \<le> CACHE_MAX_SIZE
           then (let c' = c\<lparr>ca_high_watermark := high, ca_low_watermark := low\<rparr>
                 in if high < st_cache_memory s then evict_entries c' s else Some (Ok (c', s)))
           else Some (Ok (c, s)))
      | _ \<Rightarrow> Some Panic)"

record cache_stats =
  cs_memory_usage :: nat
  cs_high_watermark :: nat
  cs_low_watermark :: nat

definition cache_stats_of :: "cache \<Rightarrow> statistics \<Rightarrow> cache_stats" where
  "cache_stats_of c s =
     \<lparr>cs_memory_usage = st_cache_memory s, cs_high_watermark = ca_high_watermark c,
      cs_low_watermark = ca_low_watermark c\<rparr>"

section \<open>Invariant\<close>

definition bucket_bytes :: "cache_entity list \<Rightarrow> nat" where
  "bucket_bytes b = sum_list (map ce_size b)"

definition cache_bytes :: "cache \<Rightarrow> nat" where
  "cache_bytes c = (\<Sum>i<CACHE_BUCKETS. bucket_bytes (ca_buckets c i))"

definition bucket_wf :: "nat \<Rightarrow> cache_entity list \<Rightarrow> bool" where
  "bucket_wf i b \<longleftrightarrow> distinct (map ce_key b) \<and>
     (\<forall>e\<in>set b. get_bucket_idx (ce_key e) = i \<and> ce_size e = entry_size (ce_key e) (ce_value e))"

text \<open>
  Every entry sits in the bucket of its key, once, with its size; the watermarks are in order; and
  the shared counter is the number of bytes the entries account for.
\<close>

definition cache_inv :: "cache \<Rightarrow> statistics \<Rightarrow> bool" where
  "cache_inv c s \<longleftrightarrow>
     (\<forall>i<CACHE_BUCKETS. bucket_wf i (ca_buckets c i)) \<and>
     ca_low_watermark c < ca_high_watermark c \<and> ca_high_watermark c \<le> CACHE_MAX_SIZE \<and>
     st_cache_memory s = cache_bytes c \<and> cache_bytes c + CACHE_MAX_SIZE < U64_LIM"

definition bucket_lookup :: "bytes \<Rightarrow> cache_entity list \<Rightarrow> bytes option" where
  "bucket_lookup key b = map_option ce_value (find (\<lambda>e. ce_key e = key) b)"

text \<open>The abstract content of the cache.\<close>

definition cache_lookup :: "cache \<Rightarrow> bytes \<Rightarrow> bytes option" where
  "cache_lookup c key = bucket_lookup key (ca_buckets c (get_bucket_idx key))"

lemma CACHE_BUCKETS_pos [simp]: "0 < CACHE_BUCKETS"
  by (simp add: kv_const)

lemma bucket_idx_less [simp]: "get_bucket_idx key < CACHE_BUCKETS"
  by (simp add: get_bucket_idx_def)

lemma bucket_bytes_simps [simp]:
  "bucket_bytes [] = 0" "bucket_bytes (e # b) = ce_size e + bucket_bytes b"
  "bucket_bytes (b @ b') = bucket_bytes b + bucket_bytes b'"
  by (simp_all add: bucket_bytes_def)

lemma bucket_lookup_simps [simp]:
  "bucket_lookup key [] = None"
  "bucket_lookup key (e # b) = (if ce_key e = key then Some (ce_value e) else bucket_lookup key b)"
  by (simp_all add: bucket_lookup_def)

lemma sum_upd:
  fixes f :: "'a \<Rightarrow> nat" and n :: nat
  assumes "i < n"
  shows "(\<Sum>j<n. f ((b(i := x)) j)) + f (b i) = (\<Sum>j<n. f (b j)) + f x"
proof -
  have "(\<Sum>j<n. f ((b(i := x)) j)) = f x + (\<Sum>j\<in>{..<n} - {i}. f ((b(i := x)) j))"
    using assms by (subst sum.remove[of _ i]) auto
  also have "(\<Sum>j\<in>{..<n} - {i}. f ((b(i := x)) j)) = (\<Sum>j\<in>{..<n} - {i}. f (b j))"
    by (rule sum.cong) auto
  finally show ?thesis using assms sum.remove[of "{..<n}" i "\<lambda>j. f (b j)"] by simp
qed

lemma cache_bytes_upd:
  "i < CACHE_BUCKETS \<Longrightarrow>
   cache_bytes (c\<lparr>ca_buckets := (ca_buckets c)(i := b)\<rparr>) + bucket_bytes (ca_buckets c i) =
   cache_bytes c + bucket_bytes b"
  using sum_upd[of i CACHE_BUCKETS bucket_bytes "ca_buckets c" b] by (simp add: cache_bytes_def)

lemma bucket_le_cache: "i < CACHE_BUCKETS \<Longrightarrow> bucket_bytes (ca_buckets c i) \<le> cache_bytes c"
  unfolding cache_bytes_def by (rule member_le_sum) auto

section \<open>Eviction\<close>

abbreviation unref :: "cache_entity \<Rightarrow> cache_entity" where
  "unref e \<equiv> e\<lparr>ce_reference_bit := False\<rparr>"

text \<open>What one full visit makes of a bucket: referenced entries stay, with their bit cleared.\<close>

definition second_chance :: "cache_entity list \<Rightarrow> cache_entity list" where
  "second_chance b = map unref (filter ce_reference_bit b)"

text \<open>The entries of a bucket after evictions: a subsequence, up to reference bits.\<close>

definition evicted_from :: "cache_entity list \<Rightarrow> cache_entity list \<Rightarrow> bool" where
  "evicted_from b' b \<longleftrightarrow> subseq (map unref b') (map unref b)"

lemma evicted_refl [simp]: "evicted_from b b"
  by (simp add: evicted_from_def)

lemma evicted_trans: "evicted_from a b \<Longrightarrow> evicted_from b c \<Longrightarrow> evicted_from a c"
  unfolding evicted_from_def by (rule subseq_order.trans)

lemma evicted_Cons: "evicted_from b' b \<Longrightarrow> evicted_from b' (e # b)"
  by (auto simp: evicted_from_def)

lemma evicted_unref_Cons: "evicted_from b' b \<Longrightarrow> evicted_from (unref e # b') (e # b)"
  by (simp add: evicted_from_def)

lemma subseq_distinct: "subseq xs ys \<Longrightarrow> distinct ys \<Longrightarrow> distinct xs"
  by (induction rule: list_emb.induct) (auto elim: list_emb_set)

lemma unref_eqD: "unref e = unref e' \<Longrightarrow> ce_key e = ce_key e' \<and> ce_value e = ce_value e' \<and> ce_size e = ce_size e'"
  by (cases e; cases e') simp

lemma evicted_member:
  assumes "evicted_from b' b" "e \<in> set b'"
  obtains e' where "e' \<in> set b" "ce_key e = ce_key e'" "ce_value e = ce_value e'" "ce_size e = ce_size e'"
proof -
  from assms obtain e' where "e' \<in> set b" "unref e = unref e'"
    by (fastforce simp: evicted_from_def elim: list_emb_set)
  with that unref_eqD show thesis by blast
qed

lemma evicted_wf:
  assumes "evicted_from b' b" "bucket_wf i b"
  shows "bucket_wf i b'"
proof -
  have "subseq (map ce_key b') (map ce_key b)"
    using subseq_map[OF assms(1)[unfolded evicted_from_def], of ce_key] by (simp add: comp_def)
  with assms(2) have "distinct (map ce_key b')"
    by (auto simp: bucket_wf_def intro: subseq_distinct)
  moreover have "get_bucket_idx (ce_key e) = i \<and> ce_size e = entry_size (ce_key e) (ce_value e)"
    if e: "e \<in> set b'" for e
  proof -
    from assms(1) e obtain e' where "e' \<in> set b" "ce_key e = ce_key e'" "ce_value e = ce_value e'"
      "ce_size e = ce_size e'" by (rule evicted_member)
    with assms(2) show ?thesis by (simp add: bucket_wf_def)
  qed
  ultimately show ?thesis by (simp add: bucket_wf_def)
qed

lemma bucket_lookup_SomeD: "bucket_lookup key b = Some v \<Longrightarrow> \<exists>e\<in>set b. ce_key e = key \<and> ce_value e = v"
  by (induction b) (auto split: if_splits)

lemma bucket_lookup_member:
  "distinct (map ce_key b) \<Longrightarrow> e \<in> set b \<Longrightarrow> bucket_lookup (ce_key e) b = Some (ce_value e)"
  by (induction b) force+

lemma evicted_lookup:
  assumes "evicted_from b' b" "bucket_wf i b" "bucket_lookup key b' = Some v"
  shows "bucket_lookup key b = Some v"
proof -
  from assms(3) obtain e where "e \<in> set b'" "ce_key e = key" "ce_value e = v"
    using bucket_lookup_SomeD by blast
  with assms(1) obtain e' where "e' \<in> set b" "ce_key e' = key" "ce_value e' = v"
    by (metis evicted_member)
  with bucket_lookup_member[of b e'] assms(2) show ?thesis by (simp add: bucket_wf_def)
qed

text \<open>
  One visit of a bucket while the usage is above the target: no panic, the books stay balanced,
  and unless the target is reached every entry is checked.
\<close>

lemma evict_bucket_visit:
  assumes "st_cache_memory s = usage" "bucket_bytes b \<le> usage" "usage < U64_LIM" "tgt < usage"
  shows "\<exists>b' k u s'. evict_bucket tgt b checked usage s = Ok (b', checked + k, u, s') \<and>
    u + bucket_bytes b = usage + bucket_bytes b' \<and> u \<le> usage \<and> st_cache_memory s' = u \<and>
    evicted_from b' b \<and> (u \<le> tgt \<or> k = length b \<and> b' = second_chance b)"
  using assms
proof (induction b arbitrary: checked usage s)
  case Nil
  then show ?case by (simp add: second_chance_def)
next
  case (Cons e b)
  show ?case
  proof (cases "ce_reference_bit e")
    case True
    from Cons.prems Cons.IH[of s usage "checked + 1"] obtain b' k u s' where
      IH: "evict_bucket tgt b (checked + 1) usage s = Ok (b', checked + 1 + k, u, s')"
      and *: "u + bucket_bytes b = usage + bucket_bytes b'" "u \<le> usage" "st_cache_memory s' = u"
      "evicted_from b' b" "u \<le> tgt \<or> k = length b \<and> b' = second_chance b" by auto
    show ?thesis
      by (rule exI[of _ "unref e # b'"], rule exI[of _ "Suc k"], rule exI[of _ u], rule exI[of _ s'])
        (use True Cons.prems * IH in \<open>auto simp: second_chance_def intro: evicted_unref_Cons\<close>)
  next
    case False
    let ?u = "usage - ce_size e"
    let ?s = "record_eviction 1 (s\<lparr>st_cache_memory := wrapping_sub (st_cache_memory s) (ce_size e)\<rparr>)"
    have mem: "st_cache_memory ?s = ?u"
      using Cons.prems by (simp add: record_eviction_def wrapping_in_range)
    show ?thesis
    proof (cases "?u \<le> tgt")
      case True
      show ?thesis
        by (rule exI[of _ b], rule exI[of _ 1], rule exI[of _ ?u], rule exI[of _ ?s])
          (use True \<open>\<not> ce_reference_bit e\<close> Cons.prems mem in \<open>auto intro: evicted_Cons\<close>)
    next
      case notyet: False
      have "bucket_bytes b \<le> ?u" "?u < U64_LIM" "tgt < ?u" using Cons.prems notyet by auto
      from Cons.IH[OF mem this, of "checked + 1"] obtain b' k u s' where
        IH: "evict_bucket tgt b (checked + 1) ?u ?s = Ok (b', checked + 1 + k, u, s')"
        and *: "u + bucket_bytes b = ?u + bucket_bytes b'" "u \<le> ?u" "st_cache_memory s' = u"
        "evicted_from b' b" "u \<le> tgt \<or> k = length b \<and> b' = second_chance b" by blast
      show ?thesis
        by (rule exI[of _ b'], rule exI[of _ "Suc k"], rule exI[of _ u], rule exI[of _ s'])
          (use False notyet Cons.prems * IH in \<open>auto simp: second_chance_def intro: evicted_Cons\<close>)
    qed
  qed
qed

text \<open>The bucket under the hand after \<open>j\<close> advances.\<close>

definition hand_at :: "nat \<Rightarrow> nat \<Rightarrow> nat" where
  "hand_at h j = (h + j) mod CACHE_BUCKETS"

lemma hand_at_less [simp]: "hand_at h j < CACHE_BUCKETS"
  by (simp add: hand_at_def)

lemma hand_at_Suc: "hand_at (wrapping_add h 1) j = hand_at h (Suc j)"
proof -
  have "CACHE_BUCKETS dvd U64_LIM" by (simp add: kv_const U64_LIM_def)
  then have "wrapping_add h 1 mod CACHE_BUCKETS = (h + 1) mod CACHE_BUCKETS"
    by (simp add: wrapping_add_def mod_mod_cancel)
  then show ?thesis
    unfolding hand_at_def by (metis add.assoc mod_add_left_eq plus_1_eq_Suc)
qed

lemma hand_at_inj:
  assumes "i < CACHE_BUCKETS" "j < CACHE_BUCKETS" "hand_at h i = hand_at h j"
  shows "i = j"
proof -
  have "i = j" if "i \<le> j" "j < CACHE_BUCKETS" "hand_at h i = hand_at h j" for i j
  proof -
    have "CACHE_BUCKETS dvd (h + j) - (h + i)"
      using that by (subst mod_eq_dvd_iff_nat [symmetric]) (simp_all add: hand_at_def)
    with that show ?thesis using dvd_imp_le[of CACHE_BUCKETS "j - i"] by (cases "i = j") auto
  qed
  from this[of i j] this[of j i] assms show ?thesis by (cases "i \<le> j") auto
qed

lemma hand_at_surj:
  assumes "i < CACHE_BUCKETS"
  obtains j where "j < CACHE_BUCKETS" "i = hand_at h j"
proof -
  have "inj_on (hand_at h) {..<CACHE_BUCKETS}" using hand_at_inj by (auto intro: inj_onI)
  then have "hand_at h ` {..<CACHE_BUCKETS} = {..<CACHE_BUCKETS}"
    by (intro endo_inj_surj) auto
  with assms that show thesis by blast
qed

lemma sum_hand: "(\<Sum>j<CACHE_BUCKETS. f (hand_at h j)) = (\<Sum>i<CACHE_BUCKETS. f i)"
proof -
  have inj: "inj_on (hand_at h) {..<CACHE_BUCKETS}" using hand_at_inj by (auto intro: inj_onI)
  moreover from inj have "hand_at h ` {..<CACHE_BUCKETS} = {..<CACHE_BUCKETS}"
    by (intro endo_inj_surj) auto
  ultimately show ?thesis using sum.reindex[OF inj, of f] by (simp add: comp_def)
qed

text \<open>
  What a sweep over the next \<open>n\<close> buckets, with as many checks left as they have entries, achieves:
  it returns; buckets outside the window keep their entries; and either the target is reached or
  every bucket of the window has had its second chance.
\<close>

definition swept :: "nat \<Rightarrow> nat \<Rightarrow> cache \<Rightarrow> cache \<Rightarrow> statistics \<Rightarrow> nat \<Rightarrow> bool" where
  "swept n tgt c c' s' u \<longleftrightarrow>
     st_cache_memory s' = u \<and> u = cache_bytes c' \<and> u \<le> cache_bytes c \<and>
     ca_high_watermark c' = ca_high_watermark c \<and> ca_low_watermark c' = ca_low_watermark c \<and>
     ca_eviction_locked c' = ca_eviction_locked c \<and>
     (\<forall>i<CACHE_BUCKETS. evicted_from (ca_buckets c' i) (ca_buckets c i)) \<and>
     (\<forall>i. i \<notin> hand_at (ca_clock_hand c) ` {..<n} \<longrightarrow> ca_buckets c' i = ca_buckets c i) \<and>
     (u \<le> tgt \<or> (\<forall>j<n. ca_buckets c' (hand_at (ca_clock_hand c) j) =
                          second_chance (ca_buckets c (hand_at (ca_clock_hand c) j))))"

lemma swept_advance:
  assumes c1_def: "c1 = c\<lparr>ca_clock_hand := wrapping_add (ca_clock_hand c) 1,
      ca_buckets := (ca_buckets c)(hand_at (ca_clock_hand c) 0 := b)\<rparr>"
    and "n < CACHE_BUCKETS" "evicted_from b (ca_buckets c (hand_at (ca_clock_hand c) 0))"
    and "b = second_chance (ca_buckets c (hand_at (ca_clock_hand c) 0))"
    and "cache_bytes c1 \<le> cache_bytes c" and sw: "swept n tgt c1 c' s' u'"
  shows "swept (Suc n) tgt c c' s' u'"
proof -
  let ?h = "ca_clock_hand c"
  have other: "hand_at ?h (Suc j) \<noteq> hand_at ?h 0" if "j < n" for j
    using hand_at_inj[of "Suc j" 0 ?h] that assms(2) by auto
  have win: "hand_at (ca_clock_hand c1) j = hand_at ?h (Suc j)" for j
    by (simp add: c1_def hand_at_Suc[simplified])
  have h0: "hand_at ?h 0 \<notin> hand_at (ca_clock_hand c1) ` {..<n}"
    by (metis (no_types) image_iff lessThan_iff other win)
  with sw have at0: "ca_buckets c' (hand_at ?h 0) = b" by (simp add: swept_def c1_def)
  have c1_other: "ca_buckets c1 i = ca_buckets c i" if "i \<noteq> hand_at ?h 0" for i
    using that by (simp add: c1_def)
  have "evicted_from (ca_buckets c' i) (ca_buckets c i)" if "i < CACHE_BUCKETS" for i
    using that sw at0 assms(3) c1_other[of i] by (cases "i = hand_at ?h 0") (auto simp: swept_def)
  moreover have "ca_buckets c' i = ca_buckets c i" if "i \<notin> hand_at ?h ` {..<Suc n}" for i
  proof -
    have "i \<noteq> hand_at ?h 0" "i \<notin> hand_at (ca_clock_hand c1) ` {..<n}" using that win by auto
    with sw c1_other show ?thesis by (simp add: swept_def)
  qed
  moreover have "ca_buckets c' (hand_at ?h j) = second_chance (ca_buckets c (hand_at ?h j))"
    if "\<not> u' \<le> tgt" "j < Suc n" for j
  proof (cases j)
    case 0
    with at0 assms(4) show ?thesis by simp
  next
    case (Suc m)
    with that have "m < n" by simp
    with sw that(1) have "ca_buckets c' (hand_at ?h j) = second_chance (ca_buckets c1 (hand_at ?h j))"
      by (auto simp: swept_def win Suc)
    then show ?thesis using c1_other other[OF \<open>m < n\<close>] Suc by simp
  qed
  moreover have "st_cache_memory s' = u'" "u' = cache_bytes c'" "u' \<le> cache_bytes c"
    "ca_high_watermark c' = ca_high_watermark c" "ca_low_watermark c' = ca_low_watermark c"
    "ca_eviction_locked c' = ca_eviction_locked c"
    using sw assms(5) by (simp_all add: swept_def c1_def)
  ultimately show ?thesis unfolding swept_def by blast
qed

lemma clock_sweep_window:
  assumes "n \<le> CACHE_BUCKETS"
    and "checked + (\<Sum>j<n. length (ca_buckets c (hand_at (ca_clock_hand c) j))) = tot"
    and "st_cache_memory s = usage" "usage = cache_bytes c" "usage < U64_LIM"
  shows "\<exists>c' s' u. clock_sweep tot tgt checked usage c s = Some (Ok (c', s', u)) \<and>
    swept n tgt c c' s' u"
  using assms
proof (induction n arbitrary: checked c s usage)
  case 0
  then show ?case
    by (subst clock_sweep.simps) (simp add: swept_def)
next
  case (Suc n)
  let ?h = "ca_clock_hand c" and ?b = "ca_buckets c (hand_at (ca_clock_hand c) 0)"
  show ?case
  proof (cases "checked < tot \<and> tgt < usage")
    case False
    then have "usage \<le> tgt \<or> (\<forall>j<Suc n. ca_buckets c (hand_at ?h j) = [])"
      using Suc.prems(2) by (auto simp del: sum.lessThan_Suc)
    with False Suc.prems show ?thesis
      by (subst clock_sweep.simps) (auto simp: swept_def second_chance_def)
  next
    case True
    have hand: "?h mod CACHE_BUCKETS = hand_at ?h 0" by (simp add: hand_at_def)
    have "bucket_bytes ?b \<le> usage" using bucket_le_cache Suc.prems(4) by simp
    with Suc.prems True obtain b k u s1 where
      ev: "evict_bucket tgt ?b checked usage s = Ok (b, checked + k, u, s1)"
      and bal: "u + bucket_bytes ?b = usage + bucket_bytes b" "u \<le> usage" "st_cache_memory s1 = u"
      and from_b: "evicted_from b ?b" and
      goal: "u \<le> tgt \<or> k = length ?b \<and> b = second_chance ?b"
      using evict_bucket_visit[of s usage ?b tgt checked] by blast
    define c1 where "c1 = c\<lparr>ca_clock_hand := wrapping_add ?h 1, ca_buckets := (ca_buckets c)(hand_at ?h 0 := b)\<rparr>"
    have unfold: "clock_sweep tot tgt checked usage c s = clock_sweep tot tgt (checked + k) u c1 s1"
      using True by (subst clock_sweep.simps) (simp add: hand ev c1_def)
    have bytes: "u = cache_bytes c1"
      using cache_bytes_upd[of "hand_at ?h 0" "c\<lparr>ca_clock_hand := wrapping_add ?h 1\<rparr>" b] bal Suc.prems(4)
      by (simp add: c1_def cache_bytes_def)
    show ?thesis
    proof (cases "u \<le> tgt")
      case True
      then have "clock_sweep tot tgt (checked + k) u c1 s1 = Some (Ok (c1, s1, u))"
        by (subst clock_sweep.simps) simp
      moreover have "swept (Suc n) tgt c c1 s1 u"
        using True bal bytes from_b Suc.prems(4) by (auto simp: swept_def c1_def)
      ultimately show ?thesis using unfold by auto
    next
      case False
      with goal have k: "k = length ?b" and b: "b = second_chance ?b" by auto
      have other: "hand_at ?h (Suc j) \<noteq> hand_at ?h 0" if "j < n" for j
        using hand_at_inj[of "Suc j" 0 ?h] that Suc.prems(1) by auto
      have win: "hand_at (ca_clock_hand c1) j = hand_at ?h (Suc j)" for j
        by (simp add: c1_def hand_at_Suc[simplified])
      have "(\<Sum>j<n. length (ca_buckets c1 (hand_at (ca_clock_hand c1) j))) =
          (\<Sum>j<n. length (ca_buckets c (hand_at ?h (Suc j))))"
        by (rule sum.cong) (simp_all add: win, simp add: c1_def other)
      then have "checked + k + (\<Sum>j<n. length (ca_buckets c1 (hand_at (ca_clock_hand c1) j))) = tot"
        using Suc.prems(2) k by (simp add: sum.lessThan_Suc_shift del: sum.lessThan_Suc)
      with Suc.IH[of "checked + k" c1 s1 u] Suc.prems bal bytes obtain c' s' u' where
        run: "clock_sweep tot tgt (checked + k) u c1 s1 = Some (Ok (c', s', u'))"
        and sw: "swept n tgt c1 c' s' u'" by auto
      have "swept (Suc n) tgt c c' s' u'"
        using swept_advance[OF c1_def] Suc.prems from_b b bytes bal sw by simp
      with run unfold show ?thesis by auto
    qed
  qed
qed

text \<open>One scan is a full revolution; two scans reach any target.\<close>

lemma clock_sweep_revolution:
  assumes "st_cache_memory s = cache_bytes c" "cache_bytes c < U64_LIM"
  shows "\<exists>c' s' u. clock_sweep (cache_len c) tgt 0 (cache_bytes c) c s = Some (Ok (c', s', u)) \<and>
    swept CACHE_BUCKETS tgt c c' s' u"
  using assms sum_hand[of "\<lambda>i. length (ca_buckets c i)" "ca_clock_hand c"]
  by (intro clock_sweep_window) (simp_all add: cache_len_def)

lemma swept_all:
  assumes "swept CACHE_BUCKETS tgt c c' s' u" "\<not> u \<le> tgt" "i < CACHE_BUCKETS"
  shows "ca_buckets c' i = second_chance (ca_buckets c i)"
proof -
  from assms(3) obtain j where "j < CACHE_BUCKETS" "i = hand_at (ca_clock_hand c) j"
    by (rule hand_at_surj)
  with assms(1,2) show ?thesis by (auto simp: swept_def)
qed

text \<open>Every surviving entry is one of the entries before.\<close>

definition cache_shrunk :: "cache \<Rightarrow> cache \<Rightarrow> bool" where
  "cache_shrunk c' c \<longleftrightarrow> (\<forall>i<CACHE_BUCKETS. evicted_from (ca_buckets c' i) (ca_buckets c i))"

text \<open>A successful eviction: same configuration, fewer entries, usage at most the target.\<close>

definition evicted_to :: "nat \<Rightarrow> cache \<Rightarrow> cache \<Rightarrow> statistics \<Rightarrow> bool" where
  "evicted_to tgt c c' s' \<longleftrightarrow>
     st_cache_memory s' = cache_bytes c' \<and> cache_bytes c' \<le> cache_bytes c \<and>
     ca_high_watermark c' = ca_high_watermark c \<and> ca_low_watermark c' = ca_low_watermark c \<and>
     ca_eviction_locked c' = ca_eviction_locked c \<and> cache_shrunk c' c \<and> cache_bytes c' \<le> tgt"

lemma swept_evicted_to: "swept n tgt c c' s' u \<Longrightarrow> u \<le> tgt \<Longrightarrow> evicted_to tgt c c' s'"
  by (simp add: swept_def evicted_to_def cache_shrunk_def)

lemma evict_scans_stop: "u \<le> tgt \<Longrightarrow> evict_scans k tgt u c s = Some (Ok (c, s))"
  by (cases k) auto

lemma second_sweep_reaches:
  assumes "swept CACHE_BUCKETS tgt c c1 s1 u1" "\<not> u1 \<le> tgt" "swept CACHE_BUCKETS tgt c1 c2 s2 u2"
  shows "u2 \<le> tgt"
proof (rule ccontr)
  assume u2: "\<not> u2 \<le> tgt"
  have "ca_buckets c2 i = []" if "i < CACHE_BUCKETS" for i
    using swept_all[OF assms(1,2) that] swept_all[OF assms(3) u2 that] by (simp add: second_chance_def)
  then have "cache_bytes c2 = 0" by (simp add: cache_bytes_def)
  with assms(3) u2 show False by (simp add: swept_def)
qed

lemma evict_scans_reach:
  assumes "st_cache_memory s = cache_bytes c" "cache_bytes c < U64_LIM"
  shows "\<exists>c' s'. evict_scans (Suc (Suc n)) tgt (cache_bytes c) c s = Some (Ok (c', s')) \<and>
    evicted_to tgt c c' s'"
proof (cases "cache_bytes c \<le> tgt")
  case True
  with assms show ?thesis by (simp add: evict_scans_stop evicted_to_def cache_shrunk_def)
next
  case False
  obtain c1 s1 u1 where run1: "clock_sweep (cache_len c) tgt 0 (cache_bytes c) c s = Some (Ok (c1, s1, u1))"
    and sw1: "swept CACHE_BUCKETS tgt c c1 s1 u1" using clock_sweep_revolution assms by blast
  have m1: "st_cache_memory s1 = cache_bytes c1" "cache_bytes c1 < U64_LIM" "u1 = cache_bytes c1"
    using sw1 assms by (simp_all add: swept_def)
  then obtain c2 s2 u2 where
    run2: "clock_sweep (cache_len c1) tgt 0 (cache_bytes c1) c1 s1 = Some (Ok (c2, s2, u2))"
    and sw2: "swept CACHE_BUCKETS tgt c1 c2 s2 u2" using clock_sweep_revolution by blast
  show ?thesis
  proof (cases "u1 \<le> tgt")
    case True
    with False run1 have "evict_scans (Suc (Suc n)) tgt (cache_bytes c) c s = Some (Ok (c1, s1))"
      using evict_scans_stop[OF True, of "Suc n" c1 s1]
      by (simp del: evict_scans.simps(2) add: evict_scans.simps(2)[of "Suc n"])
    with swept_evicted_to[OF sw1 True] show ?thesis by blast
  next
    case u1: False
    have u2: "u2 \<le> tgt" by (rule second_sweep_reaches[OF sw1 u1 sw2])
    with False u1 run1 run2 m1(3) have
      "evict_scans (Suc (Suc n)) tgt (cache_bytes c) c s = Some (Ok (c2, s2))"
      by (simp add: evict_scans_stop)
    moreover have "evicted_to tgt c c2 s2"
      using sw1 sw2 u2 by (auto simp: evicted_to_def swept_def cache_shrunk_def intro: evicted_trans)
    ultimately show ?thesis by blast
  qed
qed

lemma cache_shrunk_lookup:
  assumes "cache_shrunk c' c" "cache_inv c s" "cache_lookup c' key = Some v"
  shows "cache_lookup c key = Some v"
  using assms evicted_lookup[of "ca_buckets c' (get_bucket_idx key)" "ca_buckets c (get_bucket_idx key)"
      "get_bucket_idx key" key v]
  by (simp add: cache_lookup_def cache_shrunk_def cache_inv_def)

lemma evicted_to_inv:
  assumes "evicted_to tgt c c' s'" "cache_inv c s"
  shows "cache_inv c' s'"
proof -
  have "bucket_wf i (ca_buckets c' i)" if "i < CACHE_BUCKETS" for i
    using evicted_wf[of "ca_buckets c' i" "ca_buckets c i" i] assms that
    by (simp add: evicted_to_def cache_inv_def cache_shrunk_def)
  with assms show ?thesis by (simp add: evicted_to_def cache_inv_def)
qed

lemma evict_entries_result:
  assumes "cache_inv c s"
  shows "\<exists>c' s'. evict_entries c s = Some (Ok (c', s')) \<and> cache_inv c' s' \<and>
    (if ca_eviction_locked c then c' = c \<and> s' = s else evicted_to (ca_low_watermark c) c c' s')"
proof (cases "ca_eviction_locked c \<or> st_cache_memory s \<le> ca_low_watermark c")
  case True
  then show ?thesis
    using assms by (auto simp: evict_entries_def Let_def cache_shrunk_def evicted_to_def cache_inv_def)
next
  case False
  have "st_cache_memory s = cache_bytes c" "cache_bytes c < U64_LIM"
    using assms by (simp_all add: cache_inv_def)
  from evict_scans_reach[OF this, of 1 "ca_low_watermark c"] obtain c' s' where
    "evict_scans 3 (ca_low_watermark c) (cache_bytes c) c s = Some (Ok (c', s'))"
    "evicted_to (ca_low_watermark c) c c' s'" by (auto simp: numeral_3_eq_3)
  moreover from this(2) have "cache_inv c' s'" using assms by (rule evicted_to_inv)
  moreover have "evict_entries c s = evict_scans 3 (ca_low_watermark c) (cache_bytes c) c s"
    using False assms by (simp add: evict_entries_def Let_def cache_inv_def kv_const)
  ultimately show ?thesis using False by auto
qed

section \<open>Lookups and updates\<close>

text \<open>The most the cache holds: the high watermark, or the low one plus the largest entry.\<close>

definition cache_limit :: "cache \<Rightarrow> nat" where
  "cache_limit c = max (ca_high_watermark c) (ca_low_watermark c + ca_high_watermark c div 4)"

definition cache_ok :: "cache \<Rightarrow> statistics \<Rightarrow> bool" where
  "cache_ok c s \<longleftrightarrow> cache_inv c s \<and> \<not> ca_eviction_locked c \<and> cache_bytes c \<le> cache_limit c"

lemma cache_limit_bound:
  "ca_low_watermark c < ca_high_watermark c \<Longrightarrow> ca_high_watermark c \<le> CACHE_MAX_SIZE \<Longrightarrow>
   cache_limit c + CACHE_MAX_SIZE < U64_LIM"
  by (auto simp: cache_limit_def kv_const U64_LIM_def)

text \<open>The bucket operations on a bucket split at the first entry of the key.\<close>

definition bucket_keys :: "cache_entity list \<Rightarrow> bytes set" where
  "bucket_keys b = ce_key ` set b"

lemma bucket_keys_simps [simp]:
  "bucket_keys [] = {}" "bucket_keys (e # b) = insert (ce_key e) (bucket_keys b)"
  "bucket_keys (b @ b') = bucket_keys b \<union> bucket_keys b'"
  by (auto simp: bucket_keys_def)

lemma bucket_split:
  assumes "key \<in> bucket_keys b"
  obtains xs e ys where "b = xs @ e # ys" "key \<notin> bucket_keys xs" "ce_key e = key"
proof -
  from assms have "\<exists>e\<in>set b. ce_key e = key" by (auto simp: bucket_keys_def)
  then obtain xs e ys where "b = xs @ e # ys" "ce_key e = key" "\<forall>x\<in>set xs. ce_key x \<noteq> key"
    using split_list_first_prop[of b "\<lambda>e. ce_key e = key"] by blast
  then show thesis by (intro that[of xs e ys]) (auto simp: bucket_keys_def)
qed

lemma bucket_absent:
  assumes "key \<notin> bucket_keys b"
  shows "bucket_touch key b = (b, None)" "bucket_replace key v z b = None"
    "bucket_remove key b = None" "bucket_lookup key b = None"
  using assms by (induction b) auto

lemma bucket_present:
  assumes "key \<notin> bucket_keys xs" "ce_key e = key"
  shows "bucket_touch key (xs @ e # ys) =
      (xs @ e\<lparr>ce_reference_bit := True, ce_access_count := wrapping_add32 (ce_access_count e) 1\<rparr> # ys,
       Some (ce_value e))"
    "bucket_replace key v z (xs @ e # ys) =
      Some (xs @ e\<lparr>ce_value := v, ce_size := z, ce_reference_bit := True\<rparr> # ys, ce_size e)"
    "bucket_remove key (xs @ e # ys) = Some (xs @ ys, e)"
    "bucket_lookup key (xs @ e # ys) = Some (ce_value e)"
  using assms by (induction xs) auto

lemma bucket_lookup_append:
  "bucket_lookup k (xs @ ys) = (case bucket_lookup k xs of Some v \<Rightarrow> Some v | None \<Rightarrow> bucket_lookup k ys)"
  by (induction xs) auto

lemma bucket_wf_simps:
  "bucket_wf i []"
  "bucket_wf i (e # ys) \<longleftrightarrow> get_bucket_idx (ce_key e) = i \<and> ce_size e = entry_size (ce_key e) (ce_value e) \<and>
     ce_key e \<notin> bucket_keys ys \<and> bucket_wf i ys"
  "bucket_wf i (xs @ ys) \<longleftrightarrow> bucket_wf i xs \<and> bucket_wf i ys \<and> bucket_keys xs \<inter> bucket_keys ys = {}"
  by (auto simp: bucket_wf_def bucket_keys_def)

lemma bucket_touch_result:
  assumes "bucket_touch key b = (b', r)"
  shows "r = bucket_lookup key b" "bucket_lookup k b' = bucket_lookup k b"
    "bucket_bytes b' = bucket_bytes b" "bucket_wf i b' = bucket_wf i b"
proof -
  have "r = bucket_lookup key b \<and> bucket_lookup k b' = bucket_lookup k b \<and>
    bucket_bytes b' = bucket_bytes b \<and> bucket_wf i b' = bucket_wf i b"
  proof (cases "key \<in> bucket_keys b")
    case True
    then obtain xs e ys where "b = xs @ e # ys" "key \<notin> bucket_keys xs" "ce_key e = key"
      by (rule bucket_split)
    with assms show ?thesis
      by (auto simp add: bucket_present bucket_lookup_append bucket_wf_simps bucket_absent disjoint_iff
          split: option.split)
  next
    case False
    with assms show ?thesis by (simp add: bucket_absent)
  qed
  then show "r = bucket_lookup key b" "bucket_lookup k b' = bucket_lookup k b"
    "bucket_bytes b' = bucket_bytes b" "bucket_wf i b' = bucket_wf i b" by simp_all
qed

text \<open>What storing a value makes of the bucket of its key, and by how much its size changes.\<close>

lemma bucket_replace_Some:
  assumes "bucket_replace key v (entry_size key v) b = Some (b', old)" "bucket_wf i b"
  shows "bucket_bytes b' + old = bucket_bytes b + entry_size key v" "old \<le> bucket_bytes b"
    "bucket_lookup k b' = ((\<lambda>k. bucket_lookup k b)(key \<mapsto> v)) k" "bucket_wf i b'"
proof -
  from assms(1) have "key \<in> bucket_keys b" by (rule contrapos_pp) (simp add: bucket_absent)
  then obtain xs e ys where "b = xs @ e # ys" "key \<notin> bucket_keys xs" "ce_key e = key"
    by (rule bucket_split)
  with assms show "bucket_bytes b' + old = bucket_bytes b + entry_size key v" "old \<le> bucket_bytes b"
    "bucket_lookup k b' = ((\<lambda>k. bucket_lookup k b)(key \<mapsto> v)) k" "bucket_wf i b'"
    by (auto simp add: bucket_present bucket_lookup_append bucket_wf_simps bucket_absent disjoint_iff
        split: option.split)
qed

lemma bucket_replace_None: "bucket_replace key v z b = None \<Longrightarrow> key \<notin> bucket_keys b"
  by (metis bucket_present(2) bucket_split option.distinct(1))

lemma bucket_remove_Some:
  assumes "bucket_remove key b = Some (b', e)" "bucket_wf i b"
  shows "bucket_bytes b = bucket_bytes b' + ce_size e"
    "bucket_lookup k b' = ((\<lambda>k. bucket_lookup k b)(key := None)) k" "bucket_wf i b'"
proof -
  from assms(1) have "key \<in> bucket_keys b" by (rule contrapos_pp) (simp add: bucket_absent)
  then obtain xs x ys where "b = xs @ x # ys" "key \<notin> bucket_keys xs" "ce_key x = key"
    by (rule bucket_split)
  with assms show "bucket_bytes b = bucket_bytes b' + ce_size e"
    "bucket_lookup k b' = ((\<lambda>k. bucket_lookup k b)(key := None)) k" "bucket_wf i b'"
    by (auto simp add: bucket_present bucket_lookup_append bucket_wf_simps bucket_absent disjoint_iff
        split: option.split)
qed

lemma bucket_remove_None: "bucket_remove key b = None \<Longrightarrow> bucket_lookup key b = None"
proof (rule bucket_absent(4), rule notI)
  assume rem: "bucket_remove key b = None" and "key \<in> bucket_keys b"
  from this(2) obtain xs x ys where "b = xs @ x # ys" "key \<notin> bucket_keys xs" "ce_key x = key"
    by (rule bucket_split)
  with rem show False by (simp add: bucket_present)
qed

text \<open>Replacing the bucket of a key by one that differs only at that key.\<close>

lemma cache_lookup_upd:
  assumes "\<And>k. bucket_lookup k b = ((\<lambda>k. bucket_lookup k (ca_buckets c (get_bucket_idx key)))(key := x)) k"
  shows "cache_lookup (c\<lparr>ca_buckets := (ca_buckets c)(get_bucket_idx key := b)\<rparr>) = (cache_lookup c)(key := x)"
  by (rule ext) (use assms in \<open>auto simp: cache_lookup_def\<close>)

lemma cache_inv_upd:
  assumes "cache_inv c s" "i < CACHE_BUCKETS" "bucket_wf i b"
    and "st_cache_memory s' + bucket_bytes (ca_buckets c i) = st_cache_memory s + bucket_bytes b"
    and "st_cache_memory s' + CACHE_MAX_SIZE < U64_LIM"
  shows "cache_inv (c\<lparr>ca_buckets := (ca_buckets c)(i := b)\<rparr>) s'"
  using assms cache_bytes_upd[OF assms(2), of c b] by (auto simp: cache_inv_def)

lemma cache_store_result:
  assumes inv: "cache_inv c s" and room: "cache_bytes c + entry_size key v \<le> cache_limit c"
    and unl: "\<not> ca_eviction_locked c" and st: "cache_store key v (entry_size key v) c s = (c', s')"
  shows "cache_ok c' s' \<and> cache_lookup c' = (cache_lookup c)(key \<mapsto> v)"
proof -
  let ?i = "get_bucket_idx key"
  have wf: "bucket_wf ?i (ca_buckets c ?i)" and mem: "st_cache_memory s = cache_bytes c"
    and lim: "cache_limit c + CACHE_MAX_SIZE < U64_LIM"
    using inv by (auto simp: cache_inv_def intro: cache_limit_bound)
  have "\<exists>b. c' = c\<lparr>ca_buckets := (ca_buckets c)(?i := b)\<rparr> \<and> bucket_wf ?i b \<and>
    st_cache_memory s' + bucket_bytes (ca_buckets c ?i) = st_cache_memory s + bucket_bytes b \<and>
    st_cache_memory s' \<le> cache_bytes c + entry_size key v \<and>
    (\<forall>k. bucket_lookup k b = ((\<lambda>k. bucket_lookup k (ca_buckets c ?i))(key \<mapsto> v)) k)"
  proof (cases "bucket_replace key v (entry_size key v) (ca_buckets c ?i)")
    case None
    note absent = bucket_replace_None[OF None]
    with None st wf mem room lim inv show ?thesis
      by (auto simp: cache_store_def Let_def bucket_wf_simps bucket_lookup_append bucket_absent
          wrapping_in_range split: option.split)
  next
    case (Some p)
    obtain b old where p: "p = (b, old)" by (cases p)
    note r = bucket_replace_Some[OF Some[unfolded p] wf]
    have "old \<le> cache_bytes c" using r(2) bucket_le_cache[of ?i c] by simp
    with r Some p st mem room lim show ?thesis
      by (intro exI[of _ b]) (auto simp: cache_store_def Let_def wrapping_in_range)
  qed
  then obtain b where b: "c' = c\<lparr>ca_buckets := (ca_buckets c)(?i := b)\<rparr>" "bucket_wf ?i b"
    "st_cache_memory s' + bucket_bytes (ca_buckets c ?i) = st_cache_memory s + bucket_bytes b"
    "st_cache_memory s' \<le> cache_bytes c + entry_size key v"
    "\<And>k. bucket_lookup k b = ((\<lambda>k. bucket_lookup k (ca_buckets c ?i))(key \<mapsto> v)) k" by blast
  have "cache_inv c' s'"
    unfolding b(1) using b room lim by (intro cache_inv_upd[OF inv]) simp_all
  moreover have "cache_bytes c' \<le> cache_limit c'"
    using \<open>cache_inv c' s'\<close> b(1,4) room by (simp add: cache_inv_def cache_limit_def)
  moreover have "cache_lookup c' = (cache_lookup c)(key \<mapsto> v)"
    unfolding b(1) by (rule cache_lookup_upd) (rule b(5))
  ultimately show ?thesis using unl b(1) by (simp add: cache_ok_def)
qed

text \<open>The largest entry the cache takes.\<close>

definition cache_admits :: "bytes \<Rightarrow> bytes \<Rightarrow> cache \<Rightarrow> bool" where
  "cache_admits key v c \<longleftrightarrow> entry_size key v \<le> ca_high_watermark c div 4"

lemma cache_insert_result:
  assumes "cache_ok c s" "cache_admits key v c"
  shows "\<exists>c' s'. cache_insert key v c s = Some (Ok (c', s')) \<and> cache_ok c' s' \<and>
    cache_lookup c' key = Some v \<and>
    (\<forall>k. k \<noteq> key \<longrightarrow> cache_lookup c' k = cache_lookup c k \<or> cache_lookup c' k = None)"
proof -
  have inv: "cache_inv c s" and unl: "\<not> ca_eviction_locked c" using assms by (auto simp: cache_ok_def)
  have mem: "st_cache_memory s = cache_bytes c" using inv by (simp add: cache_inv_def)
  have sz: "entry_size key v \<le> ca_high_watermark c div 4" using assms by (simp add: cache_admits_def)
  then have nopanic: "checked_add (st_cache_memory s) (entry_size key v) = Some (st_cache_memory s + entry_size key v)"
    using inv by (intro checked_in_range) (auto simp: cache_inv_def)
  show ?thesis
  proof (cases "ca_high_watermark c < st_cache_memory s + entry_size key v")
    case True
    from evict_entries_result[OF inv] unl obtain c1 s1 where
      ev: "evict_entries c s = Some (Ok (c1, s1))" and inv1: "cache_inv c1 s1"
      and to: "evicted_to (ca_low_watermark c) c c1 s1" by auto
    have room: "cache_bytes c1 + entry_size key v \<le> cache_limit c1"
      using to sz by (auto simp: evicted_to_def cache_limit_def intro!: max.coboundedI2 add_mono)
    obtain c' s' where st: "cache_store key v (entry_size key v) c1 s1 = (c', s')" by fastforce
    have ok: "cache_ok c' s' \<and> cache_lookup c' = (cache_lookup c1)(key \<mapsto> v)"
      using cache_store_result[OF inv1 room _ st] to unl by (simp add: evicted_to_def)
    have "cache_lookup c1 k = cache_lookup c k \<or> cache_lookup c1 k = None" for k
      using cache_shrunk_lookup[of c1 c s k] to inv by (cases "cache_lookup c1 k") (auto simp: evicted_to_def)
    with True ok st ev nopanic sz show ?thesis by (simp add: cache_insert_def Let_def)
  next
    case False
    then have room: "cache_bytes c + entry_size key v \<le> cache_limit c"
      using mem by (simp add: cache_limit_def)
    obtain c' s' where st: "cache_store key v (entry_size key v) c s = (c', s')" by fastforce
    from cache_store_result[OF inv room unl st] False st nopanic sz show ?thesis
      by (simp add: cache_insert_def Let_def)
  qed
qed

lemma cache_insert_reject: "\<not> cache_admits key v c \<Longrightarrow> cache_insert key v c s = Some (Ok (c, s))"
  by (simp add: cache_insert_def cache_admits_def Let_def)

lemma cache_remove_result:
  assumes "cache_ok c s" "cache_remove key c s = (c', s')"
  shows "cache_ok c' s' \<and> cache_lookup c' = (cache_lookup c)(key := None)"
proof (cases "bucket_remove key (ca_buckets c (get_bucket_idx key))")
  case None
  then have "cache_lookup c key = None" by (simp add: cache_lookup_def bucket_remove_None)
  with None assms show ?thesis by (auto simp: cache_remove_def Let_def)
next
  case (Some p)
  obtain b e where p: "p = (b, e)" by (cases p)
  have inv: "cache_inv c s" using assms by (simp add: cache_ok_def)
  then have wf: "bucket_wf (get_bucket_idx key) (ca_buckets c (get_bucket_idx key))"
    by (simp add: cache_inv_def)
  note r = bucket_remove_Some[OF Some[unfolded p] wf]
  have le: "ce_size e \<le> cache_bytes c"
    using r(1) bucket_le_cache[of "get_bucket_idx key" c] by simp
  have c': "c' = c\<lparr>ca_buckets := (ca_buckets c)(get_bucket_idx key := b)\<rparr>"
    and s': "st_cache_memory s' = st_cache_memory s - ce_size e"
    using assms(2) Some p inv le by (auto simp: cache_remove_def cache_inv_def wrapping_in_range)
  have "cache_inv c' s'"
    unfolding c' using r s' le inv by (intro cache_inv_upd[OF inv]) (auto simp: cache_inv_def)
  moreover have "cache_lookup c' = (cache_lookup c)(key := None)"
    unfolding c' by (rule cache_lookup_upd) (rule r(2))
  moreover have "cache_bytes c' \<le> cache_limit c'"
  proof -
    have "cache_bytes c' \<le> cache_bytes c" using \<open>cache_inv c' s'\<close> inv s' by (auto simp: cache_inv_def)
    with assms(1) c' show ?thesis by (simp add: cache_ok_def cache_limit_def)
  qed
  ultimately show ?thesis using assms(1) c' by (simp add: cache_ok_def)
qed

lemma cache_get_result:
  assumes "cache_ok c s" "cache_get key c = (c', r)"
  shows "cache_ok c' s \<and> r = cache_lookup c key \<and> cache_lookup c' = cache_lookup c"
proof -
  obtain b where t: "bucket_touch key (ca_buckets c (get_bucket_idx key)) = (b, r)"
    and c': "c' = c\<lparr>ca_buckets := (ca_buckets c)(get_bucket_idx key := b)\<rparr>"
    using assms(2) by (auto simp: cache_get_def Let_def split: prod.splits)
  note res = bucket_touch_result[OF t]
  have inv: "cache_inv c s" using assms by (simp add: cache_ok_def)
  have "cache_inv c' s"
    unfolding c' using res(3) inv res(4)[of "get_bucket_idx key"]
    by (intro cache_inv_upd[OF inv]) (simp_all add: cache_inv_def)
  moreover have "cache_lookup c' = (cache_lookup c)(key := r)"
    unfolding c' by (rule cache_lookup_upd) (simp add: res(1,2))
  moreover have "r = cache_lookup c key" by (simp add: res(1) cache_lookup_def)
  ultimately show ?thesis
    using assms(1) c' by (auto simp: cache_ok_def cache_limit_def cache_inv_def)
qed

section \<open>Counters\<close>

text \<open>The cache touches two counters only.\<close>

definition cache_counters :: "statistics \<Rightarrow> statistics \<Rightarrow> bool" where
  "cache_counters s s' \<longleftrightarrow> (\<exists>n k. s' = s\<lparr>st_cache_memory := n, st_cache_evictions := k\<rparr>)"

lemma cache_counters_refl [simp]: "cache_counters s s"
  unfolding cache_counters_def by (rule exI[of _ "st_cache_memory s"], rule exI[of _ "st_cache_evictions s"]) simp

lemma cache_counters_trans: "cache_counters s t \<Longrightarrow> cache_counters t u \<Longrightarrow> cache_counters s u"
  unfolding cache_counters_def by (elim exE, hypsubst, intro exI) simp

lemma cache_counters_memory [simp]: "cache_counters s (s\<lparr>st_cache_memory := n\<rparr>)"
  unfolding cache_counters_def by (rule exI[of _ n], rule exI[of _ "st_cache_evictions s"]) simp

lemma cache_counters_evicted [simp]: "cache_counters s (record_eviction k (s\<lparr>st_cache_memory := n\<rparr>))"
  unfolding cache_counters_def record_eviction_def by (rule exI)+ (rule refl)

lemma evict_bucket_counters: "evict_bucket tgt es k u s = Ok (b, k', u', s') \<Longrightarrow> cache_counters s s'"
proof (induction tgt es k u s arbitrary: b k' u' s' rule: evict_bucket.induct)
  case (2 tgt e es k u s)
  show ?case
  proof (cases "ce_reference_bit e")
    case True
    with 2 show ?thesis by (auto simp: Let_def elim!: bind_outcome_OkD split: if_splits)
  next
    case False
    define s1 where "s1 = record_eviction 1 (s\<lparr>st_cache_memory := wrapping_sub (st_cache_memory s) (ce_size e)\<rparr>)"
    have "cache_counters s s1" by (simp add: s1_def)
    moreover have "cache_counters s1 s'"
      using 2 False by (auto simp: Let_def s1_def elim!: bind_outcome_OkD split: if_splits)
    ultimately show ?thesis by (rule cache_counters_trans)
  qed
qed simp

lemma clock_sweep_counters:
  "clock_sweep n tgt k u c s = Some r \<Longrightarrow> (case r of Ok (c', s', u') \<Rightarrow> cache_counters s s' | _ \<Rightarrow> True)"
proof (induction rule: clock_sweep.raw_induct[rotated, consumes 1, case_names sweep])
  case (sweep sweep n tgt k u c s r)
  show ?case
  proof (cases "k < n \<and> tgt < u")
    case True
    show ?thesis
    proof (cases "evict_bucket tgt (ca_buckets c (ca_clock_hand c mod CACHE_BUCKETS)) k u s")
      case (Ok x)
      obtain b k' u' s1 where x: "x = (b, k', u', s1)" by (cases x)
      with sweep(2) True Ok have "sweep n tgt k' u' (c\<lparr>ca_clock_hand := wrapping_add (ca_clock_hand c) 1,
          ca_buckets := (ca_buckets c)(ca_clock_hand c mod CACHE_BUCKETS := b)\<rparr>) s1 = Some r" by (simp add: Let_def)
      from sweep(1)[OF this] evict_bucket_counters[OF Ok[unfolded x]] show ?thesis
        by (auto split: outcome.splits intro: cache_counters_trans)
    qed (use sweep(2) True in \<open>auto simp: Let_def\<close>)
  qed (use sweep(2) in auto)
qed

lemma evict_scans_counters: "evict_scans n tgt u c s = Some (Ok (c', s')) \<Longrightarrow> cache_counters s s'"
proof (induction n tgt u c s arbitrary: c' s' rule: evict_scans.induct)
  case (2 n tgt u c s)
  then show ?case
    by (fastforce split: if_splits option.splits outcome.splits dest: clock_sweep_counters intro: cache_counters_trans)
qed auto

lemma cache_store_counters: "cache_store key v sz c s = (c', s') \<Longrightarrow> cache_counters s s'"
  by (auto simp: cache_store_def Let_def split: option.splits)

lemma cache_insert_counters:
  assumes "cache_insert key v c s = Some (Ok (c', s'))"
  shows "cache_counters s s'"
proof (cases "ca_high_watermark c div 4 < entry_size key v")
  case False
  with assms obtain c1 s1 where
    "(if ca_high_watermark c < st_cache_memory s + entry_size key v then evict_entries c s else Some (Ok (c, s))) = Some (Ok (c1, s1))"
    and st: "cache_store key v (entry_size key v) c1 s1 = (c', s')"
    by (auto simp: cache_insert_def Let_def checked_add_def split: option.splits outcome.splits if_splits)
  then have "cache_counters s s1" by (auto simp: evict_entries_def Let_def dest: evict_scans_counters split: if_splits)
  with cache_store_counters[OF st] show ?thesis by (blast intro: cache_counters_trans)
qed (use assms in \<open>simp add: cache_insert_def\<close>)

lemma cache_remove_counters: "cache_remove key c s = (c', s') \<Longrightarrow> cache_counters s s'"
  by (auto simp: cache_remove_def Let_def split: option.splits)

section \<open>The interface of a lossy cache\<close>

text \<open>
  What the store relies on: a lookup never changes the content, a fill may drop other keys but
  never changes their values, and a removal forgets exactly one key. A client that fills only
  values of its backing map and removes a key before the map changes there reads the map through
  the cache.
\<close>

locale lossy_cache =
  fixes lookup :: "'c \<Rightarrow> 'k \<Rightarrow> 'v option"
    and touch :: "'k \<Rightarrow> 'c \<Rightarrow> 'c \<times> 'v option"
    and fill :: "'k \<Rightarrow> 'v \<Rightarrow> 'c \<Rightarrow> 'c"
    and forget :: "'k \<Rightarrow> 'c \<Rightarrow> 'c"
    and ok :: "'c \<Rightarrow> bool"
  assumes touch_ok: "ok c \<Longrightarrow> ok (fst (touch k c))"
    and touch_result: "ok c \<Longrightarrow> snd (touch k c) = lookup c k"
    and touch_same: "ok c \<Longrightarrow> lookup (fst (touch k c)) = lookup c"
    and fill_ok: "ok c \<Longrightarrow> ok (fill k v c)"
    and fill_key: "ok c \<Longrightarrow> lookup c k = None \<Longrightarrow> lookup (fill k v c) k = Some v \<or> lookup (fill k v c) k = None"
    and fill_other: "ok c \<Longrightarrow> k' \<noteq> k \<Longrightarrow> lookup (fill k v c) k' = lookup c k' \<or> lookup (fill k v c) k' = None"
    and forget_ok: "ok c \<Longrightarrow> ok (forget k c)"
    and forget_lookup: "ok c \<Longrightarrow> lookup (forget k c) = (lookup c)(k := None)"
begin

definition coherent :: "'c \<Rightarrow> ('k \<Rightarrow> 'v option) \<Rightarrow> bool" where
  "coherent c m \<longleftrightarrow> (\<forall>k v. lookup c k = Some v \<longrightarrow> m k = Some v)"

definition read_through :: "('k \<Rightarrow> 'v option) \<Rightarrow> 'k \<Rightarrow> 'c \<Rightarrow> 'c \<times> 'v option" where
  "read_through m k c =
     (case touch k c of
        (c', Some v) \<Rightarrow> (c', Some v)
      | (c', None) \<Rightarrow> (case m k of None \<Rightarrow> (c', None) | Some v \<Rightarrow> (fill k v c', Some v)))"

lemma coherent_forget: "ok c \<Longrightarrow> coherent c m \<Longrightarrow> coherent (forget k c) (m(k := x))"
  by (auto simp: coherent_def forget_lookup)

lemma coherent_fill:
  assumes "ok c" "coherent c m" "lookup c k = None" "m k = Some v"
  shows "coherent (fill k v c) m"
  unfolding coherent_def
proof (intro allI impI)
  fix k' v' assume l: "lookup (fill k v c) k' = Some v'"
  show "m k' = Some v'"
  proof (cases "k' = k")
    case True
    with l assms show ?thesis using fill_key[OF assms(1,3), of v] by auto
  next
    case False
    with l have "lookup c k' = Some v'" using fill_other[OF assms(1) False, of v] by auto
    with assms(2) show ?thesis by (simp add: coherent_def)
  qed
qed

theorem read_through_correct:
  assumes "ok c" "coherent c m" "read_through m k c = (c', r)"
  shows "r = m k" "ok c'" "coherent c' m"
proof -
  obtain c1 t where t: "touch k c = (c1, t)" by fastforce
  have c1: "ok c1" "t = lookup c k" "lookup c1 = lookup c"
    using touch_ok[OF assms(1), of k] touch_result[OF assms(1), of k] touch_same[OF assms(1), of k] t by auto
  have "r = m k \<and> ok c' \<and> coherent c' m"
  proof (cases t)
    case None
    with c1 assms have "coherent c1 m" "lookup c1 k = None" by (auto simp: coherent_def)
    with None c1 assms t show ?thesis
      by (auto simp: read_through_def fill_ok coherent_fill split: option.splits)
  next
    case (Some v)
    with c1(2) have "lookup c k = Some v" by simp
    with assms(2) have "m k = Some v" by (simp add: coherent_def)
    with Some c1 assms t show ?thesis by (auto simp: read_through_def coherent_def)
  qed
  then show "r = m k" "ok c'" "coherent c' m" by simp_all
qed

end

text \<open>The cache with its counters as one state; an eviction that panics or diverges is excluded.\<close>

definition fill_cache :: "bytes \<Rightarrow> bytes \<Rightarrow> cache \<times> statistics \<Rightarrow> cache \<times> statistics" where
  "fill_cache k v cs = (case cache_insert k v (fst cs) (snd cs) of Some (Ok cs') \<Rightarrow> cs' | _ \<Rightarrow> cs)"

definition touch_cache :: "bytes \<Rightarrow> cache \<times> statistics \<Rightarrow> (cache \<times> statistics) \<times> bytes option" where
  "touch_cache k cs = (case cache_get k (fst cs) of (c', r) \<Rightarrow> ((c', snd cs), r))"

definition forget_cache :: "bytes \<Rightarrow> cache \<times> statistics \<Rightarrow> cache \<times> statistics" where
  "forget_cache k cs = cache_remove k (fst cs) (snd cs)"

lemma fill_cache_cases:
  assumes "cache_ok (fst cs) (snd cs)"
  obtains (reject) "fill_cache k v cs = cs" "\<not> cache_admits k v (fst cs)"
  | (stored) c' s' where "cache_insert k v (fst cs) (snd cs) = Some (Ok (c', s'))"
      "fill_cache k v cs = (c', s')" "cache_ok c' s'" "cache_lookup c' k = Some v"
      "\<And>k'. k' \<noteq> k \<Longrightarrow> cache_lookup c' k' = cache_lookup (fst cs) k' \<or> cache_lookup c' k' = None"
proof (cases "cache_admits k v (fst cs)")
  case True
  then show thesis
    using cache_insert_result[OF assms True] stored by (auto simp: fill_cache_def)
next
  case False
  then show thesis using reject by (simp add: fill_cache_def cache_insert_reject)
qed

interpretation cache: lossy_cache "\<lambda>cs. cache_lookup (fst cs)" touch_cache fill_cache forget_cache
  "\<lambda>cs. cache_ok (fst cs) (snd cs)"
proof unfold_locales
  fix cs :: "cache \<times> statistics" and k assume ok: "cache_ok (fst cs) (snd cs)"
  obtain c' r where g: "cache_get k (fst cs) = (c', r)" by fastforce
  show "cache_ok (fst (fst (touch_cache k cs))) (snd (fst (touch_cache k cs)))"
    "snd (touch_cache k cs) = cache_lookup (fst cs) k"
    "cache_lookup (fst (fst (touch_cache k cs))) = cache_lookup (fst cs)"
    using cache_get_result[OF ok g] by (simp_all add: touch_cache_def g)
  show "cache_ok (fst (fill_cache k v cs)) (snd (fill_cache k v cs))" for v
    using ok by (cases rule: fill_cache_cases[OF ok, of k v]) simp_all
  show "cache_lookup (fst cs) k = None \<Longrightarrow> cache_lookup (fst (fill_cache k v cs)) k = Some v \<or>
      cache_lookup (fst (fill_cache k v cs)) k = None" for v
    by (cases rule: fill_cache_cases[OF ok, of k v]) simp_all
  show "cache_lookup (fst (fill_cache k v cs)) k' = cache_lookup (fst cs) k' \<or>
      cache_lookup (fst (fill_cache k v cs)) k' = None" if "k' \<noteq> k" for v k'
    using that by (cases rule: fill_cache_cases[OF ok, of k v]) auto
  obtain c2 s2 where rm: "cache_remove k (fst cs) (snd cs) = (c2, s2)" by fastforce
  show "cache_ok (fst (forget_cache k cs)) (snd (forget_cache k cs))"
    "cache_lookup (fst (forget_cache k cs)) = (cache_lookup (fst cs))(k := None)"
    using cache_remove_result[OF ok rm] by (simp_all add: forget_cache_def rm)
qed

section \<open>Properties\<close>

lemma cache_new_ok: "cache_ok cache_new stats_new"
  by (simp add: cache_ok_def cache_inv_def cache_new_def cache_bytes_def bucket_wf_simps cache_limit_def
      kv_const U64_LIM_def)

lemma cache_clear_ok: "cache_ok c s \<Longrightarrow> cache_clear c s = (c', s') \<Longrightarrow> cache_ok c' s'"
  by (auto simp: cache_ok_def cache_inv_def cache_clear_def cache_bytes_def bucket_wf_simps cache_limit_def
      kv_const U64_LIM_def)

text \<open>
  C25. Clock eviction reaches its target. On a consistent cache whose eviction lock is free,
  \<open>evict_entries\<close> returns without a panic with at most the low watermark in use; the counter is
  still the exact sum of the entry sizes, and no key changes its value: entries only disappear.
\<close>

theorem eviction_reaches_low_watermark:
  assumes "cache_inv c s" "\<not> ca_eviction_locked c"
  shows "\<exists>c' s'. evict_entries c s = Some (Ok (c', s')) \<and> cache_inv c' s' \<and>
    st_cache_memory s' \<le> ca_low_watermark c \<and> st_cache_memory s' = cache_bytes c' \<and>
    (\<forall>key v. cache_lookup c' key = Some v \<longrightarrow> cache_lookup c key = Some v)"
proof -
  from evict_entries_result[OF assms(1)] assms(2) obtain c' s' where
    *: "evict_entries c s = Some (Ok (c', s'))" "cache_inv c' s'"
      "evicted_to (ca_low_watermark c) c c' s'" by auto
  have "cache_lookup c key = Some v" if "cache_lookup c' key = Some v" for key v
    using that * assms(1) cache_shrunk_lookup by (auto simp: evicted_to_def)
  with * show ?thesis by (auto simp: evicted_to_def)
qed

text \<open>A cache with one referenced entry and a low watermark that makes it too large.\<close>

definition demo_cache :: cache where
  "demo_cache = cache_new\<lparr>ca_buckets := (\<lambda>_. [])(get_bucket_idx [1] :=
     [\<lparr>ce_key = [1], ce_value = [7], ce_reference_bit = True, ce_size = 74, ce_access_count = 1\<rparr>]),
     ca_low_watermark := 10\<rparr>"

lemma demo_cache_inv: "cache_inv demo_cache (stats_new\<lparr>st_cache_memory := 74\<rparr>)"
proof -
  have "cache_bytes demo_cache = 74"
    using cache_bytes_upd[of "get_bucket_idx [1]" cache_new
        "[\<lparr>ce_key = [1], ce_value = [7], ce_reference_bit = True, ce_size = 74, ce_access_count = 1\<rparr>]"]
    by (simp add: demo_cache_def cache_new_def cache_bytes_def)
  then show ?thesis
    by (simp add: cache_inv_def) (simp add: demo_cache_def cache_new_def bucket_wf_simps entry_size_def
        kv_const U64_LIM_def)
qed

theorem eviction_reaches_low_watermark_witness:
  "\<exists>c' s'. evict_entries demo_cache (stats_new\<lparr>st_cache_memory := 74\<rparr>) = Some (Ok (c', s')) \<and>
     st_cache_memory s' \<le> 10"
proof -
  have "\<not> ca_eviction_locked demo_cache" "ca_low_watermark demo_cache = 10"
    by (simp_all add: demo_cache_def cache_new_def)
  with eviction_reaches_low_watermark[OF demo_cache_inv] show ?thesis by auto
qed

text \<open>
  C26. Inserting into the cache. With the eviction lock free, \<open>insert\<close> always returns; afterwards the
  invariant holds, the memory counter is at most the larger of the high watermark and the low
  watermark plus a quarter of the high one, an admitted key reads back the new value, and every
  other key keeps its value or is evicted.
\<close>

theorem cache_insert_bounded:
  assumes "cache_ok c s" "cache_admits key v c"
  shows "\<exists>c' s'. cache_insert key v c s = Some (Ok (c', s')) \<and> cache_inv c' s' \<and>
    st_cache_memory s' \<le> max (ca_high_watermark c') (ca_low_watermark c' + ca_high_watermark c' div 4) \<and>
    snd (cache_get key c') = Some v \<and>
    (\<forall>k. k \<noteq> key \<longrightarrow> snd (cache_get k c') = snd (cache_get k c) \<or> snd (cache_get k c') = None)"
proof -
  from cache_insert_result[OF assms] obtain c' s' where *: "cache_insert key v c s = Some (Ok (c', s'))"
    "cache_ok c' s'" "cache_lookup c' key = Some v"
    "\<forall>k. k \<noteq> key \<longrightarrow> cache_lookup c' k = cache_lookup c k \<or> cache_lookup c' k = None" by blast
  have "snd (cache_get k x) = cache_lookup x k" if "cache_ok x y" for x y k
    using cache_get_result[OF that, of k "fst (cache_get k x)" "snd (cache_get k x)"] by simp
  with * assms(1) show ?thesis by (auto simp: cache_ok_def cache_inv_def cache_limit_def)
qed

theorem cache_insert_bounded_witness:
  "\<exists>c' s'. cache_insert [1] [2] cache_new stats_new = Some (Ok (c', s')) \<and>
     snd (cache_get [1] c') = Some [2]"
proof -
  have "cache_admits [1] [2] cache_new"
    by (simp add: cache_admits_def entry_size_def cache_new_def kv_const)
  from cache_insert_bounded[OF cache_new_ok this] show ?thesis by blast
qed

text \<open>
  C35. A rejected insert leaves the old value. A value larger than a quarter of the high watermark
  is not cached, and an older value of the same key stays cached and readable.
\<close>

theorem oversize_insert_keeps_stale:
  assumes "cache_ok c s" "\<not> cache_admits key new c" "cache_lookup c key = Some old"
  shows "\<exists>c' s'. cache_insert key new c s = Some (Ok (c', s')) \<and> snd (cache_get key c') = Some old"
  using assms cache_insert_reject[OF assms(2)] cache_get_result[OF assms(1)]
  by (cases "cache_get key c") auto

theorem oversize_insert_keeps_stale_witness:
  "\<exists>c' s'. cache_insert [1] (replicate 200 9) (demo_cache\<lparr>ca_high_watermark := 1000\<rparr>)
       (stats_new\<lparr>st_cache_memory := 74\<rparr>) = Some (Ok (c', s')) \<and>
     snd (cache_get [1] c') = Some [7]"
proof (rule oversize_insert_keeps_stale)
  let ?c = "demo_cache\<lparr>ca_high_watermark := 1000\<rparr>"
  have f: "ca_high_watermark ?c = 1000" "ca_low_watermark ?c = 10" "\<not> ca_eviction_locked ?c"
    "ca_buckets ?c = ca_buckets demo_cache"
    by (simp_all add: demo_cache_def cache_new_def)
  then have "cache_bytes ?c = cache_bytes demo_cache" by (simp add: cache_bytes_def)
  then show "cache_ok ?c (stats_new\<lparr>st_cache_memory := 74\<rparr>)"
    using demo_cache_inv f by (simp add: cache_ok_def cache_inv_def cache_limit_def kv_const)
  show "\<not> cache_admits [1] (replicate 200 9) ?c" by (simp add: cache_admits_def entry_size_def kv_const)
  show "cache_lookup ?c [1] = Some [7]" by (simp add: cache_lookup_def demo_cache_def)
qed

end
