(* ===== verification/Codec.thy ===== *)
theory Codec
  imports KV_Constants
begin

text \<open>
  Little-endian encodings of the integers the on-disk formats use (\<open>to_le_bytes\<close> and
  \<open>from_le_bytes\<close> of the standard library), slices, and the interface \<open>fixed_codec\<close> of a
  fixed-width field: what a reader finds where a writer has put the field.
\<close>

section \<open>Slices\<close>

text \<open>\<open>data[a..b]\<close>; callers check the bounds first, as the source does.\<close>

definition byte_slice :: "nat \<Rightarrow> nat \<Rightarrow> 'a list \<Rightarrow> 'a list" where
  "byte_slice a b xs = take (b - a) (drop a xs)"

lemma length_byte_slice: "b \<le> length xs \<Longrightarrow> length (byte_slice a b xs) = b - a"
  by (simp add: byte_slice_def)

text \<open>A byte_slice is found behind a prefix of known length.\<close>

lemma byte_slice_append_right: "length xs \<le> a \<Longrightarrow> byte_slice a b (xs @ ys) = byte_slice (a - length xs) (b - length xs) ys"
  by (simp add: byte_slice_def)

lemma byte_slice_append_left: "b \<le> length xs \<Longrightarrow> byte_slice a b (xs @ ys) = byte_slice a b xs"
  by (cases "a \<le> b") (simp_all add: byte_slice_def)

lemma byte_slice_full: "length xs = n \<Longrightarrow> byte_slice 0 n xs = xs"
  by (simp add: byte_slice_def)

lemma byte_slice_mid: "length pre = a \<Longrightarrow> length xs = b - a \<Longrightarrow> byte_slice a b (pre @ xs @ post) = xs"
  by (simp add: byte_slice_def)

lemma byte_slice_take: "b \<le> n \<Longrightarrow> byte_slice a b (take n xs) = byte_slice a b xs"
  by (simp add: byte_slice_def drop_take min_def)

section \<open>Little-endian integers\<close>

fun to_le_bytes :: "nat \<Rightarrow> nat \<Rightarrow> bytes" where
  "to_le_bytes 0 n = []"
| "to_le_bytes (Suc k) n = of_nat n # to_le_bytes k (n div 256)"

fun from_le_bytes :: "bytes \<Rightarrow> nat" where
  "from_le_bytes [] = 0"
| "from_le_bytes (b # bs) = unat b + 256 * from_le_bytes bs"

lemma length_to_le_bytes [simp]: "length (to_le_bytes k n) = k"
  by (induction k arbitrary: n) auto

lemma unat_byte_of_nat: "unat (of_nat n :: byte) = n mod 256"
  by (simp add: unat_of_nat)

lemma from_to_le_bytes: "from_le_bytes (to_le_bytes k n) = n mod 256 ^ k"
proof (induction k arbitrary: n)
  case (Suc k)
  have "from_le_bytes (to_le_bytes (Suc k) n) = n mod 256 + 256 * (n div 256 mod 256 ^ k)"
    by (simp add: Suc unat_byte_of_nat)
  also have "\<dots> = n mod 256 ^ Suc k" by (simp add: mod_mult2_eq)
  finally show ?case .
qed simp

lemma to_from_le_bytes: "to_le_bytes (length bs) (from_le_bytes bs) = bs"
proof (induction bs)
  case (Cons b bs)
  have "unat b < 256" using unsigned_less[of b] by simp
  then have "(unat b + 256 * from_le_bytes bs) div 256 = from_le_bytes bs" by simp
  moreover have "(of_nat (unat b + 256 * from_le_bytes bs) :: byte) = b"
    by (rule word_unat_eq_iff[THEN iffD2]) (simp add: unat_byte_of_nat \<open>unat b < 256\<close> del: of_nat_add)
  ultimately show ?case using Cons by simp
qed simp

lemma from_le_bytes_bound: "from_le_bytes bs < 256 ^ length bs"
proof (induction bs)
  case (Cons b bs)
  have "unat b < 256" using unsigned_less[of b] by simp
  with Cons have "unat b + 256 * from_le_bytes bs < 256 + 256 * from_le_bytes bs" by simp
  also have "\<dots> \<le> 256 * 256 ^ length bs" using Cons by (simp add: Suc_le_eq flip: mult_Suc_right)
  finally show ?case by simp
qed simp

text \<open>\<open>i64\<close>: two's complement of an \<open>int\<close> in range.\<close>

definition I64_MIN :: int where "I64_MIN = - (2 ^ 63)"
definition I64_MAX :: int where "I64_MAX = 2 ^ 63 - 1"

definition i64_to_le_bytes :: "int \<Rightarrow> bytes" where
  "i64_to_le_bytes i = to_le_bytes 8 (nat (i mod 2 ^ 64))"

definition i64_from_le_bytes :: "bytes \<Rightarrow> int" where
  "i64_from_le_bytes bs =
     (let n = from_le_bytes bs in if n < 2 ^ 63 then int n else int n - 2 ^ 64)"

definition saturating_add_i64 :: "int \<Rightarrow> int \<Rightarrow> int" where
  "saturating_add_i64 a b = max I64_MIN (min I64_MAX (a + b))"

section \<open>Fixed-width fields\<close>

locale fixed_codec =
  fixes enc :: "'a \<Rightarrow> bytes"
    and dec :: "bytes \<Rightarrow> 'a"
    and width :: nat
    and valid :: "'a \<Rightarrow> bool"
  assumes length_enc: "valid x \<Longrightarrow> length (enc x) = width"
    and dec_enc: "valid x \<Longrightarrow> dec (enc x) = x"
    and enc_dec: "length bs = width \<Longrightarrow> enc (dec bs) = bs"
    and valid_dec: "length bs = width \<Longrightarrow> valid (dec bs)"
begin

lemma enc_inject: "valid x \<Longrightarrow> valid y \<Longrightarrow> enc x = enc y \<longleftrightarrow> x = y"
  using dec_enc by metis

text \<open>A reader that knows the offset of the field gets the value that was written.\<close>

lemma read_field:
  assumes "valid x" "length pre = a" "b = a + width"
  shows "dec (byte_slice a b (pre @ enc x @ post)) = x"
  using assms by (simp add: byte_slice_mid length_enc dec_enc)

lemma read_first: "valid x \<Longrightarrow> dec (byte_slice 0 width (enc x @ post)) = x"
  using read_field[of x "[]" 0 width post] by simp

text \<open>Every field content is the encoding of what is read there.\<close>

lemma written_field:
  "b = a + width \<Longrightarrow> b \<le> length bs \<Longrightarrow> enc (dec (byte_slice a b bs)) = byte_slice a b bs"
  by (simp add: enc_dec length_byte_slice)

end

interpretation u16: fixed_codec "to_le_bytes 2" from_le_bytes 2 "\<lambda>n. n < 2 ^ 16"
proof unfold_locales
  fix bs :: bytes assume bs: "length bs = 2"
  then show "to_le_bytes 2 (from_le_bytes bs) = bs" using to_from_le_bytes[of bs] by simp
  show "from_le_bytes bs < 2 ^ 16" using from_le_bytes_bound[of bs] bs by simp
qed (simp_all add: from_to_le_bytes)

interpretation u32: fixed_codec "to_le_bytes 4" from_le_bytes 4 "\<lambda>n. n < 2 ^ 32"
proof unfold_locales
  fix bs :: bytes assume bs: "length bs = 4"
  then show "to_le_bytes 4 (from_le_bytes bs) = bs" using to_from_le_bytes[of bs] by simp
  show "from_le_bytes bs < 2 ^ 32" using from_le_bytes_bound[of bs] bs by simp
qed (simp_all add: from_to_le_bytes)

interpretation u64: fixed_codec "to_le_bytes 8" from_le_bytes 8 "\<lambda>n. n < U64_LIM"
proof unfold_locales
  fix bs :: bytes assume bs: "length bs = 8"
  then show "to_le_bytes 8 (from_le_bytes bs) = bs" using to_from_le_bytes[of bs] by simp
  show "from_le_bytes bs < U64_LIM" using from_le_bytes_bound[of bs] bs by (simp add: U64_LIM_def)
qed (simp_all add: from_to_le_bytes U64_LIM_def)

interpretation i64: fixed_codec i64_to_le_bytes i64_from_le_bytes 8
  "\<lambda>i. I64_MIN \<le> i \<and> i \<le> I64_MAX"
proof unfold_locales
  show "length (i64_to_le_bytes i) = 8" if "I64_MIN \<le> i \<and> i \<le> I64_MAX" for i
    by (simp add: i64_to_le_bytes_def)
next
  fix i :: int assume "I64_MIN \<le> i \<and> i \<le> I64_MAX"
  then have r: "- (2 ^ 63) \<le> i" "i < 2 ^ 63" by (simp_all add: I64_MIN_def I64_MAX_def)
  have n: "nat (i mod 2 ^ 64) < U64_LIM" by (simp add: U64_LIM_def nat_less_iff)
  have eq: "i64_from_le_bytes (i64_to_le_bytes i) =
      (if nat (i mod 2 ^ 64) < 2 ^ 63 then i mod 2 ^ 64 else i mod 2 ^ 64 - 2 ^ 64)"
    using u64.dec_enc[OF n] by (simp add: i64_from_le_bytes_def i64_to_le_bytes_def Let_def)
  show "i64_from_le_bytes (i64_to_le_bytes i) = i"
  proof (cases "0 \<le> i")
    case True
    with r have "i mod 2 ^ 64 = i" by (intro mod_pos_pos_trivial) auto
    with True r eq show ?thesis by (simp add: nat_less_iff)
  next
    case False
    with r have "(i + 2 ^ 64) mod 2 ^ 64 = i + 2 ^ 64" by (intro mod_pos_pos_trivial) auto
    then have "i mod 2 ^ 64 = i + 2 ^ 64" by simp
    with False r eq show ?thesis by (simp add: nat_less_iff)
  qed
next
  fix bs :: bytes assume bs: "length bs = 8"
  have b: "from_le_bytes bs < 2 ^ 64" using u64.valid_dec[OF bs] by (simp add: U64_LIM_def)
  have "nat (i64_from_le_bytes bs mod 2 ^ 64) = from_le_bytes bs"
  proof (cases "from_le_bytes bs < 2 ^ 63")
    case True
    with b show ?thesis by (simp add: i64_from_le_bytes_def mod_pos_pos_trivial)
  next
    case False
    have "(int (from_le_bytes bs) - 2 ^ 64) mod 2 ^ 64 = int (from_le_bytes bs) mod 2 ^ 64"
      by (simp add: mod_diff_right_eq [symmetric])
    with False b show ?thesis by (simp add: i64_from_le_bytes_def mod_pos_pos_trivial)
  qed
  then show "i64_to_le_bytes (i64_from_le_bytes bs) = bs"
    using u64.enc_dec[OF bs] by (simp add: i64_to_le_bytes_def)
  show "I64_MIN \<le> i64_from_le_bytes bs \<and> i64_from_le_bytes bs \<le> I64_MAX"
    using b by (simp add: i64_from_le_bytes_def I64_MIN_def I64_MAX_def Let_def)
qed

end
