(* ===== verification/Records.thy ===== *)
theory Records
  imports Codec
begin

text \<open>
  The record of src/core/record.rs. Atomic cells and the value lock are plain fields: each method
  is one atomic step. The key vector is built by \<open>to_vec\<close> or \<open>clone\<close>, so its capacity is its
  length. The size of the Rust struct depends on the lock and pointer types of other crates; it is
  the argument \<open>rec_struct\<close>.
\<close>

record kv_record =
  r_key :: bytes
  r_value :: "bytes option"
  r_ttl_expiry :: nat
  r_timestamp :: nat
  r_value_len :: nat
  r_sector :: nat
  r_refcount :: nat
  r_key_len :: nat
  r_cache_ref_bit :: nat
  r_cache_access_time :: nat

definition record_new :: "bytes \<Rightarrow> bytes \<Rightarrow> nat \<Rightarrow> kv_record" where
  "record_new key value timestamp =
     \<lparr>r_key = key, r_value = Some value, r_ttl_expiry = 0, r_timestamp = timestamp,
      r_value_len = length value, r_sector = 0, r_refcount = 1,
      r_key_len = length key mod 2 ^ 16, r_cache_ref_bit = 0, r_cache_access_time = 0\<rparr>"

definition record_new_with_ttl :: "bytes \<Rightarrow> bytes \<Rightarrow> nat \<Rightarrow> nat \<Rightarrow> kv_record" where
  "record_new_with_ttl key value timestamp ttl_expiry =
     (record_new key value timestamp)\<lparr>r_ttl_expiry := ttl_expiry\<rparr>"

text \<open>\<open>FunKV::calculate_record_size\<close> of src/core/operations.rs and the record's use of it.\<close>

definition calculate_record_size :: "nat \<Rightarrow> nat \<Rightarrow> nat \<Rightarrow> nat" where
  "calculate_record_size rec_struct key_len value_len = rec_struct + key_len + value_len"

definition calculate_size :: "nat \<Rightarrow> kv_record \<Rightarrow> nat" where
  "calculate_size rec_struct r = calculate_record_size rec_struct (length (r_key r)) (r_value_len r)"

definition calculate_disk_size :: "kv_record \<Rightarrow> nat" where
  "calculate_disk_size r =
     (let record_size = SECTOR_HEADER_SIZE + 2 + r_key_len r + 8 + 8 + r_value_len r
      in div_ceil record_size BLOCK_SIZE * BLOCK_SIZE)"

definition get_value :: "kv_record \<Rightarrow> bytes option" where
  "get_value r = r_value r"

definition clear_value :: "kv_record \<Rightarrow> kv_record" where
  "clear_value r = r\<lparr>r_value := None\<rparr>"

text \<open>Reference counts are \<open>u32\<close> atomics: \<open>fetch_add\<close> and \<open>fetch_sub\<close> wrap.\<close>

definition inc_ref :: "kv_record \<Rightarrow> kv_record" where
  "inc_ref r = r\<lparr>r_refcount := (r_refcount r + 1) mod 2 ^ 32\<rparr>"

definition dec_ref :: "kv_record \<Rightarrow> kv_record \<times> nat res" where
  "dec_ref r =
     (let old = r_refcount r;
          r' = r\<lparr>r_refcount := (old + 2 ^ 32 - 1) mod 2 ^ 32\<rparr>
      in if old = 0 then (r', Panic) else (r', Ok (old - 1)))"

definition ref_count :: "kv_record \<Rightarrow> nat" where
  "ref_count r = r_refcount r"

text \<open>
  A record whose value is in memory or on disk: the stored length is the length of the value while
  it is cached, and the integer fields are in the range of their Rust types.
\<close>

definition record_wf :: "kv_record \<Rightarrow> bool" where
  "record_wf r \<longleftrightarrow>
     (\<forall>v. r_value r = Some v \<longrightarrow> length v = r_value_len r) \<and>
     r_key_len r = length (r_key r) mod 2 ^ 16 \<and>
     r_value_len r < U64_LIM \<and> r_timestamp r < U64_LIM \<and> r_ttl_expiry r < U64_LIM \<and>
     r_sector r < U64_LIM \<and> r_refcount r < 2 ^ 32"

lemma record_new_wf:
  "length v < U64_LIM \<Longrightarrow> ts < U64_LIM \<Longrightarrow> record_wf (record_new k v ts)"
  by (simp add: record_wf_def record_new_def U64_LIM_def)

lemma record_new_with_ttl_wf:
  "length v < U64_LIM \<Longrightarrow> ts < U64_LIM \<Longrightarrow> e < U64_LIM \<Longrightarrow> record_wf (record_new_with_ttl k v ts e)"
  by (simp add: record_wf_def record_new_def record_new_with_ttl_def U64_LIM_def)

lemma clear_value_wf: "record_wf r \<Longrightarrow> record_wf (clear_value r)"
  by (simp add: record_wf_def clear_value_def)

lemma record_new_simps [simp]:
  "r_key (record_new k v ts) = k" "r_value (record_new k v ts) = Some v"
  "r_ttl_expiry (record_new k v ts) = 0" "r_timestamp (record_new k v ts) = ts"
  "r_value_len (record_new k v ts) = length v" "r_sector (record_new k v ts) = 0"
  "r_refcount (record_new k v ts) = 1"
  by (simp_all add: record_new_def)

lemma record_new_with_ttl_simps [simp]:
  "r_key (record_new_with_ttl k v ts e) = k" "r_value (record_new_with_ttl k v ts e) = Some v"
  "r_ttl_expiry (record_new_with_ttl k v ts e) = e" "r_timestamp (record_new_with_ttl k v ts e) = ts"
  "r_value_len (record_new_with_ttl k v ts e) = length v" "r_sector (record_new_with_ttl k v ts e) = 0"
  "r_refcount (record_new_with_ttl k v ts e) = 1"
  by (simp_all add: record_new_with_ttl_def)

text \<open>Below the wrap-around a decrement undoes an increment; decrementing a dead record panics.\<close>

lemma dec_inc_ref: "r_refcount r < 2 ^ 32 - 1 \<Longrightarrow> dec_ref (inc_ref r) = (r, Ok (ref_count r))"
  "ref_count r = 0 \<Longrightarrow> snd (dec_ref r) = Panic"
  by (simp_all add: dec_ref_def inc_ref_def ref_count_def Let_def)

end
