(* ===== verification/Record_Format.thy ===== *)
theory Record_Format
  imports Records
begin

text \<open>
  The on-disk record format: src/storage/format.rs and the sector image that the write buffer
  builds from it (\<open>perpare_record_data\<close> in src/storage/write_buffer.rs). \<open>get_format\<close> returns the
  same format for every version, so the format is not a parameter.
\<close>

section \<open>Layout and serialisation\<close>

definition record_header_size :: "nat \<Rightarrow> nat" where
  "record_header_size key_len = SECTOR_HEADER_SIZE + 2 + key_len + 8 + 8 + 8"

definition total_size :: "nat \<Rightarrow> nat \<Rightarrow> nat" where
  "total_size key_len value_len = record_header_size key_len + value_len"

definition serialize_record :: "kv_record \<Rightarrow> bool \<Rightarrow> bytes" where
  "serialize_record r include_value =
     to_le_bytes 2 (length (r_key r) mod 2 ^ 16) @
     r_key r @
     to_le_bytes 8 (r_value_len r) @
     to_le_bytes 8 (r_timestamp r) @
     to_le_bytes 8 (r_ttl_expiry r) @
     (if include_value then (case r_value r of Some v \<Rightarrow> v | None \<Rightarrow> []) else [])"

definition parse_record :: "bytes \<Rightarrow> (bytes \<times> nat \<times> nat \<times> nat) option" where
  "parse_record data =
     (if length data < SECTOR_HEADER_SIZE + 2 then None
      else
        let offset = SECTOR_HEADER_SIZE + 2;
            key_len = from_le_bytes (byte_slice SECTOR_HEADER_SIZE offset data)
        in if length data < offset + key_len + 24 then None
           else
             let key = byte_slice offset (offset + key_len) data;
                 offset = offset + key_len;
                 value_len = from_le_bytes (byte_slice offset (offset + 8) data);
                 offset = offset + 8;
                 timestamp = from_le_bytes (byte_slice offset (offset + 8) data);
                 offset = offset + 8;
                 ttl = from_le_bytes (byte_slice offset (offset + 8) data)
             in Some (key, value_len, timestamp, ttl))"

text \<open>\<open>Vec::resize(n, 0)\<close>: pad with zeros, or truncate.\<close>

definition resize :: "nat \<Rightarrow> bytes \<Rightarrow> bytes" where
  "resize n xs = take n xs @ replicate (n - length xs) 0"

definition perpare_record_data :: "kv_record \<Rightarrow> bytes" where
  "perpare_record_data r =
     (let padded_size = div_ceil (total_size (length (r_key r)) (r_value_len r)) BLOCK_SIZE * BLOCK_SIZE
      in resize padded_size
           (to_le_bytes 2 SECTOR_MARKER @ to_le_bytes 2 0 @ serialize_record r True))"

section \<open>Lemmas\<close>

lemma length_resize: "length (resize n xs) = n"
  by (simp add: resize_def)

lemma resize_pad: "length xs \<le> n \<Longrightarrow> resize n xs = xs @ replicate (n - length xs) 0"
  by (simp add: resize_def)

lemma length_serialize:
  "length (serialize_record r True) =
     26 + length (r_key r) + (case r_value r of Some v \<Rightarrow> length v | None \<Rightarrow> 0)"
  by (simp add: serialize_record_def split: option.splits)

lemma length_perpare: "length (perpare_record_data r) =
    div_ceil (total_size (length (r_key r)) (r_value_len r)) BLOCK_SIZE * BLOCK_SIZE"
  by (simp add: perpare_record_data_def length_resize)

lemma total_size_le_padded:
  "total_size k v \<le> div_ceil (total_size k v) BLOCK_SIZE * BLOCK_SIZE"
  by (rule div_ceil_bounds) (simp add: kv_const)

text \<open>The image of a record that holds its value: header, fields, value, zero padding.\<close>

lemma perpare_layout:
  assumes "record_wf r" "r_value r = Some v"
  shows "perpare_record_data r =
    (to_le_bytes 2 SECTOR_MARKER @ to_le_bytes 2 0) @ to_le_bytes 2 (length (r_key r) mod 2 ^ 16) @
    r_key r @ to_le_bytes 8 (r_value_len r) @ to_le_bytes 8 (r_timestamp r) @
    to_le_bytes 8 (r_ttl_expiry r) @ v @
    replicate (div_ceil (total_size (length (r_key r)) (length v)) BLOCK_SIZE * BLOCK_SIZE -
               total_size (length (r_key r)) (length v)) 0"
proof -
  have len: "r_value_len r = length v" using assms by (simp add: record_wf_def)
  have "length (to_le_bytes 2 SECTOR_MARKER @ to_le_bytes 2 0 @ serialize_record r True) =
      total_size (length (r_key r)) (length v)"
    using assms(2) by (simp add: serialize_record_def total_size_def record_header_size_def kv_const)
  with total_size_le_padded[of "length (r_key r)" "length v"] assms(2) len show ?thesis
    by (simp add: perpare_record_data_def resize_pad serialize_record_def)
qed

text \<open>The value is found behind the header.\<close>

lemma image_value:
  assumes "record_wf r" "r_value r = Some v"
  shows "byte_slice (record_header_size (length (r_key r)))
          (record_header_size (length (r_key r)) + length v) (perpare_record_data r) = v"
  unfolding perpare_layout[OF assms] record_header_size_def
  by (simp add: byte_slice_append_right byte_slice_append_left byte_slice_full kv_const)

text \<open>Reading the five fields of an image whose key length field matches the key.\<close>

lemma parse_image:
  assumes "length pre = 4" "length k < 2 ^ 16" "vl < U64_LIM" "ts < U64_LIM" "ttl < U64_LIM"
  shows "parse_record (pre @ to_le_bytes 2 (length k) @ k @ to_le_bytes 8 vl @ to_le_bytes 8 ts @
            to_le_bytes 8 ttl @ rest) = Some (k, vl, ts, ttl)" (is "parse_record ?d = _")
proof -
  let ?n = "length k"
  have key_len: "from_le_bytes (byte_slice 4 6 ?d) = ?n"
    using assms(1,2) by (intro u16.read_field) simp_all
  have k: "byte_slice 6 (6 + ?n) ?d = k"
    using assms(1) by (simp add: byte_slice_append_right byte_slice_append_left byte_slice_full)
  have "from_le_bytes (byte_slice (6 + ?n) (14 + ?n) ((pre @ to_le_bytes 2 ?n @ k) @ to_le_bytes 8 vl @
          to_le_bytes 8 ts @ to_le_bytes 8 ttl @ rest)) = vl"
    using assms(1,3) by (intro u64.read_field) simp_all
  moreover have "from_le_bytes (byte_slice (14 + ?n) (22 + ?n) ((pre @ to_le_bytes 2 ?n @ k @ to_le_bytes 8 vl) @
          to_le_bytes 8 ts @ to_le_bytes 8 ttl @ rest)) = ts"
    using assms(1,4) by (intro u64.read_field) simp_all
  moreover have "from_le_bytes (byte_slice (22 + ?n) (30 + ?n) ((pre @ to_le_bytes 2 ?n @ k @ to_le_bytes 8 vl @
          to_le_bytes 8 ts) @ to_le_bytes 8 ttl @ rest)) = ttl"
    using assms(1,5) by (intro u64.read_field) simp_all
  ultimately show ?thesis
    using key_len k assms(1) by (simp add: parse_record_def kv_const Let_def)
qed

lemma parse_recordD:
  assumes "parse_record data = Some (k, vl, ts, ttl)"
  shows "length k = from_le_bytes (byte_slice SECTOR_HEADER_SIZE (SECTOR_HEADER_SIZE + 2) data)"
    "record_header_size (length k) \<le> length data" "length k < 2 ^ 16"
    "vl < U64_LIM" "ts < U64_LIM" "ttl < U64_LIM"
proof -
  define n where "n = from_le_bytes (byte_slice 4 6 data)"
  from assms have L: "30 + n \<le> length data"
    and eqs: "k = byte_slice 6 (6 + n) data" "vl = from_le_bytes (byte_slice (6 + n) (14 + n) data)"
      "ts = from_le_bytes (byte_slice (14 + n) (22 + n) data)"
      "ttl = from_le_bytes (byte_slice (22 + n) (30 + n) data)"
    by (auto simp: parse_record_def Let_def kv_const n_def split: if_splits)
  show len: "length k = from_le_bytes (byte_slice SECTOR_HEADER_SIZE (SECTOR_HEADER_SIZE + 2) data)"
    using eqs(1) L by (simp add: length_byte_slice kv_const n_def)
  show "record_header_size (length k) \<le> length data"
    using len L by (simp add: record_header_size_def kv_const n_def)
  show "length k < 2 ^ 16"
    using len u16.valid_dec[of "byte_slice 4 6 data"] L by (simp add: length_byte_slice kv_const)
  show "vl < U64_LIM" "ts < U64_LIM" "ttl < U64_LIM"
    unfolding eqs(2-4) using L by (auto intro!: u64.valid_dec simp: length_byte_slice)
qed

text \<open>The first block of an image whose header fits into it.\<close>

lemma first_block_layout:
  assumes "record_wf r" "r_value r = Some v" "length (r_key r) < 2 ^ 16"
    and "record_header_size (length (r_key r)) \<le> BLOCK_SIZE"
  obtains rest where "take BLOCK_SIZE (perpare_record_data r) =
    (to_le_bytes 2 SECTOR_MARKER @ to_le_bytes 2 0) @ to_le_bytes 2 (length (r_key r)) @ r_key r @
    to_le_bytes 8 (r_value_len r) @ to_le_bytes 8 (r_timestamp r) @ to_le_bytes 8 (r_ttl_expiry r) @ rest"
proof -
  let ?n = "length (r_key r)"
  have small: "?n mod 2 ^ 16 = ?n" using assms(3) by simp
  obtain rest where d: "perpare_record_data r = (to_le_bytes 2 SECTOR_MARKER @ to_le_bytes 2 0) @ to_le_bytes 2 ?n @
    r_key r @ to_le_bytes 8 (r_value_len r) @ to_le_bytes 8 (r_timestamp r) @ to_le_bytes 8 (r_ttl_expiry r) @ rest"
    using perpare_layout[OF assms(1,2)] small by metis
  show thesis
    by (rule that[of "take (BLOCK_SIZE - record_header_size ?n) rest"])
      (use assms(4) in \<open>simp add: d record_header_size_def kv_const\<close>)
qed

section \<open>Properties\<close>

text \<open>A small record for the witnesses.\<close>

definition demo_record :: kv_record where
  "demo_record = record_new_with_ttl [0x6B] [1, 2, 3] 7 9"

lemma demo_record_facts:
  "record_wf demo_record" "r_value demo_record = Some [1, 2, 3]" "r_key demo_record = [0x6B]"
  by (simp_all add: demo_record_def record_new_with_ttl_wf U64_LIM_def)

text \<open>
  C24. Round trip of the disk image. For a record whose key has fewer than 65536 bytes, parsing the
  sectors built by \<open>perpare_record_data\<close> gives back key, value length, timestamp and expiry, the
  value stands at the offset \<open>record_header_size\<close>, and the image is a whole number of blocks.
\<close>

theorem record_image_roundtrip:
  assumes "record_wf r" and "r_value r = Some v" and "length (r_key r) < 2 ^ 16"
  shows "parse_record (perpare_record_data r) =
           Some (r_key r, length v, r_timestamp r, r_ttl_expiry r) \<and>
    byte_slice (record_header_size (length (r_key r)))
          (record_header_size (length (r_key r)) + length v) (perpare_record_data r) = v \<and>
    length (perpare_record_data r) mod BLOCK_SIZE = 0"
proof -
  from assms(1,2) have len: "length v = r_value_len r" and
    lim: "r_value_len r < U64_LIM" "r_timestamp r < U64_LIM" "r_ttl_expiry r < U64_LIM"
    by (simp_all add: record_wf_def)
  have small: "length (r_key r) mod 2 ^ 16 = length (r_key r)" using assms(3) by simp
  have "parse_record (perpare_record_data r) = Some (r_key r, length v, r_timestamp r, r_ttl_expiry r)"
    unfolding perpare_layout[OF assms(1,2)] small len
    by (rule parse_image) (use assms(3) lim in simp_all)
  with image_value[OF assms(1,2)] show ?thesis by (simp add: length_perpare)
qed

theorem record_image_roundtrip_witness:
  "parse_record (perpare_record_data demo_record) = Some ([0x6B], 3, 7, 9) \<and>
   byte_slice 31 34 (perpare_record_data demo_record) = [1, 2, 3]"
  using record_image_roundtrip[OF demo_record_facts(1,2)] demo_record_facts(3)
  by (simp add: demo_record_def record_header_size_def kv_const)


text \<open>A record with the longest key that \<open>validate_key\<close> admits, all of zero bytes.\<close>

definition long_record :: kv_record where
  "long_record = record_new (replicate MAX_KEY_SIZE 0) [1] 7"

lemma long_record_parses: "parse_record (perpare_record_data long_record) \<noteq> None"
proof -
  have wf: "record_wf long_record" "r_value long_record = Some [1]"
    by (simp_all add: long_record_def record_new_wf U64_LIM_def)
  have key: "r_key long_record = replicate 36864 0 @ replicate 65536 0"
    by (simp add: long_record_def kv_const flip: replicate_add)
  have eq: "perpare_record_data long_record = (to_le_bytes 2 SECTOR_MARKER @ to_le_bytes 2 0) @
      to_le_bytes 2 36864 @ replicate 36864 0 @ replicate 65536 0 @ to_le_bytes 8 (r_value_len long_record) @
      to_le_bytes 8 (r_timestamp long_record) @ to_le_bytes 8 (r_ttl_expiry long_record) @ [1] @
      replicate (div_ceil (total_size 102400 1) BLOCK_SIZE * BLOCK_SIZE - total_size 102400 1) 0"
    (is "_ = ?pre @ ?kl @ ?rest")
    unfolding perpare_layout[OF wf] key by simp
  have "from_le_bytes (byte_slice 4 6 (perpare_record_data long_record)) = 36864"
    unfolding eq by (intro u16.read_field) simp_all
  moreover have "length (perpare_record_data long_record) = 106496"
    by (simp add: length_perpare long_record_def total_size_def record_header_size_def div_ceil_def kv_const)
  ultimately show ?thesis by (simp add: parse_record_def Let_def kv_const)
qed




end
