(* ===== verification/Chunk_Map.thy ===== *)
theory Chunk_Map
  imports KV_Constants
begin

text \<open>
  The abstract specification of the free-space manager: a finite view of the free chunks as a map
  from the start sector to the size, what it means for it to be well formed (inside the device,
  after the metadata blocks, no two chunks touching), and the effect of taking sectors from the
  front of a chunk and of giving a range back with coalescing.
\<close>

type_synonym chunk_map = "nat \<rightharpoonup> nat"

definition chunk_wf :: "nat \<Rightarrow> chunk_map \<Rightarrow> bool" where
  "chunk_wf lim c \<longleftrightarrow>
     (\<forall>s n. c s = Some n \<longrightarrow> 0 < n \<and> METADATA_BLOCK_SIZE \<le> s \<and> s + n \<le> lim) \<and>
     (\<forall>s n s' n'. c s = Some n \<longrightarrow> c s' = Some n' \<longrightarrow> s < s' \<longrightarrow> s + n < s')"

definition free_of :: "chunk_map \<Rightarrow> nat set" where
  "free_of c = {x. \<exists>s n. c s = Some n \<and> s \<le> x \<and> x < s + n}"

definition chunk_take :: "chunk_map \<Rightarrow> nat \<Rightarrow> nat \<Rightarrow> chunk_map" where
  "chunk_take c s n =
     (case c s of
        None \<Rightarrow> c
      | Some m \<Rightarrow> if n < m then (c(s := None))(s + n \<mapsto> m - n) else c(s := None))"

text \<open>\<open>prev\<close> is the start of the chunk that ends at \<open>s\<close>, if there is one.\<close>

definition is_prev :: "chunk_map \<Rightarrow> nat \<Rightarrow> nat option \<Rightarrow> bool" where
  "is_prev c s prev \<longleftrightarrow>
     (case prev of
        None \<Rightarrow> (\<forall>p k. c p = Some k \<longrightarrow> p + k \<noteq> s)
      | Some p \<Rightarrow> (\<exists>k. c p = Some k \<and> p + k = s))"

definition size_at :: "chunk_map \<Rightarrow> nat \<Rightarrow> nat" where
  "size_at c s = (case c s of None \<Rightarrow> 0 | Some k \<Rightarrow> k)"

definition chunk_give :: "chunk_map \<Rightarrow> nat option \<Rightarrow> nat \<Rightarrow> nat \<Rightarrow> chunk_map" where
  "chunk_give c prev s n =
     (case prev of
        None \<Rightarrow> (c(s + n := None))(s \<mapsto> n + size_at c (s + n))
      | Some p \<Rightarrow> (c(s + n := None))(p \<mapsto> n + size_at c p + size_at c (s + n)))"

lemma chunk_wfD:
  assumes "chunk_wf lim c"
  shows "c s = Some n \<Longrightarrow> 0 < n" "c s = Some n \<Longrightarrow> METADATA_BLOCK_SIZE \<le> s"
    "c s = Some n \<Longrightarrow> s + n \<le> lim"
    "c s = Some n \<Longrightarrow> c s' = Some n' \<Longrightarrow> s < s' \<Longrightarrow> s + n < s'"
  using assms unfolding chunk_wf_def by blast+

lemma chunk_wfI:
  assumes "\<And>s n. c s = Some n \<Longrightarrow> 0 < n \<and> METADATA_BLOCK_SIZE \<le> s \<and> s + n \<le> lim"
    and "\<And>s n s' n'. c s = Some n \<Longrightarrow> c s' = Some n' \<Longrightarrow> s < s' \<Longrightarrow> s + n < s'"
  shows "chunk_wf lim c"
  using assms unfolding chunk_wf_def by blast

lemma chunk_unique:
  assumes "chunk_wf lim c" "c s = Some n" "c s' = Some n'"
    and "s \<le> x" "x \<le> s + n" "s' \<le> x" "x \<le> s' + n'"
  shows "s = s'"
  using chunk_wfD(4)[OF assms(1,2,3)] chunk_wfD(4)[OF assms(1,3,2)] assms(4-7)
  by (cases s s' rule: linorder_cases) auto

lemma free_ofI: "c s = Some n \<Longrightarrow> s \<le> x \<Longrightarrow> x < s + n \<Longrightarrow> x \<in> free_of c"
  unfolding free_of_def by blast

lemma free_of_range: "chunk_wf lim c \<Longrightarrow> free_of c \<subseteq> {METADATA_BLOCK_SIZE..<lim}"
  using chunk_wfD(2,3) by (fastforce simp: free_of_def)

lemma chunk_wf_empty [simp]: "chunk_wf lim Map.empty"
  by (simp add: chunk_wf_def)

lemma free_of_empty [simp]: "free_of Map.empty = {}"
  by (simp add: free_of_def)

section \<open>Taking sectors\<close>

lemma chunk_take_wf:
  assumes wf: "chunk_wf lim c" and s: "c s = Some m" and n: "0 < n" "n \<le> m"
  shows "chunk_wf lim (chunk_take c s n)"
proof (rule chunk_wfI)
  note wfD = chunk_wfD[OF wf]
  fix t k assume "chunk_take c s n t = Some k"
  then have "c t = Some k \<and> t \<noteq> s \<or> t = s + n \<and> k = m - n \<and> n < m"
    using s by (auto simp: chunk_take_def split: if_splits)
  then show "0 < k \<and> METADATA_BLOCK_SIZE \<le> t \<and> t + k \<le> lim"
    using wfD(1,2,3)[of t k] wfD(2,3)[OF s] by auto
next
  note wfD = chunk_wfD[OF wf]
  have cases: "c t = Some k \<and> t \<noteq> s \<or> t = s + n \<and> k = m - n \<and> n < m"
    if "chunk_take c s n t = Some k" for t k
    using s that by (auto simp: chunk_take_def split: if_splits)
  fix t k t' k'
  assume t: "chunk_take c s n t = Some k" and t': "chunk_take c s n t' = Some k'" and less: "t < t'"
  show "t + k < t'"
    using cases[OF t] cases[OF t'] less wfD(4)[of t k t' k'] wfD(4)[of t k s m]
      wfD(4)[of s m t' k'] wfD(4)[of s m t k] wfD(1)[of t k] s n by (cases t s rule: linorder_cases) auto
qed

lemma chunk_take_sub: "c s = Some m \<Longrightarrow> n \<le> m \<Longrightarrow> {s..<s + n} \<subseteq> free_of c"
  by (auto intro: free_ofI)

lemma free_of_take:
  assumes wf: "chunk_wf lim c" and s: "c s = Some m" and n: "0 < n" "n \<le> m"
  shows "free_of (chunk_take c s n) = free_of c - {s..<s + n}"
proof (intro equalityI subsetI)
  fix x assume "x \<in> free_of (chunk_take c s n)"
  then obtain t k where t: "chunk_take c s n t = Some k" and x: "t \<le> x" "x < t + k"
    by (auto simp: free_of_def)
  from t s have "c t = Some k \<and> t \<noteq> s \<or> t = s + n \<and> k = m - n \<and> n < m"
    by (auto simp: chunk_take_def split: if_splits)
  then show "x \<in> free_of c - {s..<s + n}"
  proof
    assume tk: "c t = Some k \<and> t \<noteq> s"
    then have "x \<notin> {s..<s + m}" using chunk_unique[OF wf _ s, of t k x] x by auto
    with tk x n show ?thesis by (auto intro: free_ofI)
  next
    assume "t = s + n \<and> k = m - n \<and> n < m"
    with x s show ?thesis by (auto intro: free_ofI)
  qed
next
  fix x assume x: "x \<in> free_of c - {s..<s + n}"
  then obtain t k where t: "c t = Some k" "t \<le> x" "x < t + k" by (auto simp: free_of_def)
  show "x \<in> free_of (chunk_take c s n)"
  proof (cases "t = s")
    case True
    with t s x have "n < m" "s + n \<le> x" "x < s + n + (m - n)" by auto
    then show ?thesis using s by (intro free_ofI[of _ "s + n" "m - n"]) (auto simp: chunk_take_def)
  next
    case False
    have "t \<noteq> s + n" if "n < m"
      using chunk_unique[OF wf t(1) s, of t] that False t(1) by auto
    with False t s show ?thesis
      by (intro free_ofI[of _ t k]) (auto simp: chunk_take_def split: if_splits)
  qed
qed

section \<open>Giving sectors back\<close>

text \<open>The chunks after a release: untouched ones, and the merged one.\<close>

definition give_start :: "nat option \<Rightarrow> nat \<Rightarrow> nat" where
  "give_start prev s = (case prev of None \<Rightarrow> s | Some p \<Rightarrow> p)"

lemma chunk_give_cases:
  assumes "chunk_give c prev s n t = Some k" and "is_prev c s prev"
  shows "(c t = Some k \<and> t \<noteq> s + n \<and> t \<noteq> give_start prev s) \<or>
         (t = give_start prev s \<and> t + k = s + n + size_at c (s + n))"
  using assms by (auto simp: chunk_give_def give_start_def is_prev_def size_at_def split: option.splits if_splits)

lemma disjoint_chunk:
  assumes wf: "chunk_wf lim c" and t: "c t = Some k" and n: "0 < n"
    and disj: "{s..<s + n} \<inter> free_of c = {}"
  shows "t + k \<le> s \<or> s + n \<le> t"
proof (rule ccontr)
  assume "\<not> ?thesis"
  then have "max s t \<in> {s..<s + n}" "max s t \<in> free_of c"
    using n t chunk_wfD(1)[OF wf t] by (auto intro!: free_ofI[where s = t and n = k])
  with disj show False by blast
qed

lemma size_at_bound:
  assumes "chunk_wf lim c" and "s + n \<le> lim"
  shows "s + n + size_at c (s + n) \<le> lim"
  using chunk_wfD(3)[OF assms(1), of "s + n"] assms(2)
  by (auto simp: size_at_def split: option.splits)

lemma give_start_bounds:
  assumes "chunk_wf lim c" "is_prev c s prev" "METADATA_BLOCK_SIZE \<le> s"
  shows "give_start prev s \<le> s" "METADATA_BLOCK_SIZE \<le> give_start prev s"
  using assms chunk_wfD(2)[OF assms(1)]
  by (auto simp: give_start_def is_prev_def split: option.splits)

lemma other_chunk_apart:
  assumes wf: "chunk_wf lim c" and prev: "is_prev c s prev"
    and t: "c t = Some k" "t \<noteq> s + n" "t \<noteq> give_start prev s"
    and n: "0 < n" and disj: "{s..<s + n} \<inter> free_of c = {}"
  shows "t + k < give_start prev s \<or> s + n + size_at c (s + n) < t"
proof -
  from disjoint_chunk[OF wf t(1) n disj] show ?thesis
  proof
    assume le: "t + k \<le> s"
    show ?thesis
    proof (cases prev)
      case None
      with prev t have "t + k \<noteq> s" by (auto simp: is_prev_def)
      with le None show ?thesis by (simp add: give_start_def)
    next
      case (Some p)
      with prev obtain j where p: "c p = Some j" "p + j = s" by (auto simp: is_prev_def)
      have "t \<noteq> p" using t Some by (simp add: give_start_def)
      then have "t < p"
        using chunk_wfD(4)[OF wf p(1) t(1)] le p(2) by (cases t p rule: linorder_cases) auto
      then show ?thesis
        using chunk_wfD(4)[OF wf t(1) p(1)] Some by (simp add: give_start_def)
    qed
  next
    assume "s + n \<le> t"
    with t(2) have less: "s + n < t" by simp
    then show ?thesis
      using chunk_wfD(4)[OF wf _ t(1), of "s + n"] by (auto simp: size_at_def split: option.splits)
  qed
qed

lemma chunk_give_wf:
  assumes wf: "chunk_wf lim c" and prev: "is_prev c s prev"
    and s: "METADATA_BLOCK_SIZE \<le> s" "s + n \<le> lim" and n: "0 < n"
    and disj: "{s..<s + n} \<inter> free_of c = {}"
  shows "chunk_wf lim (chunk_give c prev s n)"
proof (rule chunk_wfI)
  note gs = give_start_bounds[OF wf prev s(1)]
  fix t k assume "chunk_give c prev s n t = Some k"
  from chunk_give_cases[OF this prev] show "0 < k \<and> METADATA_BLOCK_SIZE \<le> t \<and> t + k \<le> lim"
    using chunk_wfD(1,2,3)[OF wf, of t k] gs size_at_bound[OF wf s(2)] n by auto
next
  note gs = give_start_bounds[OF wf prev s(1)]
  fix t k t' k'
  assume t: "chunk_give c prev s n t = Some k" and t': "chunk_give c prev s n t' = Some k'"
    and less: "t < t'"
  have apart: "t + k < give_start prev s \<or> s + n + size_at c (s + n) < t"
    if "c t = Some k" "t \<noteq> s + n" "t \<noteq> give_start prev s" for t k
    using other_chunk_apart[OF wf prev that n disj] .
  show "t + k < t'"
    using chunk_give_cases[OF t prev] chunk_give_cases[OF t' prev]
    by (elim disjE conjE)
      (use less gs chunk_wfD(4)[OF wf, of t k t' k'] apart[of t k] apart[of t' k'] in auto)
qed

lemma chunk_give_keeps:
  "c t = Some k \<Longrightarrow> t \<noteq> s + n \<Longrightarrow> t \<noteq> give_start prev s \<Longrightarrow> chunk_give c prev s n t = Some k"
  by (auto simp: chunk_give_def give_start_def split: option.splits)

lemma chunk_give_merged:
  assumes "is_prev c s prev"
  shows "chunk_give c prev s n (give_start prev s) =
           Some (s + n + size_at c (s + n) - give_start prev s)"
  using assms by (auto simp: chunk_give_def give_start_def is_prev_def size_at_def split: option.splits)

lemma free_of_give:
  assumes wf: "chunk_wf lim c" and prev: "is_prev c s prev" and s: "METADATA_BLOCK_SIZE \<le> s"
    and n: "0 < n" and disj: "{s..<s + n} \<inter> free_of c = {}"
  shows "free_of (chunk_give c prev s n) = free_of c \<union> {s..<s + n}"
proof (intro equalityI subsetI)
  fix x assume "x \<in> free_of (chunk_give c prev s n)"
  then obtain t k where t: "chunk_give c prev s n t = Some k" and x: "t \<le> x" "x < t + k"
    by (auto simp: free_of_def)
  from chunk_give_cases[OF t prev] show "x \<in> free_of c \<union> {s..<s + n}"
  proof (elim disjE conjE)
    assume "c t = Some k"
    with x show ?thesis by (auto intro: free_ofI)
  next
    assume eq: "t = give_start prev s" "t + k = s + n + size_at c (s + n)"
    consider "x < s" | "x \<in> {s..<s + n}" | "s + n \<le> x" by fastforce
    then show ?thesis
    proof cases
      case 1
      with eq x prev show ?thesis
        by (auto simp: give_start_def is_prev_def split: option.splits intro: free_ofI)
    next
      case 3
      with eq x show ?thesis
        by (auto simp: size_at_def split: option.splits intro: free_ofI)
    qed auto
  qed
next
  note gs = give_start_bounds[OF wf prev s]
  have inner: "x \<in> free_of (chunk_give c prev s n)"
    if "give_start prev s \<le> x" "x < s + n + size_at c (s + n)" for x
    using that chunk_give_merged[OF prev, of n]
    by (auto intro: free_ofI[where s = "give_start prev s"])
  fix x assume "x \<in> free_of c \<union> {s..<s + n}"
  then show "x \<in> free_of (chunk_give c prev s n)"
  proof
    assume "x \<in> {s..<s + n}"
    with gs show ?thesis by (intro inner) auto
  next
    assume "x \<in> free_of c"
    then obtain t k where t: "c t = Some k" "t \<le> x" "x < t + k" by (auto simp: free_of_def)
    consider "t = s + n" | "t = give_start prev s" | "t \<noteq> s + n" "t \<noteq> give_start prev s" by blast
    then show ?thesis
    proof cases
      case 1
      with t gs show ?thesis by (intro inner) (auto simp: size_at_def)
    next
      case 2
      have "x < s + n"
        using disjoint_chunk[OF wf t(1) n disj] 2 gs t n by auto
      with t 2 show ?thesis by (intro inner) auto
    next
      case 3
      with t show ?thesis by (intro free_ofI[of _ t k]) (auto intro: chunk_give_keeps)
    qed
  qed
qed

text \<open>Taking sectors and giving the same range back restores the chunks.\<close>

lemma take_no_prev:
  assumes wf: "chunk_wf lim c" and s: "c s = Some m" and n: "0 < n" "n \<le> m"
  shows "is_prev (chunk_take c s n) s None"
proof -
  have "t + k \<noteq> s" if t: "chunk_take c s n t = Some k" for t k
  proof -
    from t s have "c t = Some k \<and> t \<noteq> s \<or> t = s + n \<and> k = m - n"
      by (auto simp: chunk_take_def split: if_splits)
    then show ?thesis
      using chunk_unique[OF wf _ s, of t k s] n by auto
  qed
  then show ?thesis by (simp add: is_prev_def)
qed

lemma give_take:
  assumes wf: "chunk_wf lim c" and s: "c s = Some m" and n: "0 < n" "n \<le> m"
  shows "chunk_give (chunk_take c s n) None s n = c"
proof -
  have inside: "c (s + n) = None" if "n < m"
    using chunk_unique[OF wf s, of "s + n" _ "s + n"] that n by (cases "c (s + n)") auto
  have "c (s + m) = None"
    using chunk_wfD(4)[OF wf s, of "s + m"] chunk_wfD(1)[OF wf s] by (cases "c (s + m)") auto
  with inside s n show ?thesis
    by (auto simp: chunk_give_def chunk_take_def size_at_def fun_eq_iff split: option.splits)
qed

end
