(* ===== verification/Ordered_Map.thy ===== *)
theory Ordered_Map
  imports KV_Prelude
begin

text \<open>
  Ordered maps: the standard library's \<open>BTreeMap\<close> (free-space manager) and the skip-list index of
  the store are both maps that iterate in key order. Their state is the list of their entries,
  strictly sorted by key. The locale \<open>ordered_map\<close> states what the clients rely on; the list
  operations below are shown to provide it.
\<close>

section \<open>The interface\<close>

locale ordered_map =
  fixes empty :: "'m"
    and insert :: "'k::linorder \<Rightarrow> 'v \<Rightarrow> 'm \<Rightarrow> 'm"
    and remove :: "'k \<Rightarrow> 'm \<Rightarrow> 'm"
    and get :: "'m \<Rightarrow> 'k \<Rightarrow> 'v option"
    and entries :: "'m \<Rightarrow> ('k \<times> 'v) list"
    and inv :: "'m \<Rightarrow> bool"
  assumes get_empty: "get empty k = None"
    and inv_empty: "inv empty"
    and get_insert: "inv m \<Longrightarrow> get (insert k v m) = (get m)(k \<mapsto> v)"
    and inv_insert: "inv m \<Longrightarrow> inv (insert k v m)"
    and get_remove: "inv m \<Longrightarrow> get (remove k m) = (get m)(k := None)"
    and inv_remove: "inv m \<Longrightarrow> inv (remove k m)"
    and entries_sorted: "inv m \<Longrightarrow> sorted_wrt (<) (map fst (entries m))"
    and get_entries: "inv m \<Longrightarrow> get m k = map_of (entries m) k"
begin

lemma distinct_keys: "inv m \<Longrightarrow> distinct (map fst (entries m))"
  using entries_sorted by (auto simp: strict_sorted_iff)

lemma entry_iff: "inv m \<Longrightarrow> (k, v) \<in> set (entries m) \<longleftrightarrow> get m k = Some v"
  by (simp add: get_entries distinct_keys)

text \<open>An ordered map is determined by its lookups: equal lookups give the same iteration.\<close>

lemma entries_ext:
  assumes "inv m" "inv m'" "get m = get m'"
  shows "entries m = entries m'"
proof (rule map_sorted_distinct_set_unique [where f = fst])
  show "inj_on fst (set (entries m) \<union> set (entries m'))"
    using assms by (auto simp: inj_on_def entry_iff)
  show "sorted (map fst (entries m))" "sorted (map fst (entries m'))"
       "distinct (map fst (entries m))" "distinct (map fst (entries m'))"
    using assms(1,2)[THEN entries_sorted] by (auto simp: strict_sorted_iff)
  show "set (entries m) = set (entries m')"
    using assms by (auto simp: entry_iff)
qed

lemma remove_insert_entries:
  "inv m \<Longrightarrow> get m k = None \<Longrightarrow> entries (remove k (insert k v m)) = entries m"
  by (rule entries_ext) (auto simp: get_insert get_remove inv_insert inv_remove)

lemma insert_remove_entries:
  "inv m \<Longrightarrow> get m k = Some v \<Longrightarrow> entries (insert k v (remove k m)) = entries m"
  by (rule entries_ext) (auto simp: get_insert get_remove inv_insert inv_remove)

text \<open>The first entry whose key satisfies a condition has the least such key.\<close>

lemma find_least:
  assumes "inv m" and "find (\<lambda>(k, v). P k) (entries m) = Some (k, v)"
  shows "get m k = Some v" "P k" "\<And>k' v'. get m k' = Some v' \<Longrightarrow> P k' \<Longrightarrow> k \<le> k'"
proof -
  from assms(2) obtain ys zs where split: "entries m = ys @ (k, v) # zs" "P k"
    and no: "\<forall>y\<in>set ys. \<not> P (fst y)"
    by (elim find_Some_split) (auto simp: case_prod_beta)
  show "P k" by fact
  have "(k, v) \<in> set (entries m)" using split by simp
  then show "get m k = Some v" using assms(1) by (simp add: entry_iff)
  fix k' v' assume "get m k' = Some v'" "P k'"
  then have "(k', v') \<in> set (entries m)" using assms(1) by (simp add: entry_iff)
  with split no \<open>P k'\<close> have "(k', v') \<in> set ((k, v) # zs)" by auto
  moreover have "sorted_wrt (<) (map fst (ys @ (k, v) # zs))"
    using entries_sorted[OF assms(1)] split by simp
  ultimately show "k \<le> k'" by (auto simp: sorted_wrt_append)
qed

lemma find_none:
  assumes "inv m" and "find (\<lambda>(k, v). P k) (entries m) = None" and "get m k = Some v"
  shows "\<not> P k"
proof -
  have "(k, v) \<in> set (entries m)" using assms by (simp add: entry_iff)
  with find_NoneD[OF assms(2)] show ?thesis by auto
qed

text \<open>The last entry has the greatest key.\<close>

lemma last_greatest:
  assumes "inv m" and "entries m \<noteq> []" and "last (entries m) = (k, v)"
  shows "get m k = Some v" "\<And>k' v'. get m k' = Some v' \<Longrightarrow> k' \<le> k"
proof -
  have eq: "entries m = butlast (entries m) @ [(k, v)]"
    using assms by (metis append_butlast_last_id)
  then have "(k, v) \<in> set (entries m)" by (metis in_set_conv_decomp)
  then show "get m k = Some v" using assms(1) by (simp add: entry_iff)
  fix k' v' assume "get m k' = Some v'"
  then have "(k', v') \<in> set (butlast (entries m) @ [(k, v)])"
    using assms(1) eq by (metis entry_iff)
  moreover have "sorted_wrt (<) (map fst (butlast (entries m) @ [(k, v)]))"
    using entries_sorted[OF assms(1)] eq by metis
  ultimately show "k' \<le> k" by (auto simp: sorted_wrt_append)
qed

end

section \<open>Sorted entry lists\<close>

type_synonym ('k, 'v) omap = "('k \<times> 'v) list"

definition om_inv :: "('k::linorder, 'v) omap \<Rightarrow> bool" where
  "om_inv m \<longleftrightarrow> sorted_wrt (<) (map fst m)"

abbreviation om_get :: "('k, 'v) omap \<Rightarrow> 'k \<Rightarrow> 'v option" where
  "om_get \<equiv> map_of"

fun om_insert :: "'k::linorder \<Rightarrow> 'v \<Rightarrow> ('k, 'v) omap \<Rightarrow> ('k, 'v) omap" where
  "om_insert k v [] = [(k, v)]"
| "om_insert k v ((k', v') # m) =
     (if k < k' then (k, v) # (k', v') # m
      else if k = k' then (k, v) # m
      else (k', v') # om_insert k v m)"

definition om_remove :: "'k \<Rightarrow> ('k, 'v) omap \<Rightarrow> ('k, 'v) omap" where
  "om_remove k m = filter (\<lambda>e. fst e \<noteq> k) m"

text \<open>\<open>range(..k).rev().next()\<close>: the entry with the greatest key below \<open>k\<close>.\<close>

definition om_below :: "'k::linorder \<Rightarrow> ('k, 'v) omap \<Rightarrow> ('k \<times> 'v) option" where
  "om_below k m = (case rev (filter (\<lambda>e. fst e < k) m) of [] \<Rightarrow> None | e # _ \<Rightarrow> Some e)"

text \<open>\<open>range(lo..=hi)\<close>.\<close>

definition om_range :: "'k::linorder \<Rightarrow> 'k \<Rightarrow> ('k, 'v) omap \<Rightarrow> ('k, 'v) omap" where
  "om_range lo hi m = filter (\<lambda>e. lo \<le> fst e \<and> fst e \<le> hi) m"

text \<open>\<open>iter().next_back()\<close>.\<close>

definition om_last :: "('k, 'v) omap \<Rightarrow> ('k \<times> 'v) option" where
  "om_last m = (if m = [] then None else Some (last m))"

lemma set_om_insert_keys: "fst ` set (om_insert k v m) = insert k (fst ` set m)"
proof (induction m)
  case (Cons e m)
  then show ?case by (cases e) (simp add: insert_commute)
qed simp

lemma om_inv_insert: "om_inv m \<Longrightarrow> om_inv (om_insert k v m)"
proof (induction m)
  case Nil
  then show ?case by (simp add: om_inv_def)
next
  case (Cons e m)
  obtain k' v' where e: "e = (k', v')" by (cases e)
  have "\<forall>x\<in>fst ` set (om_insert k v m). k' < x" if "k' < k"
    using Cons.prems that by (auto simp: set_om_insert_keys om_inv_def e)
  with Cons show ?case by (auto simp: om_inv_def e)
qed

lemma om_get_insert: "om_get (om_insert k v m) = (om_get m)(k \<mapsto> v)"
  by (induction m) auto

lemma om_inv_remove: "om_inv m \<Longrightarrow> om_inv (om_remove k m)"
  by (auto simp: om_inv_def om_remove_def sorted_wrt_map intro: sorted_wrt_filter)

lemma om_get_remove: "om_get (om_remove k m) = (om_get m)(k := None)"
  by (induction m) (auto simp: om_remove_def)

interpretation om: ordered_map "[]" om_insert om_remove om_get "\<lambda>m. m" om_inv
proof unfold_locales
  show "om_inv ([] :: ('a, 'b) omap)" by (simp add: om_inv_def)
  show "om_inv m \<Longrightarrow> sorted_wrt (<) (map fst m)" for m :: "('a, 'b) omap"
    by (simp add: om_inv_def)
qed (simp_all add: om_get_insert om_inv_insert om_get_remove om_inv_remove)

lemmas om_get_simps [simp] = om_get_insert om_get_remove

lemmas om_inv_intros [simp, intro] = om_inv_insert om_inv_remove om.inv_empty

lemma om_ext: "om_inv m \<Longrightarrow> om_inv m' \<Longrightarrow> om_get m = om_get m' \<Longrightarrow> m = m'"
  by (rule om.entries_ext)

text \<open>The neighbour below a key, and the absence of one.\<close>

lemma om_below_Some:
  assumes "om_inv m" "om_below k m = Some (k', v)"
  shows "om_get m k' = Some v" "k' < k" "\<And>j w. om_get m j = Some w \<Longrightarrow> j < k \<Longrightarrow> j \<le> k'"
proof -
  let ?l = "filter (\<lambda>e. fst e < k) m"
  from assms(2) have ne: "?l \<noteq> []" and lst: "last ?l = (k', v)"
    by (auto simp: om_below_def last_rev [symmetric] split: list.splits)
  have inv: "om_inv ?l"
    using assms(1) by (auto simp: om_inv_def sorted_wrt_map intro: sorted_wrt_filter)
  have get: "om_get ?l j = Some w \<longleftrightarrow> om_get m j = Some w \<and> j < k" for j w
    using om.entry_iff[OF inv, of j w] om.entry_iff[OF assms(1), of j w] by auto
  from om.last_greatest[OF inv ne lst] get
  show "om_get m k' = Some v" "k' < k" "\<And>j w. om_get m j = Some w \<Longrightarrow> j < k \<Longrightarrow> j \<le> k'"
    by auto
qed

lemma om_below_None:
  assumes "om_below k m = None" "om_get m j = Some w"
  shows "k \<le> j"
proof -
  from assms(1) have "filter (\<lambda>e. fst e < k) m = []"
    by (auto simp: om_below_def split: list.splits)
  moreover have "(j, w) \<in> set m" using assms(2) by (rule map_of_SomeD)
  ultimately show ?thesis by (auto simp: filter_empty_conv)
qed

text \<open>Summing a measure of the values.\<close>

definition om_sum :: "('v \<Rightarrow> nat) \<Rightarrow> ('k, 'v) omap \<Rightarrow> nat" where
  "om_sum f m = sum_list (map (f \<circ> snd) m)"

lemma om_sum_Nil [simp]: "om_sum f [] = 0"
  by (simp add: om_sum_def)

lemma om_sum_insert_new:
  "om_get m k = None \<Longrightarrow> om_sum f (om_insert k v m) = om_sum f m + f v"
  by (induction m) (auto simp: om_sum_def split: if_splits)

lemma om_remove_absent: "om_get m k = None \<Longrightarrow> om_remove k m = m"
  by (induction m) (auto simp: om_remove_def split: if_splits)

lemma om_sum_remove:
  "om_inv m \<Longrightarrow> om_get m k = Some v \<Longrightarrow> om_sum f m = om_sum f (om_remove k m) + f v"
  using om_sum_insert_new[of "om_remove k m" k f v] om.insert_remove_entries[of m k v] by simp

lemma om_sum_ge: "om_inv m \<Longrightarrow> om_get m k = Some v \<Longrightarrow> f v \<le> om_sum f m"
  using om_sum_remove by fastforce

lemma om_len_insert_new: "om_get m k = None \<Longrightarrow> length (om_insert k v m) = Suc (length m)"
  by (induction m) (auto split: if_splits)

lemma om_insert_replace: "om_inv m \<Longrightarrow> om_insert k v m = om_insert k v (om_remove k m)"
  by (rule om_ext) auto

lemma om_sum_insert_old:
  "om_inv m \<Longrightarrow> om_get m k = Some v' \<Longrightarrow> om_sum f (om_insert k v m) + f v' = om_sum f m + f v"
  using om_insert_replace[of m k v] om_sum_insert_new[of "om_remove k m" k f v] om_sum_remove[of m k v' f] by simp

lemma om_len_sum: "length m = om_sum (\<lambda>_. 1) m"
  by (induction m) (simp_all add: om_sum_def)

lemma om_len_insert_old: "om_inv m \<Longrightarrow> om_get m k = Some v' \<Longrightarrow> length (om_insert k v m) = length m"
  using om_sum_insert_old[of m k v' "\<lambda>_. 1" v] by (simp add: om_len_sum)

lemma om_len_remove: "om_inv m \<Longrightarrow> om_get m k = Some v \<Longrightarrow> length m = Suc (length (om_remove k m))"
  using om_sum_remove[of m k v "\<lambda>_. 1"] by (simp add: om_len_sum)

lemma om_sum_cong: "(\<And>k v. om_get m k = Some v \<Longrightarrow> f v = g v) \<Longrightarrow> om_inv m \<Longrightarrow> om_sum f m = om_sum g m"
  unfolding om_sum_def by (rule arg_cong[where f = sum_list], rule map_cong) (auto simp: om.entry_iff [symmetric])

end
