(* ===== verification/Free_Space.thy ===== *)
theory Free_Space
  imports Chunk_Map Ordered_Map
begin

text \<open>
  The free-space manager of src/storage/free_space_manager.rs: free chunks of the device, indexed
  by start sector and by (size, start), with best-fit allocation, release with coalescing, and the
  byte counters. Every method is a function on the manager's record that returns the new record and
  the outcome; overflow of the \<open>u64\<close> arithmetic is the outcome \<open>Panic\<close>.
\<close>

section \<open>State and operations\<close>

record sector_stat =
  sect_start :: nat
  sect_size :: nat

record free_space_manager =
  by_size :: "(nat \<times> nat, sector_stat) omap"
  by_start :: "(nat, sector_stat) omap"
  total_free :: nat
  persistence_size :: nat
  fragmentation_percent :: nat

definition fsm_new :: free_space_manager where
  "fsm_new = \<lparr>by_size = [], by_start = [], total_free = 0, persistence_size = 0,
              fragmentation_percent = 0\<rparr>"

definition set_persistence_size :: "free_space_manager \<Rightarrow> nat \<Rightarrow> free_space_manager" where
  "set_persistence_size f psize = f\<lparr>persistence_size := psize\<rparr>"

definition is_valid_sector_range :: "free_space_manager \<Rightarrow> nat \<Rightarrow> nat \<Rightarrow> bool res" where
  "is_valid_sector_range f start count =
     (if 0 < persistence_size f then
        let persistence_sectors = persistence_size f div BLOCK_SIZE in
        if persistence_sectors \<le> start then Ok False
        else bind_outcome (or_panic (checked_add start count))
               (\<lambda>e. Ok (\<not> persistence_sectors < e))
      else Ok True)"

definition is_valid_free_space :: "free_space_manager \<Rightarrow> sector_stat \<Rightarrow> bool res" where
  "is_valid_free_space f stat =
     (if sect_start stat < METADATA_BLOCK_SIZE then Ok False
      else is_valid_sector_range f (sect_start stat) (sect_size stat))"

definition insert_free_space :: "free_space_manager \<Rightarrow> sector_stat \<Rightarrow> free_space_manager \<times> unit res" where
  "insert_free_space f space =
     (if sect_size space = 0 then (f, Err InvalidArgument)
      else try_bind (f, is_valid_free_space f space) (\<lambda>valid f.
        if \<not> valid then (f, Err InvalidArgument)
        else if om_get (by_start f) (sect_start space) \<noteq> None then (f, Err DuplicateKey)
        else try_bind (f, or_panic (checked_mul (sect_size space) BLOCK_SIZE)) (\<lambda>b f.
             try_bind (f, or_panic (checked_add (total_free f) b)) (\<lambda>t f.
               (f\<lparr>total_free := t,
                  by_size := om_insert (sect_size space, sect_start space) space (by_size f),
                  by_start := om_insert (sect_start space) space (by_start f)\<rparr>, Ok ())))))"

definition initialize :: "free_space_manager \<Rightarrow> nat \<Rightarrow> free_space_manager \<times> unit res" where
  "initialize f psize =
     (let f = f\<lparr>persistence_size := psize\<rparr>;
          total_sectors = psize div BLOCK_SIZE
      in if total_sectors \<le> METADATA_BLOCK_SIZE then (f, Err InvalidDevice)
         else try_bind
                (insert_free_space f
                   \<lparr>sect_start = METADATA_BLOCK_SIZE, sect_size = total_sectors - METADATA_BLOCK_SIZE\<rparr>)
                (\<lambda>_ f. (f, Ok ())))"

definition get_largest_free_chunk :: "free_space_manager \<Rightarrow> nat res" where
  "get_largest_free_chunk f =
     (case om_last (by_size f) of
        None \<Rightarrow> Ok 0
      | Some (_, stat) \<Rightarrow> or_panic (checked_mul (sect_size stat) BLOCK_SIZE))"

definition update_fragmentation :: "free_space_manager \<Rightarrow> free_space_manager \<times> unit res" where
  "update_fragmentation f =
     (if total_free f = 0 then (f\<lparr>fragmentation_percent := 0\<rparr>, Ok ())
      else try_bind (f, get_largest_free_chunk f) (\<lambda>largest f.
           try_bind (f, or_panic (checked_sub (total_free f) largest)) (\<lambda>fragmented f.
           try_bind (f, or_panic (checked_mul fragmented 100)) (\<lambda>scaled f.
             (f\<lparr>fragmentation_percent := (scaled div total_free f) mod 2 ^ 32\<rparr>, Ok ())))))"

text \<open>The tail of \<open>allocate_sectors\<close>: the counters are updated and the start is returned.\<close>

definition allocate_finish :: "free_space_manager \<Rightarrow> nat \<Rightarrow> nat \<Rightarrow> free_space_manager \<times> nat res" where
  "allocate_finish f sectors allocated_start =
     try_bind (f, or_panic (checked_mul sectors BLOCK_SIZE)) (\<lambda>b f.
     try_bind (f, or_panic (checked_sub (total_free f) b)) (\<lambda>t f.
     try_bind (update_fragmentation (f\<lparr>total_free := t\<rparr>)) (\<lambda>_ f.
       (f, Ok allocated_start))))"

definition allocate_sectors :: "free_space_manager \<Rightarrow> nat \<Rightarrow> free_space_manager \<times> nat res" where
  "allocate_sectors f sectors =
     (if sectors = 0 then (f, Err InvalidArgument)
      else case find (\<lambda>((sz, st), stat). sectors \<le> sz) (by_size f) of
        None \<Rightarrow> (f, Err OutOfSpace)
      | Some ((sz, st), stat) \<Rightarrow>
          try_bind (f, is_valid_free_space f stat) (\<lambda>valid f.
            if \<not> valid then (f, Err CorruptedData)
            else
              let f = f\<lparr>by_size := om_remove (sz, st) (by_size f),
                        by_start := om_remove (sect_start stat) (by_start f)\<rparr>
              in if sectors < sect_size stat then
                   try_bind (f, or_panic (checked_add (sect_start stat) sectors)) (\<lambda>rest f.
                     case insert_free_space f
                            \<lparr>sect_start = rest, sect_size = sect_size stat - sectors\<rparr> of
                       (f, Err e) \<Rightarrow>
                         (case insert_free_space f stat of
                            (f, Panic) \<Rightarrow> (f, Panic)
                          | (f, _) \<Rightarrow> (f, Err e))
                     | (f, Panic) \<Rightarrow> (f, Panic)
                     | (f, Ok _) \<Rightarrow> allocate_finish f sectors (sect_start stat))
                 else allocate_finish f sectors (sect_start stat)))"

definition btree_remover :: "free_space_manager \<Rightarrow> sector_stat \<Rightarrow> free_space_manager \<times> unit res" where
  "btree_remover f space =
     (let f = f\<lparr>by_size := om_remove (sect_size space, sect_start space) (by_size f),
                by_start := om_remove (sect_start space) (by_start f)\<rparr>
      in try_bind (f, or_panic (checked_mul (sect_size space) BLOCK_SIZE)) (\<lambda>b f.
         try_bind (f, or_panic (checked_sub (total_free f) b)) (\<lambda>t f.
           (f\<lparr>total_free := t\<rparr>, Ok ()))))"

text \<open>The free neighbour that ends exactly where the released range starts.\<close>

definition merge_prev :: "free_space_manager \<Rightarrow> nat \<Rightarrow> sector_stat option res" where
  "merge_prev f start =
     (case om_below start (by_start f) of
        None \<Rightarrow> Ok None
      | Some (s, space) \<Rightarrow>
          bind_outcome (or_panic (checked_add s (sect_size space)))
            (\<lambda>e. Ok (if e = start then Some space else None)))"

text \<open>One absorption of a neighbour: it leaves the indexes and its size is added.\<close>

definition absorb :: "free_space_manager \<Rightarrow> sector_stat option \<Rightarrow> nat \<Rightarrow> free_space_manager \<times> nat res" where
  "absorb f neighbour merged_size =
     (case neighbour of
        None \<Rightarrow> (f, Ok merged_size)
      | Some space \<Rightarrow>
          try_bind (btree_remover f space) (\<lambda>_ f.
            (f, or_panic (checked_add merged_size (sect_size space)))))"

definition try_merge_spaces :: "free_space_manager \<Rightarrow> nat \<Rightarrow> nat \<Rightarrow> free_space_manager \<times> sector_stat res" where
  "try_merge_spaces f start sz =
     try_bind (f, or_panic (checked_add start sz)) (\<lambda>stop f.
     try_bind (f, merge_prev f start) (\<lambda>prev f.
       let nxt = om_get (by_start f) stop;
           merged_start = (case prev of None \<Rightarrow> start | Some space \<Rightarrow> sect_start space)
       in try_bind (absorb f prev sz) (\<lambda>merged_size f.
          try_bind (absorb f nxt merged_size) (\<lambda>merged_size f.
            (f, Ok \<lparr>sect_start = merged_start, sect_size = merged_size\<rparr>)))))"

definition release_sectors :: "free_space_manager \<Rightarrow> nat \<Rightarrow> nat \<Rightarrow> free_space_manager \<times> unit res" where
  "release_sectors f start sz =
     (if start = 0 \<or> sz = 0 then (f, Err InvalidArgument)
      else try_bind (f, is_valid_sector_range f start sz) (\<lambda>valid f.
        if \<not> valid then (f, Err InvalidArgument)
        else try_bind (try_merge_spaces f start sz) (\<lambda>merged f.
             try_bind (insert_free_space f merged) (\<lambda>_ f.
               update_fragmentation f))))"

definition get_free_chunks_count :: "free_space_manager \<Rightarrow> nat" where
  "get_free_chunks_count f = length (by_start f)"

definition get_total_free :: "free_space_manager \<Rightarrow> nat" where
  "get_total_free f = total_free f"

definition get_fragmentation_percent :: "free_space_manager \<Rightarrow> nat" where
  "get_fragmentation_percent f = fragmentation_percent f"

section \<open>Representation and invariant\<close>

text \<open>
  The two indexes hold the same chunks: \<open>by_start\<close> under the start sector and \<open>by_size\<close> under the
  pair of size and start.
\<close>

definition idx_wf :: "(nat \<times> nat, sector_stat) omap \<Rightarrow> (nat, sector_stat) omap \<Rightarrow> bool" where
  "idx_wf bsz bst \<longleftrightarrow>
     om_inv bsz \<and> om_inv bst \<and>
     (\<forall>s stat. om_get bst s = Some stat \<longrightarrow> sect_start stat = s) \<and>
     (\<forall>n s stat. om_get bsz (n, s) = Some stat \<longleftrightarrow> om_get bst s = Some stat \<and> sect_size stat = n)"

text \<open>The abstract view: start sector to size.\<close>

definition chunks :: "free_space_manager \<Rightarrow> chunk_map" where
  "chunks f = (\<lambda>s. map_option sect_size (om_get (by_start f) s))"

abbreviation free_sectors :: "free_space_manager \<Rightarrow> nat set" where
  "free_sectors f \<equiv> free_of (chunks f)"

definition device_sectors :: "free_space_manager \<Rightarrow> nat" where
  "device_sectors f = persistence_size f div BLOCK_SIZE"

definition fsm_inv :: "free_space_manager \<Rightarrow> bool" where
  "fsm_inv f \<longleftrightarrow>
     idx_wf (by_size f) (by_start f) \<and>
     0 < persistence_size f \<and> persistence_size f < U64_LIM \<and>
     chunk_wf (device_sectors f) (chunks f) \<and>
     BLOCK_SIZE * om_sum sect_size (by_start f) \<le> total_free f"

text \<open>Room left in the byte counter, so that no intermediate product overflows.\<close>

definition fsm_headroom :: "free_space_manager \<Rightarrow> bool" where
  "fsm_headroom f \<longleftrightarrow> (total_free f + persistence_size f) * 100 < U64_LIM"

lemma idx_wfD:
  assumes "idx_wf bsz bst"
  shows "om_inv bsz" "om_inv bst" "om_get bst s = Some stat \<Longrightarrow> sect_start stat = s"
    "om_get bsz (n, s) = Some stat \<longleftrightarrow> om_get bst s = Some stat \<and> sect_size stat = n"
  using assms unfolding idx_wf_def by blast+

lemma idx_wf_insert:
  assumes "idx_wf bsz bst" "om_get bst s = None"
  shows "idx_wf (om_insert (n, s) \<lparr>sect_start = s, sect_size = n\<rparr> bsz)
                (om_insert s \<lparr>sect_start = s, sect_size = n\<rparr> bst)"
  using assms unfolding idx_wf_def by (auto split: if_splits)

lemma idx_wf_remove:
  assumes "idx_wf bsz bst" "om_get bst s = Some stat"
  shows "idx_wf (om_remove (sect_size stat, s) bsz) (om_remove s bst)"
  using assms unfolding idx_wf_def by (auto split: if_splits)

lemma idx_wf_stat:
  "idx_wf bsz bst \<Longrightarrow> om_get bst s = Some stat \<Longrightarrow> stat = \<lparr>sect_start = s, sect_size = sect_size stat\<rparr>"
  using idx_wfD(3) by fastforce

text \<open>The indexes are determined by the abstract view.\<close>

lemma idx_wf_unique:
  assumes "idx_wf (by_size f) (by_start f)" "idx_wf (by_size g) (by_start g)" "chunks f = chunks g"
  shows "by_size f = by_size g" "by_start f = by_start g"
proof -
  have eq: "om_get (by_start f) s = om_get (by_start g) s" for s
    using fun_cong[OF assms(3), of s] idx_wf_stat[OF assms(1), of s] idx_wf_stat[OF assms(2), of s]
    by (cases "om_get (by_start f) s"; cases "om_get (by_start g) s") (auto simp: chunks_def)
  then show "by_start f = by_start g"
    using idx_wfD(2) assms(1,2) by (intro om_ext) (auto simp: fun_eq_iff)
  have "om_get (by_size f) k = om_get (by_size g) k" for k
  proof (cases k)
    case (Pair n s)
    have "om_get (by_size f) (n, s) = Some st \<longleftrightarrow> om_get (by_size g) (n, s) = Some st" for st
      by (simp add: idx_wfD(4)[OF assms(1)] idx_wfD(4)[OF assms(2)] eq)
    with Pair show ?thesis by (metis not_None_eq)
  qed
  then show "by_size f = by_size g"
    using idx_wfD(1) assms(1,2) by (intro om_ext) (auto simp: fun_eq_iff)
qed

lemma chunks_iff: "chunks f s = Some n \<longleftrightarrow> (\<exists>stat. om_get (by_start f) s = Some stat \<and> sect_size stat = n)"
  by (auto simp: chunks_def)

lemma chunks_None_iff: "chunks f s = None \<longleftrightarrow> om_get (by_start f) s = None"
  by (simp add: chunks_def)

lemma fsm_invD:
  assumes "fsm_inv f"
  shows "idx_wf (by_size f) (by_start f)" "0 < persistence_size f" "persistence_size f < U64_LIM"
    "chunk_wf (device_sectors f) (chunks f)"
    "BLOCK_SIZE * om_sum sect_size (by_start f) \<le> total_free f"
  using assms unfolding fsm_inv_def by blast+

lemma device_bytes: "n \<le> device_sectors f \<Longrightarrow> n * BLOCK_SIZE \<le> persistence_size f"
  by (simp add: device_sectors_def kv_const)

section \<open>The helpers, evaluated\<close>

lemma is_valid_free_space_ok:
  assumes "persistence_size f < U64_LIM" "METADATA_BLOCK_SIZE \<le> s" "0 < n" "s + n \<le> device_sectors f"
  shows "is_valid_free_space f \<lparr>sect_start = s, sect_size = n\<rparr> = Ok True"
  using assms device_bytes[OF assms(4)]
  by (auto simp: is_valid_free_space_def is_valid_sector_range_def device_sectors_def checked_add_def
        Let_def kv_const outcome_simps)

lemma insert_free_space_ok:
  assumes "persistence_size f < U64_LIM" "METADATA_BLOCK_SIZE \<le> s" "0 < n" "s + n \<le> device_sectors f"
    and "om_get (by_start f) s = None" and "total_free f + n * BLOCK_SIZE < U64_LIM"
  shows "insert_free_space f \<lparr>sect_start = s, sect_size = n\<rparr> =
    (f\<lparr>total_free := total_free f + n * BLOCK_SIZE,
       by_size := om_insert (n, s) \<lparr>sect_start = s, sect_size = n\<rparr> (by_size f),
       by_start := om_insert s \<lparr>sect_start = s, sect_size = n\<rparr> (by_start f)\<rparr>, Ok ())"
  using assms is_valid_free_space_ok[OF assms(1-4)]
  by (simp add: insert_free_space_def checked_add_def checked_mul_def outcome_simps)

lemma btree_remover_ok:
  assumes "n * BLOCK_SIZE \<le> total_free f" "total_free f < U64_LIM"
  shows "btree_remover f \<lparr>sect_start = s, sect_size = n\<rparr> =
    (f\<lparr>by_size := om_remove (n, s) (by_size f), by_start := om_remove s (by_start f),
       total_free := total_free f - n * BLOCK_SIZE\<rparr>, Ok ())"
  using assms
  by (simp add: btree_remover_def checked_sub_def checked_mul_def Let_def outcome_simps)

lemma largest_chunk_ok:
  assumes "idx_wf (by_size f) (by_start f)" "BLOCK_SIZE * om_sum sect_size (by_start f) \<le> total_free f"
    and "total_free f < U64_LIM"
  shows "\<exists>b \<le> total_free f. get_largest_free_chunk f = Ok b"
proof (cases "by_size f = []")
  case True
  then show ?thesis by (auto simp: get_largest_free_chunk_def om_last_def)
next
  case False
  obtain n s stat where last: "last (by_size f) = ((n, s), stat)"
    by (cases "last (by_size f)") auto
  from om.last_greatest(1)[OF idx_wfD(1)[OF assms(1)] False last]
  have "om_get (by_start f) s = Some stat" using idx_wfD(4)[OF assms(1)] by simp
  then have "sect_size stat \<le> om_sum sect_size (by_start f)"
    by (rule om_sum_ge[OF idx_wfD(2)[OF assms(1)]])
  with assms(2) have le: "sect_size stat * BLOCK_SIZE \<le> total_free f" by (simp add: kv_const)
  then have "checked_mul (sect_size stat) BLOCK_SIZE = Some (sect_size stat * BLOCK_SIZE)"
    using assms(3) by (simp add: checked_mul_def)
  with False last have "get_largest_free_chunk f = Ok (sect_size stat * BLOCK_SIZE)"
    by (simp add: get_largest_free_chunk_def om_last_def)
  with le show ?thesis by blast
qed

lemma update_fragmentation_ok:
  assumes "idx_wf (by_size f) (by_start f)" "BLOCK_SIZE * om_sum sect_size (by_start f) \<le> total_free f"
    and "total_free f * 100 < U64_LIM"
  shows "\<exists>p \<le> 100. update_fragmentation f = (f\<lparr>fragmentation_percent := p\<rparr>, Ok ())"
proof (cases "total_free f = 0")
  case True
  then show ?thesis by (auto simp: update_fragmentation_def)
next
  case False
  from largest_chunk_ok[OF assms(1,2)] assms(3) obtain b
    where b: "b \<le> total_free f" "get_largest_free_chunk f = Ok b" by auto
  let ?q = "(total_free f - b) * 100 div total_free f"
  have "?q \<le> (total_free f * 100) div total_free f" by (rule div_le_mono) simp
  with False have q: "?q \<le> 100" by simp
  then have "?q mod 2 ^ 32 \<le> 100" using mod_less_eq_dividend order_trans by blast
  moreover have "(total_free f - b) * 100 < U64_LIM" using assms(3) by simp
  with False b have "update_fragmentation f = (f\<lparr>fragmentation_percent := ?q mod 2 ^ 32\<rparr>, Ok ())"
    by (simp add: update_fragmentation_def checked_sub_def checked_mul_def)
  ultimately show ?thesis by blast
qed

section \<open>Allocation\<close>

text \<open>The first entry of \<open>by_size\<close> that is large enough is the best fit with the lowest start.\<close>

lemma best_fit:
  assumes wf: "idx_wf (by_size f) (by_start f)"
    and found: "find (\<lambda>((sz, st), stat). n \<le> sz) (by_size f) = Some ((m, a), stat)"
  shows "stat = \<lparr>sect_start = a, sect_size = m\<rparr>" "om_get (by_start f) a = Some stat" "n \<le> m"
    "\<And>s k. chunks f s = Some k \<Longrightarrow> n \<le> k \<Longrightarrow> (m, a) \<le> (k, s)"
proof -
  have eq: "(\<lambda>((sz, st), stat). n \<le> sz) = (\<lambda>(k, stat :: sector_stat). n \<le> fst k)"
    by (auto simp: fun_eq_iff)
  note least = om.find_least[OF idx_wfD(1)[OF wf] found[unfolded eq]]
  from least(1) have get: "om_get (by_start f) a = Some stat" "sect_size stat = m"
    by (simp_all add: idx_wfD(4)[OF wf])
  then show "om_get (by_start f) a = Some stat" "stat = \<lparr>sect_start = a, sect_size = m\<rparr>"
    using idx_wf_stat[OF wf get(1)] by simp_all
  show "n \<le> m" using least(2) by simp
  fix s k assume "chunks f s = Some k" "n \<le> k"
  then obtain st where "om_get (by_size f) (k, s) = Some st"
    by (auto simp: chunks_iff idx_wfD(4)[OF wf])
  from least(3)[OF this] \<open>n \<le> k\<close> show "(m, a) \<le> (k, s)" by simp
qed

lemma no_fit:
  assumes wf: "idx_wf (by_size f) (by_start f)"
    and none: "find (\<lambda>((sz, st), stat). n \<le> sz) (by_size f) = None"
    and "chunks f s = Some k"
  shows "k < n"
proof -
  from assms(3) obtain stat where "om_get (by_size f) (k, s) = Some stat"
    by (auto simp: chunks_iff idx_wfD(4)[OF wf])
  then have "((k, s), stat) \<in> set (by_size f)" by (rule map_of_SomeD)
  from find_NoneD[OF none this] show ?thesis by simp
qed

lemma allocate_finish_ok:
  assumes "idx_wf (by_size f) (by_start f)" "n * BLOCK_SIZE \<le> total_free f"
    and "BLOCK_SIZE * om_sum sect_size (by_start f) \<le> total_free f - n * BLOCK_SIZE"
    and "total_free f * 100 < U64_LIM"
  shows "\<exists>p \<le> 100. allocate_finish f n a =
    (f\<lparr>total_free := total_free f - n * BLOCK_SIZE, fragmentation_percent := p\<rparr>, Ok a)"
proof -
  let ?g = "f\<lparr>total_free := total_free f - n * BLOCK_SIZE\<rparr>"
  have "\<exists>p \<le> 100. update_fragmentation ?g = (?g\<lparr>fragmentation_percent := p\<rparr>, Ok ())"
    using assms by (intro update_fragmentation_ok) auto
  moreover have "n * BLOCK_SIZE < U64_LIM" using assms(2,4) by simp
  ultimately show ?thesis using assms(2) by (auto simp: allocate_finish_def)
qed

text \<open>The indexes after the best fit has been taken, and their abstract view.\<close>

lemma idx_take:
  assumes wf: "idx_wf (by_size f) (by_start f)" and a: "om_get (by_start f) a = Some stat"
    and m: "sect_size stat = m"
  shows "idx_wf (om_remove (m, a) (by_size f)) (om_remove a (by_start f))"
    "om_sum sect_size (by_start f) = om_sum sect_size (om_remove a (by_start f)) + m"
    "chunks (f\<lparr>by_size := bs, by_start := om_remove a (by_start f)\<rparr>) = (chunks f)(a := None)"
  using idx_wf_remove[OF wf a] om_sum_remove[OF idx_wfD(2)[OF wf] a, of sect_size] m
  by (auto simp: chunks_def fun_eq_iff)

lemma allocate_whole:
  assumes inv: "fsm_inv f" and room: "fsm_headroom f" and n: "0 < n"
    and found: "find (\<lambda>((sz, st), stat). n \<le> sz) (by_size f) = Some ((n, a), stat)"
  shows "\<exists>p \<le> 100. allocate_sectors f n =
    (f\<lparr>by_size := om_remove (n, a) (by_size f), by_start := om_remove a (by_start f),
       total_free := total_free f - n * BLOCK_SIZE, fragmentation_percent := p\<rparr>, Ok a)"
proof -
  note I = fsm_invD[OF inv] and fit = best_fit[OF fsm_invD(1)[OF inv] found]
  let ?g = "f\<lparr>by_size := om_remove (n, a) (by_size f), by_start := om_remove a (by_start f)\<rparr>"
  have an: "chunks f a = Some n" using fit by (simp add: chunks_def)
  note W = chunk_wfD[OF I(4)]
  have valid: "is_valid_free_space f stat = Ok True"
    unfolding fit(1) using I(3) W(2,3)[OF an] n by (intro is_valid_free_space_ok) auto
  note T = idx_take[OF I(1) fit(2)]
  have "\<exists>p \<le> 100. allocate_finish ?g n a =
    (?g\<lparr>total_free := total_free ?g - n * BLOCK_SIZE, fragmentation_percent := p\<rparr>, Ok a)"
    using T(1,2)[of n] I(5) room fit(1)
    by (intro allocate_finish_ok) (auto simp: fsm_headroom_def kv_const)
  then show ?thesis
    using n valid found fit(1) by (auto simp: allocate_sectors_def)
qed

lemma inside_absent:
  assumes "fsm_inv f" "chunks f a = Some m" "0 < n" "n < m"
  shows "om_get (by_start f) (a + n) = None"
  using chunk_unique[OF fsm_invD(4)[OF assms(1)] assms(2), of "a + n" _ "a + n"] assms(3,4)
  by (cases "chunks f (a + n)") (auto simp: chunks_None_iff)

lemma allocate_split:
  assumes inv: "fsm_inv f" and room: "fsm_headroom f" and n: "0 < n" "n < m"
    and found: "find (\<lambda>((sz, st), stat). n \<le> sz) (by_size f) = Some ((m, a), stat)"
  shows "\<exists>p \<le> 100. allocate_sectors f n =
    (f\<lparr>by_size := om_insert (m - n, a + n) \<lparr>sect_start = a + n, sect_size = m - n\<rparr>
                    (om_remove (m, a) (by_size f)),
       by_start := om_insert (a + n) \<lparr>sect_start = a + n, sect_size = m - n\<rparr>
                    (om_remove a (by_start f)),
       total_free := total_free f + (m - n) * BLOCK_SIZE - n * BLOCK_SIZE,
       fragmentation_percent := p\<rparr>, Ok a)"
proof -
  note I = fsm_invD[OF inv] and fit = best_fit[OF fsm_invD(1)[OF inv] found]
  let ?rest = "\<lparr>sect_start = a + n, sect_size = m - n\<rparr>"
  let ?g = "f\<lparr>by_size := om_remove (m, a) (by_size f), by_start := om_remove a (by_start f)\<rparr>"
  let ?h = "?g\<lparr>total_free := total_free f + (m - n) * BLOCK_SIZE,
               by_size := om_insert (m - n, a + n) ?rest (by_size ?g),
               by_start := om_insert (a + n) ?rest (by_start ?g)\<rparr>"
  have am: "chunks f a = Some m" using fit by (simp add: chunks_def)
  note W = chunk_wfD[OF I(4)]
  have valid: "is_valid_free_space f stat = Ok True"
    unfolding fit(1) using I(3) W(2,3)[OF am] n by (intro is_valid_free_space_ok) auto
  note T = idx_take[OF I(1) fit(2)]
  have bytes: "m * BLOCK_SIZE \<le> persistence_size f"
    using W(3)[OF am] by (intro device_bytes) simp
  note absent = inside_absent[OF inv am n]
  have ins: "insert_free_space ?g ?rest = (?h, Ok ())"
    using I(3) W(2,3)[OF am] n absent bytes room
    by (subst insert_free_space_ok)
       (auto simp: fsm_headroom_def device_sectors_def kv_const)
  have "om_sum sect_size (by_start ?h) = om_sum sect_size (om_remove a (by_start f)) + (m - n)"
    using absent by (simp add: om_sum_insert_new)
  then have "\<exists>p \<le> 100. allocate_finish ?h n a =
    (?h\<lparr>total_free := total_free ?h - n * BLOCK_SIZE, fragmentation_percent := p\<rparr>, Ok a)"
    using idx_wf_insert[OF T(1), of m "a + n"] absent T(2)[of m] I(5) room fit(1) n bytes
    by (intro allocate_finish_ok) (auto simp: fsm_headroom_def kv_const)
  moreover have "a + n < U64_LIM"
    using W(3)[OF am] I(3) n device_bytes[of "a + m" f] by (simp add: kv_const)
  ultimately show ?thesis
    using n valid found fit(1) ins by (auto simp: allocate_sectors_def)
qed

text \<open>
  Allocation either takes \<open>n\<close> sectors from the front of the smallest chunk that holds them, or
  reports that no chunk does and changes nothing. The byte counter \<open>total_free\<close> is off by the
  remainder of the split chunk: \<open>insert_free_space\<close> adds it although it was counted before.
\<close>

lemma allocate_post:
  assumes inv: "fsm_inv f" and am: "chunks f a = Some m" and n: "0 < n" "n \<le> m"
    and idx: "idx_wf (by_size f') (by_start f')" and ch: "chunks f' = chunk_take (chunks f) a n"
    and sum: "om_sum sect_size (by_start f') + n = om_sum sect_size (by_start f)"
    and total: "total_free f' = total_free f + (m - n) * BLOCK_SIZE - n * BLOCK_SIZE"
    and psize: "persistence_size f' = persistence_size f"
  shows "fsm_inv f'" "total_free f' + n * BLOCK_SIZE = total_free f + (m - n) * BLOCK_SIZE"
proof -
  note I = fsm_invD[OF inv]
  have "BLOCK_SIZE * om_sum sect_size (by_start f') \<le> total_free f'"
    using sum I(5) total by (simp add: kv_const)
  moreover have "chunk_wf (device_sectors f) (chunks f')"
    unfolding ch using chunk_take_wf[OF I(4) am n] .
  ultimately show "fsm_inv f'"
    using idx I(2,3) psize by (simp add: fsm_inv_def device_sectors_def)
  show "total_free f' + n * BLOCK_SIZE = total_free f + (m - n) * BLOCK_SIZE"
    using sum I(5) total by (simp add: kv_const)
qed

lemma allocate_sectors_cases:
  assumes inv: "fsm_inv f" and room: "fsm_headroom f" and n: "0 < n"
  obtains (Fit) a m f' where "allocate_sectors f n = (f', Ok a)" "chunks f a = Some m" "n \<le> m"
      "\<And>s k. chunks f s = Some k \<Longrightarrow> n \<le> k \<Longrightarrow> (m, a) \<le> (k, s)"
      "chunks f' = chunk_take (chunks f) a n" "fsm_inv f'"
      "persistence_size f' = persistence_size f"
      "total_free f' + n * BLOCK_SIZE = total_free f + (m - n) * BLOCK_SIZE"
      "fragmentation_percent f' \<le> 100"
  | (Full) "allocate_sectors f n = (f, Err OutOfSpace)" "\<And>s k. chunks f s = Some k \<Longrightarrow> k < n"
proof (cases "find (\<lambda>((sz, st), stat). n \<le> sz) (by_size f)")
  case None
  then show thesis using n no_fit[OF fsm_invD(1)[OF inv] None] Full
    by (auto simp: allocate_sectors_def)
next
  case (Some e)
  then obtain m a stat where found: "find (\<lambda>((sz, st), stat). n \<le> sz) (by_size f) = Some ((m, a), stat)"
    by (cases e) auto
  note I = fsm_invD[OF inv] and fit = best_fit[OF fsm_invD(1)[OF inv] found]
  have am: "chunks f a = Some m" using fit by (simp add: chunks_def)
  note T = idx_take[OF I(1) fit(2)] and post = allocate_post[OF inv am n fit(3)]
  show thesis
  proof (cases "n < m")
    case True
    note absent = inside_absent[OF inv am n True]
    from allocate_split[OF inv room n True found] obtain p where p: "p \<le> 100" and
      alloc: "allocate_sectors f n = (f\<lparr>by_size := om_insert (m - n, a + n)
          \<lparr>sect_start = a + n, sect_size = m - n\<rparr> (om_remove (m, a) (by_size f)),
         by_start := om_insert (a + n) \<lparr>sect_start = a + n, sect_size = m - n\<rparr>
                      (om_remove a (by_start f)),
         total_free := total_free f + (m - n) * BLOCK_SIZE - n * BLOCK_SIZE,
         fragmentation_percent := p\<rparr>, Ok a)" (is "_ = (?f', _)") by blast
    have ch: "chunks ?f' = chunk_take (chunks f) a n"
      using True am by (auto simp: chunks_def chunk_take_def fun_eq_iff)
    have "idx_wf (by_size ?f') (by_start ?f')"
      using idx_wf_insert[OF T(1), of m "a + n"] absent fit(1) by simp
    from Fit[OF alloc am fit(3) fit(4) ch post(1)[OF this ch] _ post(2)[OF this ch]] show thesis
      using T(2)[of m] absent fit(1) True p by (simp add: om_sum_insert_new)
  next
    case False
    with fit(3) have mn: "m = n" by simp
    from allocate_whole[OF inv room n found[unfolded mn]] obtain p where p: "p \<le> 100" and
      alloc: "allocate_sectors f n = (f\<lparr>by_size := om_remove (n, a) (by_size f),
         by_start := om_remove a (by_start f), total_free := total_free f - n * BLOCK_SIZE,
         fragmentation_percent := p\<rparr>, Ok a)" (is "_ = (?f', _)") by blast
    have ch: "chunks ?f' = chunk_take (chunks f) a n"
      using am mn by (auto simp: chunks_def chunk_take_def fun_eq_iff)
    have "idx_wf (by_size ?f') (by_start ?f')" using T(1)[of n] fit(1) mn by simp
    from Fit[OF alloc am fit(3) fit(4) ch post(1)[OF this ch] _ post(2)[OF this ch]] show thesis
      using T(2)[of n] fit(1) mn p by simp
  qed
qed

section \<open>Release\<close>

lemma merge_prev_ok:
  assumes inv: "fsm_inv f"
  shows "\<exists>prev. merge_prev f s = Ok (Option.bind prev (om_get (by_start f))) \<and> is_prev (chunks f) s prev"
proof (cases "om_below s (by_start f)")
  note I = fsm_invD[OF inv]
  case None
  have "p + k \<noteq> s" if "chunks f p = Some k" for p k
    using om_below_None[OF None] that chunk_wfD(1)[OF I(4) that] by (fastforce simp: chunks_iff)
  with None show ?thesis by (intro exI[of _ None]) (auto simp: merge_prev_def is_prev_def)
next
  note I = fsm_invD[OF inv]
  case (Some e)
  then obtain p st where below: "om_below s (by_start f) = Some (p, st)" by (cases e) auto
  note B = om_below_Some[OF idx_wfD(2)[OF I(1)] below]
  have pst: "chunks f p = Some (sect_size st)" using B(1) by (simp add: chunks_def)
  have lim: "p + sect_size st < U64_LIM"
    using chunk_wfD(3)[OF I(4) pst] device_bytes[of "p + sect_size st" f] I(3) by (simp add: kv_const)
  show ?thesis
  proof (cases "p + sect_size st = s")
    case True
    with below lim pst B(1) show ?thesis
      by (intro exI[of _ "Some p"]) (auto simp: merge_prev_def is_prev_def)
  next
    case False
    have "q + k \<noteq> s" if q: "chunks f q = Some k" for q k
    proof
      assume eq: "q + k = s"
      then have "q < s" using chunk_wfD(1)[OF I(4) q] by simp
      then have "q \<le> p" using B(3) q by (auto simp: chunks_iff)
      with False eq pst q have "q < p" by (cases "q = p") auto
      from chunk_wfD(4)[OF I(4) q pst this] eq B(2) show False by simp
    qed
    with below lim False show ?thesis
      by (intro exI[of _ None]) (auto simp: merge_prev_def is_prev_def)
  qed
qed

text \<open>
  \<open>shrunk f f' k\<close>: \<open>f'\<close> has lost chunks of \<open>k\<close> sectors in all and the byte counter has followed.
\<close>

definition shrunk :: "free_space_manager \<Rightarrow> free_space_manager \<Rightarrow> nat \<Rightarrow> bool" where
  "shrunk f f' k \<longleftrightarrow>
     idx_wf (by_size f') (by_start f') \<and>
     BLOCK_SIZE * om_sum sect_size (by_start f') \<le> total_free f' \<and>
     total_free f = total_free f' + k * BLOCK_SIZE \<and> persistence_size f' = persistence_size f"

lemma shrunk_trans: "shrunk f g j \<Longrightarrow> shrunk g h k \<Longrightarrow> shrunk f h (j + k)"
  by (auto simp: shrunk_def algebra_simps)

lemma absorb_at:
  assumes idx: "idx_wf (by_size f) (by_start f)"
    and le: "BLOCK_SIZE * om_sum sect_size (by_start f) \<le> total_free f"
    and lim: "total_free f < U64_LIM" "m + size_at (chunks f) q < U64_LIM"
  shows "\<exists>f'. absorb f (om_get (by_start f) q) m = (f', Ok (m + size_at (chunks f) q)) \<and>
    shrunk f f' (size_at (chunks f) q) \<and> chunks f' = (chunks f)(q := None)"
proof (cases "om_get (by_start f) q")
  case None
  then have "absorb f (om_get (by_start f) q) m = (f, Ok m)" "chunks f q = None"
    by (simp_all add: absorb_def chunks_None_iff)
  then show ?thesis using idx le by (auto simp: shrunk_def size_at_def fun_eq_iff)
next
  case (Some st)
  have k: "chunks f q = Some (sect_size st)" using Some by (simp add: chunks_def)
  note T = idx_take[OF idx Some refl]
  have bytes: "sect_size st * BLOCK_SIZE \<le> total_free f" using T(2) le by (simp add: kv_const)
  let ?f' = "f\<lparr>by_size := om_remove (sect_size st, q) (by_size f), by_start := om_remove q (by_start f),
               total_free := total_free f - sect_size st * BLOCK_SIZE\<rparr>"
  have "absorb f (Some st) m = (?f', Ok (m + sect_size st))"
    using lim(2) k btree_remover_ok[OF bytes lim(1), of q] idx_wf_stat[OF idx Some]
    by (simp add: absorb_def size_at_def)
  moreover have "shrunk f ?f' (sect_size st)"
    using T(1,2) bytes le by (simp add: shrunk_def kv_const)
  moreover have "chunks ?f' = (chunks f)(q := None)" by (auto simp: chunks_def fun_eq_iff)
  ultimately show ?thesis using k Some by (auto simp: size_at_def)
qed

lemma absorb_prev:
  assumes inv: "fsm_inv f" and lim: "total_free f < U64_LIM" "s + n < U64_LIM"
    and prev: "is_prev (chunks f) s prev"
  shows "\<exists>f'. absorb f (Option.bind prev (om_get (by_start f))) n = (f', Ok (s + n - give_start prev s)) \<and>
    shrunk f f' (s - give_start prev s) \<and>
    chunks f' = (case prev of None \<Rightarrow> chunks f | Some p \<Rightarrow> (chunks f)(p := None))"
proof (cases prev)
  case None
  then show ?thesis using fsm_invD(1,5)[OF inv] by (auto simp: absorb_def shrunk_def give_start_def)
next
  case (Some p)
  with prev have p: "size_at (chunks f) p = s - p" "p \<le> s" by (auto simp: is_prev_def size_at_def)
  have "n + (s - p) < U64_LIM" "n + (s - p) = s + n - p" using lim(2) p(2) by simp_all
  with absorb_at[OF fsm_invD(1,5)[OF inv] lim(1), of n p] p Some show ?thesis
    by (simp add: give_start_def)
qed

lemma try_merge_ok:
  assumes inv: "fsm_inv f" and lim: "total_free f < U64_LIM"
    and n: "0 < n" "METADATA_BLOCK_SIZE \<le> s" "s + n \<le> device_sectors f"
    and disj: "{s..<s + n} \<inter> free_sectors f = {}"
  defines "m \<equiv> \<lambda>prev. s + n + size_at (chunks f) (s + n) - give_start prev s"
  obtains f' prev where
    "try_merge_spaces f s n = (f', Ok \<lparr>sect_start = give_start prev s, sect_size = m prev\<rparr>)"
    "is_prev (chunks f) s prev" "shrunk f f' (m prev - n)"
    "(chunks f')(give_start prev s \<mapsto> m prev) = chunk_give (chunks f) prev s n"
    "chunks f' (give_start prev s) = None"
proof -
  note I = fsm_invD[OF inv]
  let ?c = "chunks f"
  let ?k = "size_at ?c (s + n)"
  from merge_prev_ok[OF inv, of s] obtain prev where
    prev: "merge_prev f s = Ok (Option.bind prev (om_get (by_start f)))" "is_prev ?c s prev" by blast
  note gs = give_start_bounds(1)[OF I(4) prev(2) n(2)]
  have lim2: "s + n + ?k < U64_LIM"
    using size_at_bound[OF I(4) n(3)] device_bytes[of "s + n + ?k" f] I(3) by (simp add: kv_const)
  from absorb_prev[OF inv lim _ prev(2), of n] lim2 obtain f1 where
    f1: "absorb f (Option.bind prev (om_get (by_start f))) n = (f1, Ok (s + n - give_start prev s))"
    "shrunk f f1 (s - give_start prev s)"
    "chunks f1 = (case prev of None \<Rightarrow> ?c | Some p \<Rightarrow> ?c(p := None))" by auto
  have same: "chunks f1 (s + n) = ?c (s + n)"
    using prev(2) n(1) by (auto simp: f1(3) is_prev_def split: option.splits)
  have idx1: "idx_wf (by_size f1) (by_start f1)" using f1(2) by (simp add: shrunk_def)
  have nxt: "om_get (by_start f) (s + n) = om_get (by_start f1) (s + n)"
    using idx_wf_stat[OF I(1), of "s + n"] idx_wf_stat[OF idx1, of "s + n"] same
    by (cases "om_get (by_start f) (s + n)"; cases "om_get (by_start f1) (s + n)")
       (auto simp: chunks_def)
  have k: "size_at (chunks f1) (s + n) = ?k" using same by (simp add: size_at_def)
  have "s + n - give_start prev s + ?k < U64_LIM" "total_free f1 < U64_LIM"
    using lim lim2 f1(2) by (auto simp: shrunk_def)
  with absorb_at[OF idx1, of "s + n - give_start prev s" "s + n"] f1(2) k obtain f2 where
    f2: "absorb f1 (om_get (by_start f1) (s + n)) (s + n - give_start prev s) = (f2, Ok (m prev))"
    "shrunk f1 f2 ?k" "chunks f2 = (chunks f1)(s + n := None)"
    using gs by (auto simp: shrunk_def m_def)
  have ms: "(case Option.bind prev (om_get (by_start f)) of None \<Rightarrow> s | Some space \<Rightarrow> sect_start space) =
      give_start prev s"
    using prev(2) idx_wfD(3)[OF I(1)]
    by (auto simp: give_start_def is_prev_def chunks_iff split: option.splits)
  have "try_merge_spaces f s n = (f2, Ok \<lparr>sect_start = give_start prev s, sect_size = m prev\<rparr>)"
    using lim2 prev(1) f1(1) f2(1) by (simp add: try_merge_spaces_def nxt ms Let_def)
  moreover have "shrunk f f2 (m prev - n)"
    using shrunk_trans[OF f1(2) f2(2)] gs by (simp add: m_def)
  moreover have "m prev = n + (s - give_start prev s) + ?k" using gs by (simp add: m_def)
  then have "(chunks f2)(give_start prev s \<mapsto> m prev) = chunk_give ?c prev s n"
    using prev(2) by (auto simp: f2(3) f1(3) chunk_give_def give_start_def is_prev_def size_at_def split: option.splits)
  moreover have "?c s = None"
    using disjoint_chunk[OF I(4) _ n(1) disj, of s] chunk_wfD(1)[OF I(4), of s] n(1)
    by (cases "?c s") auto
  then have "chunks f2 (give_start prev s) = None"
    by (auto simp: f2(3) f1(3) give_start_def split: option.splits)
  ultimately show thesis using that prev(2) by blast
qed

lemma release_sectors_ok:
  assumes inv: "fsm_inv f" and room: "fsm_headroom f"
    and n: "0 < n" "METADATA_BLOCK_SIZE \<le> s" "s + n \<le> device_sectors f"
    and disj: "{s..<s + n} \<inter> free_sectors f = {}"
  obtains f' prev where "release_sectors f s n = (f', Ok ())" "is_prev (chunks f) s prev"
    "chunks f' = chunk_give (chunks f) prev s n" "fsm_inv f'"
    "persistence_size f' = persistence_size f" "total_free f' = total_free f + n * BLOCK_SIZE"
    "fragmentation_percent f' \<le> 100"
proof -
  note I = fsm_invD[OF inv]
  have total: "total_free f < U64_LIM" using room by (simp add: fsm_headroom_def)
  obtain f1 prev g m where M: "try_merge_spaces f s n = (f1, Ok \<lparr>sect_start = g, sect_size = m\<rparr>)"
    and prev: "is_prev (chunks f) s prev" and F: "shrunk f f1 (m - n)"
    "(chunks f1)(g \<mapsto> m) = chunk_give (chunks f) prev s n" "chunks f1 g = None"
    and g: "g = give_start prev s" "m = s + n + size_at (chunks f) (s + n) - give_start prev s"
    by (rule try_merge_ok[OF inv total n disj]) blast
  note gs = give_start_bounds[OF I(4) prev n(2)] and S = F(1)[unfolded shrunk_def]
  have gm: "METADATA_BLOCK_SIZE \<le> g" "0 < m" "n \<le> m" "g + m \<le> device_sectors f1"
    using gs n size_at_bound[OF I(4) n(3)] S by (auto simp: g device_sectors_def)
  have absent: "om_get (by_start f1) g = None" using F(3) by (simp add: chunks_None_iff)
  have bytes: "n * BLOCK_SIZE \<le> persistence_size f" using n(3) by (intro device_bytes) simp
  have t: "total_free f1 + m * BLOCK_SIZE = total_free f + n * BLOCK_SIZE"
    using S gm(3) by (simp add: kv_const)
  let ?st = "\<lparr>sect_start = g, sect_size = m\<rparr>"
  let ?f2 = "f1\<lparr>total_free := total_free f1 + m * BLOCK_SIZE, by_size := om_insert (m, g) ?st (by_size f1),
                by_start := om_insert g ?st (by_start f1)\<rparr>"
  have ins: "insert_free_space f1 ?st = (?f2, Ok ())"
    using gm absent S I(3) t room bytes by (intro insert_free_space_ok) (auto simp: fsm_headroom_def)
  have idx: "idx_wf (by_size ?f2) (by_start ?f2)" using S absent by (simp add: idx_wf_insert)
  have le: "BLOCK_SIZE * om_sum sect_size (by_start ?f2) \<le> total_free ?f2"
    using S absent by (simp add: om_sum_insert_new algebra_simps)
  obtain p where p: "p \<le> 100" "update_fragmentation ?f2 = (?f2\<lparr>fragmentation_percent := p\<rparr>, Ok ())"
    using update_fragmentation_ok[OF idx le] t room bytes by (auto simp: fsm_headroom_def)
  have valid: "is_valid_sector_range f s n = Ok True"
    using is_valid_free_space_ok[OF I(3) n(2,1,3)] n(2) by (simp add: is_valid_free_space_def)
  have ch: "chunks (?f2\<lparr>fragmentation_percent := p\<rparr>) = chunk_give (chunks f) prev s n"
    unfolding F(2) [symmetric] by (auto simp: chunks_def fun_eq_iff)
  have "s \<noteq> 0" using n(2) by (simp add: kv_const)
  then have "release_sectors f s n = (?f2\<lparr>fragmentation_percent := p\<rparr>, Ok ())"
    using n(1) valid M ins p(2) by (simp add: release_sectors_def)
  then show thesis
  proof (rule that[OF _ prev ch])
    show "fsm_inv (?f2\<lparr>fragmentation_percent := p\<rparr>)"
      unfolding fsm_inv_def device_sectors_def ch
      using idx le chunk_give_wf[OF I(4) prev n(2,3,1) disj] I(2,3) S by (simp add: device_sectors_def)
  qed (use S t p in simp_all)
qed

section \<open>Initialisation\<close>

lemma initialize_ok:
  assumes "METADATA_BLOCK_SIZE < psize div BLOCK_SIZE" "psize < U64_LIM"
  shows "\<exists>f. initialize fsm_new psize = (f, Ok ()) \<and> fsm_inv f \<and> persistence_size f = psize \<and>
    chunks f = [METADATA_BLOCK_SIZE \<mapsto> psize div BLOCK_SIZE - METADATA_BLOCK_SIZE] \<and>
    total_free f = (psize div BLOCK_SIZE - METADATA_BLOCK_SIZE) * BLOCK_SIZE"
proof -
  let ?g = "fsm_new\<lparr>persistence_size := psize\<rparr>"
  let ?n = "psize div BLOCK_SIZE - METADATA_BLOCK_SIZE"
  let ?f = "?g\<lparr>total_free := ?n * BLOCK_SIZE,
     by_size := [((?n, METADATA_BLOCK_SIZE), \<lparr>sect_start = METADATA_BLOCK_SIZE, sect_size = ?n\<rparr>)],
     by_start := [(METADATA_BLOCK_SIZE, \<lparr>sect_start = METADATA_BLOCK_SIZE, sect_size = ?n\<rparr>)]\<rparr>"
  have bytes: "?n * BLOCK_SIZE \<le> psize" by (simp add: kv_const)
  have "insert_free_space ?g \<lparr>sect_start = METADATA_BLOCK_SIZE, sect_size = ?n\<rparr> = (?f, Ok ())"
    using assms bytes by (subst insert_free_space_ok) (auto simp: fsm_new_def device_sectors_def)
  then have "initialize fsm_new psize = (?f, Ok ())"
    using assms by (simp add: initialize_def Let_def)
  moreover have "fsm_inv ?f"
    using assms
    by (auto simp: fsm_inv_def idx_wf_def om_inv_def chunk_wf_def chunks_def om_sum_def
          device_sectors_def kv_const split: if_splits)
  moreover have "chunks ?f = [METADATA_BLOCK_SIZE \<mapsto> ?n]" by (auto simp: chunks_def fun_eq_iff)
  ultimately show ?thesis by (intro exI[of _ ?f]) simp
qed

lemma initialize_small:
  "psize div BLOCK_SIZE \<le> METADATA_BLOCK_SIZE \<Longrightarrow> snd (initialize f psize) = Err InvalidDevice"
  by (simp add: initialize_def Let_def)

section \<open>The allocator interface\<close>

text \<open>
  What the write buffer and the recovery code rely on. \<open>free\<close> is the set of free sectors, \<open>limit\<close>
  the number of sectors of the device and \<open>room\<close> the headroom of the byte counter.
\<close>

locale space_allocator =
  fixes inv :: "'s \<Rightarrow> bool"
    and room :: "'s \<Rightarrow> bool"
    and free :: "'s \<Rightarrow> nat set"
    and limit :: "'s \<Rightarrow> nat"
    and alloc :: "'s \<Rightarrow> nat \<Rightarrow> 's \<times> nat res"
    and release :: "'s \<Rightarrow> nat \<Rightarrow> nat \<Rightarrow> 's \<times> unit res"
  assumes alloc_Ok: "inv s \<Longrightarrow> room s \<Longrightarrow> alloc s n = (s', Ok a) \<Longrightarrow>
      0 < n \<and> inv s' \<and> {a..<a + n} \<subseteq> free s \<and> free s' = free s - {a..<a + n} \<and> limit s' = limit s"
    and alloc_Err: "inv s \<Longrightarrow> room s \<Longrightarrow> alloc s n = (s', Err e) \<Longrightarrow> s' = s"
    and alloc_no_panic: "inv s \<Longrightarrow> room s \<Longrightarrow> snd (alloc s n) \<noteq> Panic"
    and release_Ok: "inv s \<Longrightarrow> room s \<Longrightarrow> 0 < n \<Longrightarrow> METADATA_BLOCK_SIZE \<le> a \<Longrightarrow> a + n \<le> limit s \<Longrightarrow>
      {a..<a + n} \<inter> free s = {} \<Longrightarrow>
      \<exists>s'. release s a n = (s', Ok ()) \<and> inv s' \<and> free s' = free s \<union> {a..<a + n} \<and> limit s' = limit s"
    and free_range: "inv s \<Longrightarrow> free s \<subseteq> {METADATA_BLOCK_SIZE..<limit s}"
begin

lemma alloc_bounds:
  assumes "inv s" "room s" "alloc s n = (s', Ok a)"
  shows "METADATA_BLOCK_SIZE \<le> a" "a + n \<le> limit s"
proof -
  from alloc_Ok[OF assms] have n: "0 < n" and sub: "{a..<a + n} \<subseteq> free s" by auto
  from sub free_range[OF assms(1)] have "{a..<a + n} \<subseteq> {METADATA_BLOCK_SIZE..<limit s}"
    by (rule order_trans)
  from atLeastLessThan_subset_iff[OF this] n
  show "METADATA_BLOCK_SIZE \<le> a" "a + n \<le> limit s" by auto
qed

text \<open>An allocated range can always be given back, and the free set is then as before.\<close>

lemma alloc_release:
  assumes "inv s" "room s" "alloc s n = (s', Ok a)" "room s'"
  shows "\<exists>s''. release s' a n = (s'', Ok ()) \<and> inv s'' \<and> free s'' = free s"
proof -
  note A = alloc_Ok[OF assms(1-3)] and B = alloc_bounds[OF assms(1-3)]
  from A B have "\<exists>s''. release s' a n = (s'', Ok ()) \<and> inv s'' \<and>
      free s'' = free s' \<union> {a..<a + n} \<and> limit s'' = limit s'"
    using assms(4) by (intro release_Ok) auto
  with A show ?thesis by auto
qed

end

text \<open>A sequence of successful allocations: the ranges handed out, in order.\<close>

inductive allocs :: "('s \<Rightarrow> nat \<Rightarrow> 's \<times> nat res) \<Rightarrow> ('s \<Rightarrow> bool) \<Rightarrow> 's \<Rightarrow> (nat \<times> nat) list \<Rightarrow> 's \<Rightarrow> bool"
  for alloc :: "'s \<Rightarrow> nat \<Rightarrow> 's \<times> nat res" and room :: "'s \<Rightarrow> bool" where
  allocs_Nil: "allocs alloc room s [] s"
| allocs_Cons: "room s \<Longrightarrow> alloc s n = (s', Ok a) \<Longrightarrow> allocs alloc room s' xs s'' \<Longrightarrow>
    allocs alloc room s ((a, n) # xs) s''"

abbreviation extent :: "nat \<times> nat \<Rightarrow> nat set" where
  "extent r \<equiv> {fst r..<fst r + snd r}"

context space_allocator
begin

lemma allocs_sound:
  assumes "allocs alloc room s xs s'" and "inv s"
  shows "inv s' \<and> (\<forall>r\<in>set xs. extent r \<subseteq> free s) \<and> free s' = free s - (\<Union>r\<in>set xs. extent r) \<and>
    sorted_wrt (\<lambda>r r'. extent r \<inter> extent r' = {}) xs"
  using assms
proof (induction rule: allocs.induct)
  case (allocs_Nil s)
  then show ?case by simp
next
  case (allocs_Cons s n s' a xs s'')
  note A = alloc_Ok[OF allocs_Cons.prems allocs_Cons.hyps(1,2)]
  then have IH: "inv s''" "\<forall>r\<in>set xs. extent r \<subseteq> free s - {a..<a + n}"
    "free s'' = free s - {a..<a + n} - (\<Union>r\<in>set xs. extent r)"
    "sorted_wrt (\<lambda>r r'. extent r \<inter> extent r' = {}) xs"
    using allocs_Cons.IH by auto
  have "\<forall>r\<in>set xs. extent (a, n) \<inter> extent r = {}" using IH(2) by fastforce
  with A IH show ?case by auto
qed

lemma allocs_limit:
  assumes "allocs alloc room s xs s'" and "inv s"
  shows "limit s' = limit s"
  using assms by (induction rule: allocs.induct) (auto dest: alloc_Ok)

end

interpretation fsm: space_allocator fsm_inv fsm_headroom free_sectors device_sectors
  allocate_sectors release_sectors
proof unfold_locales
  fix f f' n a
  assume inv: "fsm_inv f" and room: "fsm_headroom f" and ok: "allocate_sectors f n = (f', Ok a)"
  then have n: "0 < n" by (auto simp: allocate_sectors_def split: if_splits)
  from inv room n show "0 < n \<and> fsm_inv f' \<and> {a..<a + n} \<subseteq> free_sectors f \<and>
      free_sectors f' = free_sectors f - {a..<a + n} \<and> device_sectors f' = device_sectors f"
  proof (cases rule: allocate_sectors_cases)
    case (Fit a' m g)
    with ok n show ?thesis
      using free_of_take[OF fsm_invD(4)[OF inv] Fit(2) n Fit(3)] chunk_take_sub[of "chunks f" a' m n] Fit(2,3)
      by (auto simp: device_sectors_def)
  qed (use ok in simp)
next
  fix f f' n e
  assume "fsm_inv f" "fsm_headroom f" "allocate_sectors f n = (f', Err e)"
  then show "f' = f"
    by (cases "n = 0") (auto simp: allocate_sectors_def elim: allocate_sectors_cases)
next
  fix f n
  assume "fsm_inv f" "fsm_headroom f"
  then show "snd (allocate_sectors f n) \<noteq> Panic"
    by (cases "n = 0") (auto simp: allocate_sectors_def elim: allocate_sectors_cases)
next
  fix f n a
  assume A: "fsm_inv f" "fsm_headroom f" "0 < n" "METADATA_BLOCK_SIZE \<le> a" "a + n \<le> device_sectors f"
    "{a..<a + n} \<inter> free_sectors f = {}"
  obtain f' prev where R: "release_sectors f a n = (f', Ok ())" "is_prev (chunks f) a prev"
    "chunks f' = chunk_give (chunks f) prev a n" "fsm_inv f'" "persistence_size f' = persistence_size f"
    by (rule release_sectors_ok[OF A])
  then show "\<exists>f'. release_sectors f a n = (f', Ok ()) \<and> fsm_inv f' \<and>
      free_sectors f' = free_sectors f \<union> {a..<a + n} \<and> device_sectors f' = device_sectors f"
    using free_of_give[OF fsm_invD(4)[OF A(1)] R(2) A(4,3,6)] by (auto simp: device_sectors_def)
next
  show "fsm_inv f \<Longrightarrow> free_sectors f \<subseteq> {METADATA_BLOCK_SIZE..<device_sectors f}" for f
    using free_of_range fsm_invD(4) by blast
qed

section \<open>Properties\<close>

text \<open>The manager right after \<open>initialize\<close> on a 4 MiB device, used by the witnesses.\<close>

definition demo_fsm :: free_space_manager where
  "demo_fsm = fst (initialize fsm_new 4194304)"

lemma demo_fsm_facts:
  "fsm_inv demo_fsm" "fsm_headroom demo_fsm" "chunks demo_fsm = [16 \<mapsto> 1008]"
  "device_sectors demo_fsm = 1024" "total_free demo_fsm = 4128768"
proof -
  have "METADATA_BLOCK_SIZE < (4194304 :: nat) div BLOCK_SIZE" "(4194304 :: nat) < U64_LIM"
    by (simp_all add: kv_const U64_LIM_def)
  from initialize_ok[OF this] obtain f where f: "initialize fsm_new 4194304 = (f, Ok ())" "fsm_inv f"
    "persistence_size f = 4194304" "chunks f = [16 \<mapsto> 1008]" "total_free f = 4128768"
    by (auto simp: kv_const)
  then show "fsm_inv demo_fsm" "fsm_headroom demo_fsm" "chunks demo_fsm = [16 \<mapsto> 1008]"
    "device_sectors demo_fsm = 1024" "total_free demo_fsm = 4128768"
    by (simp_all add: demo_fsm_def fsm_headroom_def device_sectors_def kv_const U64_LIM_def)
qed

lemma demo_free: "free_sectors demo_fsm = {16..<1024}"
  by (auto simp: demo_fsm_facts(3) free_of_def)

lemma demo_alloc:
  "\<exists>f'. allocate_sectors demo_fsm 8 = (f', Ok 16) \<and> fsm_headroom f' \<and> fsm_inv f' \<and>
    total_free f' + 8 * BLOCK_SIZE = total_free demo_fsm + 1000 * BLOCK_SIZE"
proof -
  obtain a m f' where A: "allocate_sectors demo_fsm 8 = (f', Ok a)" "chunks demo_fsm a = Some m"
    "fsm_inv f'" "persistence_size f' = persistence_size demo_fsm"
    "total_free f' + 8 * BLOCK_SIZE = total_free demo_fsm + (m - 8) * BLOCK_SIZE"
  proof (rule allocate_sectors_cases[OF demo_fsm_facts(1,2), of 8])
    assume "\<And>s k. chunks demo_fsm s = Some k \<Longrightarrow> k < 8"
    from this[of 16 1008] show thesis by (simp add: demo_fsm_facts(3))
  qed simp_all
  from A(2) have "a = 16" "m = 1008" by (auto simp: demo_fsm_facts(3) split: if_splits)
  with A demo_fsm_facts show ?thesis by (auto simp: fsm_headroom_def device_sectors_def kv_const U64_LIM_def)
qed

text \<open>
  C15. Best fit. On a consistent manager an allocation of \<open>n > 0\<close> sectors either succeeds at the
  start of the chunk that is least by (size, start) among those of at least \<open>n\<close> sectors, taking
  exactly \<open>n\<close> sectors from its front, or returns \<open>OutOfSpace\<close> with the state unchanged, and then
  no chunk has \<open>n\<close> sectors. It never panics and never fails otherwise.
\<close>

theorem allocate_best_fit:
  assumes "fsm_inv f" and "fsm_headroom f" and "0 < n"
  shows "(\<exists>f' a m. allocate_sectors f n = (f', Ok a) \<and> chunks f a = Some m \<and> n \<le> m \<and>
            (\<forall>s k. chunks f s = Some k \<and> n \<le> k \<longrightarrow> (m, a) \<le> (k, s)) \<and>
            chunks f' = chunk_take (chunks f) a n \<and> fsm_inv f') \<or>
         (allocate_sectors f n = (f, Err OutOfSpace) \<and> (\<forall>s k. chunks f s = Some k \<longrightarrow> k < n))"
  using assms by (cases rule: allocate_sectors_cases) blast+

theorem allocate_best_fit_witness:
  "(\<exists>f' a m. allocate_sectors demo_fsm 100 = (f', Ok a) \<and> chunks demo_fsm a = Some m \<and> 100 \<le> m \<and>
      (\<forall>s k. chunks demo_fsm s = Some k \<and> 100 \<le> k \<longrightarrow> (m, a) \<le> (k, s)) \<and>
      chunks f' = chunk_take (chunks demo_fsm) a 100 \<and> fsm_inv f') \<or>
   (allocate_sectors demo_fsm 100 = (demo_fsm, Err OutOfSpace) \<and>
      (\<forall>s k. chunks demo_fsm s = Some k \<longrightarrow> k < 100))"
  by (rule allocate_best_fit) (simp_all add: demo_fsm_facts)

text \<open>
  C16. Release. Giving back a range of the data area that is not free succeeds, adds exactly these
  sectors to the free set, keeps the invariant (so the range is coalesced: no two chunks touch),
  counts its bytes and leaves the fragmentation percentage at most 100.
\<close>

theorem release_coalesces:
  assumes "fsm_inv f" and "fsm_headroom f" and "0 < n" and "METADATA_BLOCK_SIZE \<le> s"
    and "s + n \<le> device_sectors f" and "{s..<s + n} \<inter> free_sectors f = {}"
  shows "\<exists>f'. release_sectors f s n = (f', Ok ()) \<and> fsm_inv f' \<and>
    free_sectors f' = free_sectors f \<union> {s..<s + n} \<and>
    get_total_free f' = get_total_free f + n * BLOCK_SIZE \<and> get_fragmentation_percent f' \<le> 100"
proof -
  obtain f' prev where R: "release_sectors f s n = (f', Ok ())" "fsm_inv f'"
    "total_free f' = total_free f + n * BLOCK_SIZE" "fragmentation_percent f' \<le> 100"
    by (rule release_sectors_ok[OF assms])
  moreover have "free_sectors f' = free_sectors f \<union> {s..<s + n}"
    using fsm.release_Ok[OF assms] R(1) by auto
  ultimately show ?thesis by (simp add: get_total_free_def get_fragmentation_percent_def)
qed

theorem release_coalesces_witness:
  "\<exists>f'. release_sectors (fst (allocate_sectors demo_fsm 8)) 16 8 = (f', Ok ()) \<and> fsm_inv f' \<and>
    free_sectors f' = free_sectors (fst (allocate_sectors demo_fsm 8)) \<union> {16..<16 + 8} \<and>
    get_total_free f' = get_total_free (fst (allocate_sectors demo_fsm 8)) + 8 * BLOCK_SIZE \<and>
    get_fragmentation_percent f' \<le> 100"
proof -
  from demo_alloc obtain f' where A: "allocate_sectors demo_fsm 8 = (f', Ok 16)" "fsm_headroom f'"
    by blast
  have f': "fst (allocate_sectors demo_fsm 8) = f'" using A(1) by simp
  note alloc = fsm.alloc_Ok[OF demo_fsm_facts(1,2) A(1)]
  have "free_sectors f' = {16..<1024} - {16..<24}" using alloc demo_free by simp
  then show ?thesis
    unfolding f' using A(2) alloc demo_fsm_facts(4)
    by (intro release_coalesces) (auto simp: kv_const)
qed

text \<open>
  C17. Round trip. Giving back the sectors an allocation returned restores both indexes exactly.
  The byte counter does not come back: when the chunk was split, \<open>total_free\<close> ends higher by the
  bytes of the remainder, which \<open>allocate_sectors\<close> counts twice.
\<close>

theorem alloc_release_roundtrip:
  assumes "fsm_inv f" and "fsm_headroom f" and "allocate_sectors f n = (f', Ok a)"
    and "fsm_headroom f'"
  shows "\<exists>f'' m. release_sectors f' a n = (f'', Ok ()) \<and>
    by_size f'' = by_size f \<and> by_start f'' = by_start f \<and>
    chunks f a = Some m \<and> total_free f'' = total_free f + (m - n) * BLOCK_SIZE"
proof -
  note I = fsm_invD[OF assms(1)] and A = fsm.alloc_Ok[OF assms(1-3)]
  from A have n: "0 < n" by simp
  with assms(1,2) obtain m where F: "chunks f a = Some m" "n \<le> m"
    "chunks f' = chunk_take (chunks f) a n" "fsm_inv f'" "persistence_size f' = persistence_size f"
    "total_free f' + n * BLOCK_SIZE = total_free f + (m - n) * BLOCK_SIZE"
    by (cases rule: allocate_sectors_cases) (use assms(3) in auto)
  note B = fsm.alloc_bounds[OF assms(1-3)]
  have "a + n \<le> device_sectors f'" "{a..<a + n} \<inter> free_sectors f' = {}" using A B by auto
  from release_sectors_ok[OF F(4) assms(4) n B(1) this] obtain f'' prev where
    R: "release_sectors f' a n = (f'', Ok ())" "is_prev (chunks f') a prev"
    "chunks f'' = chunk_give (chunks f') prev a n" "fsm_inv f''"
    "total_free f'' = total_free f' + n * BLOCK_SIZE" by metis
  have "prev = None"
    using R(2) take_no_prev[OF I(4) F(1) n F(2)] F(3)
    by (cases prev) (auto simp: is_prev_def)
  with R(3) F(3) give_take[OF I(4) F(1) n F(2)] have "chunks f'' = chunks f" by simp
  from idx_wf_unique[OF fsm_invD(1)[OF R(4)] I(1) this] R(1,5) F(1,6) show ?thesis by auto
qed

theorem alloc_release_roundtrip_witness:
  "\<exists>f' f'' m. allocate_sectors demo_fsm 8 = (f', Ok 16) \<and> release_sectors f' 16 8 = (f'', Ok ()) \<and>
    by_size f'' = by_size demo_fsm \<and> by_start f'' = by_start demo_fsm \<and>
    chunks demo_fsm 16 = Some m \<and> total_free f'' = total_free demo_fsm + (m - 8) * BLOCK_SIZE"
  using demo_alloc alloc_release_roundtrip[OF demo_fsm_facts(1,2)] by blast

text \<open>
  C18. The ranges returned by any sequence of successful allocations are pairwise disjoint, lie in
  the free set of the starting state, and are exactly what has left it.
\<close>

theorem successive_allocations_disjoint:
  assumes "allocs allocate_sectors fsm_headroom f ranges f'" and "fsm_inv f"
  shows "(\<forall>r\<in>set ranges. extent r \<subseteq> free_sectors f) \<and>
    sorted_wrt (\<lambda>r r'. extent r \<inter> extent r' = {}) ranges \<and>
    free_sectors f' = free_sectors f - (\<Union>r\<in>set ranges. extent r)"
  using fsm.allocs_sound[OF assms] by blast

theorem successive_allocations_disjoint_witness:
  "\<exists>f'. allocs allocate_sectors fsm_headroom demo_fsm [(16, 8)] f' \<and>
     free_sectors f' = free_sectors demo_fsm - (\<Union>r\<in>set [(16, 8)]. extent r)"
proof -
  from demo_alloc obtain f' where "allocate_sectors demo_fsm 8 = (f', Ok 16)" by blast
  then have "allocs allocate_sectors fsm_headroom demo_fsm [(16, 8)] f'"
    by (rule allocs_Cons[where room = fsm_headroom, OF demo_fsm_facts(2)]) (rule allocs_Nil)
  with successive_allocations_disjoint[OF this demo_fsm_facts(1)] show ?thesis by blast
qed

text \<open>
  All runs of a client that only gives back sectors it holds. The second argument collects the
  sectors the client holds.
\<close>

inductive fsm_run :: "nat \<Rightarrow> free_space_manager \<Rightarrow> nat set \<Rightarrow> bool" for psize where
  run_init: "initialize fsm_new psize = (f, Ok ()) \<Longrightarrow> fsm_run psize f {}"
| run_alloc: "fsm_run psize f held \<Longrightarrow> fsm_headroom f \<Longrightarrow> allocate_sectors f n = (f', Ok a) \<Longrightarrow>
    fsm_run psize f' (held \<union> {a..<a + n})"
| run_alloc_fail: "fsm_run psize f held \<Longrightarrow> fsm_headroom f \<Longrightarrow> allocate_sectors f n = (f', Err e) \<Longrightarrow>
    fsm_run psize f' held"
| run_release: "fsm_run psize f held \<Longrightarrow> fsm_headroom f \<Longrightarrow> 0 < n \<Longrightarrow> {a..<a + n} \<subseteq> held \<Longrightarrow>
    release_sectors f a n = (f', r) \<Longrightarrow> fsm_run psize f' (held - {a..<a + n})"

lemma init_metadata_blocks:
  "initialize fsm_new psize = (f, Ok ()) \<Longrightarrow> METADATA_BLOCK_SIZE < psize div BLOCK_SIZE"
  by (auto simp: initialize_def Let_def split: if_splits)

text \<open>
  C19. Conservation. From \<open>initialize\<close> on, in every run of allocations (failed ones included) and of
  releases of held sectors, the free and the held sectors partition the data area of the device:
  no sector is lost, none is handed out twice, and the metadata blocks are never touched.
\<close>

theorem sectors_conserved:
  assumes "fsm_run psize f held" and "psize < U64_LIM"
  shows "fsm_inv f \<and> persistence_size f = psize \<and> held \<inter> free_sectors f = {} \<and>
    held \<union> free_sectors f = {METADATA_BLOCK_SIZE..<psize div BLOCK_SIZE}"
  using assms(1)
proof (induction rule: fsm_run.induct)
  case (run_init f)
  from initialize_ok[OF init_metadata_blocks[OF run_init] assms(2)] run_init
  show ?case by (auto simp: free_of_def kv_const)
next
  case (run_alloc f held n f' a)
  note A = fsm.alloc_Ok[OF conjunct1[OF run_alloc.IH] run_alloc.hyps(2,3)]
  have "persistence_size f' = psize"
    using run_alloc A by (elim conjE allocate_sectors_cases[of f n]) auto
  with A run_alloc.IH show ?case by auto
next
  case (run_alloc_fail f held n f' e)
  then show ?case using fsm.alloc_Err by blast
next
  case (run_release f held n a f' r)
  have "held \<subseteq> {METADATA_BLOCK_SIZE..<device_sectors f}"
    unfolding device_sectors_def using run_release.IH by blast
  with run_release.hyps(4) have "{a..<a + n} \<subseteq> {METADATA_BLOCK_SIZE..<device_sectors f}"
    by (rule order_trans)
  from atLeastLessThan_subset_iff[OF this] run_release.hyps(3)
  have b: "METADATA_BLOCK_SIZE \<le> a" "a + n \<le> device_sectors f" by auto
  have disj: "{a..<a + n} \<inter> free_sectors f = {}" using run_release by blast
  note pre = conjunct1[OF run_release.IH] run_release.hyps(2,3) b disj
  obtain g prev where "release_sectors f a n = (g, Ok ())" "persistence_size g = persistence_size f"
    by (rule release_sectors_ok[OF pre])
  with fsm.release_Ok[OF pre] run_release show ?case by auto
qed

theorem sectors_conserved_witness:
  "\<exists>f. fsm_run 4194304 f {16..<24} \<and> fsm_inv f \<and>
     {16..<24} \<union> free_sectors f = {METADATA_BLOCK_SIZE..<4194304 div BLOCK_SIZE}"
proof -
  have "initialize fsm_new 4194304 = (demo_fsm, Ok ())"
    using initialize_ok[of 4194304] by (auto simp: demo_fsm_def kv_const U64_LIM_def)
  moreover from demo_alloc obtain f' where "allocate_sectors demo_fsm 8 = (f', Ok 16)" by blast
  ultimately have "fsm_run 4194304 f' {16..<24}"
    using run_alloc[OF run_init demo_fsm_facts(2), of 4194304 8 f' 16] by simp
  with sectors_conserved[OF this] show ?thesis by (auto simp: U64_LIM_def)
qed

text \<open>
  C20. A rejected release can destroy a free chunk. Releasing a range of the reserved blocks that
  ends where the first free chunk starts is rejected with \<open>InvalidArgument\<close>, but the coalescing
  step has by then removed that chunk from both indexes: its sectors are no longer free.
\<close>

theorem release_reserved_loses_chunk:
  assumes "fsm_inv f" and "total_free f < U64_LIM" and "0 < s" and "s < METADATA_BLOCK_SIZE"
    and "chunks f METADATA_BLOCK_SIZE = Some m"
  shows "\<exists>f'. release_sectors f s (METADATA_BLOCK_SIZE - s) = (f', Err InvalidArgument) \<and>
    chunks f' = (chunks f)(METADATA_BLOCK_SIZE := None)"
proof -
  note I = fsm_invD[OF assms(1)]
  let ?n = "METADATA_BLOCK_SIZE - s"
  from merge_prev_ok[OF assms(1), of s] obtain prev where
    prev: "merge_prev f s = Ok (Option.bind prev (om_get (by_start f)))" "is_prev (chunks f) s prev"
    by blast
  have "prev = None"
    using prev(2) chunk_wfD(2)[OF I(4)] assms(4) by (cases prev) (fastforce simp: is_prev_def)+
  have lim: "METADATA_BLOCK_SIZE + m \<le> device_sectors f" using chunk_wfD(3)[OF I(4) assms(5)] .
  then have lim2: "METADATA_BLOCK_SIZE + m < U64_LIM"
    using device_bytes[OF lim] I(3) by (simp add: kv_const)
  have sum: "s + ?n = METADATA_BLOCK_SIZE" "size_at (chunks f) METADATA_BLOCK_SIZE = m"
    using assms(4,5) by (simp_all add: size_at_def)
  have "?n + m < U64_LIM" using lim2 by simp
  with absorb_at[OF I(1,5) assms(2), of ?n METADATA_BLOCK_SIZE] sum obtain f' where
    f': "absorb f (om_get (by_start f) METADATA_BLOCK_SIZE) ?n = (f', Ok (?n + m))"
    "chunks f' = (chunks f)(METADATA_BLOCK_SIZE := None)" by auto
  have "try_merge_spaces f s ?n = (f', Ok \<lparr>sect_start = s, sect_size = ?n + m\<rparr>)"
    using prev(1) \<open>prev = None\<close> f'(1) sum lim2 by (simp add: try_merge_spaces_def absorb_def)
  moreover have "is_valid_sector_range f s ?n = Ok True"
    using sum lim lim2 assms(4) I(2) chunk_wfD(1)[OF I(4) assms(5)]
    by (simp add: is_valid_sector_range_def device_sectors_def Let_def)
  moreover have "insert_free_space f' \<lparr>sect_start = s, sect_size = ?n + m\<rparr> = (f', Err InvalidArgument)"
    using assms(4) by (simp add: insert_free_space_def is_valid_free_space_def)
  ultimately have "release_sectors f s ?n = (f', Err InvalidArgument)"
    using assms(3,4) by (simp add: release_sectors_def)
  with f'(2) show ?thesis by blast
qed

theorem release_reserved_loses_chunk_witness:
  "\<exists>f'. release_sectors demo_fsm 10 6 = (f', Err InvalidArgument) \<and> chunks f' = Map.empty"
  using release_reserved_loses_chunk[OF demo_fsm_facts(1), of 10 1008] demo_fsm_facts(3,5)
  by (auto simp: kv_const U64_LIM_def)

end
