(* ===== verification/Alloc.thy ===== *)
theory Alloc
  imports KV_Constants
begin

text \<open>
  The allocator of src/utils/allocator.rs (its unix half). The memory provider is the argument
  \<open>sys\<close>: the global allocator, \<open>posix_memalign\<close> and \<open>mmap\<close>, each returning an address or failing.
  What the code itself does is the choice between them, the rounding of sizes, the byte counter
  \<open>TOTAL_ALLOCATED\<close> (the threaded state), and the bookkeeping of \<open>AlignedBuffer\<close>. The bytes of a fresh
  buffer are whatever the provider left there, the argument \<open>mem\<close>.
\<close>

unbundle bit_operations_syntax

section \<open>Allocation\<close>

record sysmem =
  sys_alloc :: "nat \<Rightarrow> nat \<Rightarrow> nat option"
  sys_memalign :: "nat \<Rightarrow> nat \<Rightarrow> nat option"
  sys_mmap :: "nat \<Rightarrow> nat option"

fun non_null :: "nat option \<Rightarrow> nat res" where
  "non_null (Some p) = Ok p"
| "non_null None = Err AllocationFailed"

text \<open>\<open>Layout::from_size_align\<close> refuses a size whose rounding exceeds \<open>isize::MAX\<close>.\<close>

definition layout_ok :: "nat \<Rightarrow> nat \<Rightarrow> bool" where
  "layout_ok sz align \<longleftrightarrow> sz + (align - 1) \<le> 2 ^ 63 - 1"

definition allocate_small :: "sysmem \<Rightarrow> nat \<Rightarrow> nat res" where
  "allocate_small sys sz = (if layout_ok sz 8 then non_null (sys_alloc sys sz 8) else Err AllocationFailed)"

text \<open>\<open>(size + PAGE_MASK) & !PAGE_MASK\<close> on \<open>usize\<close>; the addition is overflow-checked.\<close>

definition page_align :: "nat \<Rightarrow> nat option" where
  "page_align sz =
     map_option (\<lambda>n. unat ((of_nat n :: 64 word) AND NOT (of_nat PAGE_MASK))) (checked_add sz PAGE_MASK)"

definition allocate_large :: "sysmem \<Rightarrow> nat \<Rightarrow> nat res" where
  "allocate_large sys sz = bind_outcome (or_panic (page_align sz)) (\<lambda>n. non_null (sys_mmap sys n))"

definition allocate :: "sysmem \<Rightarrow> nat \<Rightarrow> nat \<Rightarrow> nat \<times> nat res" where
  "allocate sys sz allocated =
     try_bind (allocated, if sz \<le> MALLOC_LIMIT then allocate_small sys sz else allocate_large sys sz)
       (\<lambda>ptr total. (wrapping_add total sz, Ok ptr))"

definition allocate_aligned :: "sysmem \<Rightarrow> nat \<Rightarrow> nat \<Rightarrow> nat \<Rightarrow> nat \<times> nat res" where
  "allocate_aligned sys sz alignment allocated =
     try_bind (allocated, non_null (sys_memalign sys alignment sz))
       (\<lambda>ptr total. (wrapping_add total sz, Ok ptr))"

text \<open>The length handed back to \<open>munmap\<close> or \<open>dealloc\<close>; what the provider does with it is its own.\<close>

definition released_bytes :: "nat \<Rightarrow> nat option" where
  "released_bytes sz = (if sz \<le> MALLOC_LIMIT then Some sz else page_align sz)"

definition deallocate :: "nat \<Rightarrow> nat \<Rightarrow> nat \<times> unit res" where
  "deallocate sz allocated =
     (case released_bytes sz of
        None \<Rightarrow> (allocated, Panic)
      | Some _ \<Rightarrow> (wrapping_sub allocated sz, Ok ()))"

definition deallocate_aligned :: "nat \<Rightarrow> nat \<Rightarrow> nat" where
  "deallocate_aligned sz allocated = wrapping_sub allocated sz"

section \<open>Aligned buffers\<close>

record aligned_buffer =
  ab_ptr :: nat
  ab_mem :: bytes
  ab_size :: nat
  ab_capacity :: nat
  ab_is_aligned :: bool
  ab_alignment :: nat

text \<open>\<open>capacity.div_ceil(alignment) * alignment\<close> is overflow-checked too.\<close>

definition aligned_capacity :: "nat \<Rightarrow> nat option" where
  "aligned_capacity capacity = checked_mul (div_ceil capacity BLOCK_SIZE) BLOCK_SIZE"

definition buffer_new :: "sysmem \<Rightarrow> bytes \<Rightarrow> nat \<Rightarrow> nat \<Rightarrow> nat \<times> aligned_buffer res" where
  "buffer_new sys mem capacity allocated =
     (case aligned_capacity capacity of
        None \<Rightarrow> (allocated, Panic)
      | Some cap \<Rightarrow>
          try_bind (allocate_aligned sys cap BLOCK_SIZE allocated) (\<lambda>ptr total.
            (total, Ok \<lparr>ab_ptr = ptr, ab_mem = mem, ab_size = 0, ab_capacity = cap,
                        ab_is_aligned = True, ab_alignment = BLOCK_SIZE\<rparr>)))"

definition buffer_as_slice :: "aligned_buffer \<Rightarrow> bytes" where
  "buffer_as_slice b = take (ab_size b) (ab_mem b)"

definition buffer_set_len :: "nat \<Rightarrow> aligned_buffer \<Rightarrow> aligned_buffer res" where
  "buffer_set_len n b = (if n \<le> ab_capacity b then Ok (b\<lparr>ab_size := n\<rparr>) else Panic)"

text \<open>\<open>as_mut_slice().copy_from_slice(data)\<close> panics when the lengths differ.\<close>

definition buffer_copy_from :: "bytes \<Rightarrow> aligned_buffer \<Rightarrow> aligned_buffer res" where
  "buffer_copy_from data b =
     (if length data = ab_size b then Ok (b\<lparr>ab_mem := data @ drop (ab_size b) (ab_mem b)\<rparr>) else Panic)"

definition buffer_is_empty :: "aligned_buffer \<Rightarrow> bool" where
  "buffer_is_empty b \<longleftrightarrow> ab_size b = 0"

definition buffer_clear :: "aligned_buffer \<Rightarrow> aligned_buffer" where
  "buffer_clear b = b\<lparr>ab_size := 0\<rparr>"

definition buffer_drop :: "aligned_buffer \<Rightarrow> nat \<Rightarrow> nat \<times> unit res" where
  "buffer_drop b allocated =
     (if ab_is_aligned b then (deallocate_aligned (ab_capacity b) allocated, Ok ())
      else deallocate (ab_capacity b) allocated)"

section \<open>Rounding\<close>

lemma unat_and_not_mask:
  fixes w :: "64 word"
  shows "unat (w AND NOT (mask n)) = unat w div 2 ^ n * 2 ^ n"
proof -
  have "w AND NOT (mask n) = push_bit n (drop_bit n w)"
    by (rule bit_word_eqI) (auto simp: bit_simps)
  moreover have "unat (push_bit n (drop_bit n w)) = unat w div 2 ^ n * 2 ^ n"
  proof -
    have "unat w div 2 ^ n * 2 ^ n \<le> unat w" by simp
    moreover have "unat w < 2 ^ 64" using unsigned_less[of w] by simp
    ultimately have "unat w div 2 ^ n * 2 ^ n < 2 ^ 64" by (rule le_less_trans)
    moreover have "take_bit 64 (unat w) = unat w"
      by (rule take_bit_nat_eq_self) (use unsigned_less[of w] in simp)
    ultimately show ?thesis
      unfolding unsigned_push_bit_eq unsigned_drop_bit_eq
      by (simp add: take_bit_nat_eq_self push_bit_eq_mult [where ?'a = nat] drop_bit_eq_div [where ?'a = nat])
  qed
  ultimately show ?thesis by simp
qed

lemma page_align_eq:
  assumes "sz + PAGE_MASK < U64_LIM"
  shows "page_align sz = Some (div_ceil sz PAGE_SIZE * PAGE_SIZE)"
proof -
  have m: "(of_nat PAGE_MASK :: 64 word) = mask 12" by (simp add: kv_const mask_eq_exp_minus_1)
  have "unat (of_nat (sz + PAGE_MASK) :: 64 word) = sz + PAGE_MASK"
    using assms by (simp add: unat_of_nat U64_LIM_def del: of_nat_add)
  then have "page_align sz = Some ((sz + PAGE_MASK) div 4096 * 4096)"
    using assms by (simp add: page_align_def m unat_and_not_mask del: of_nat_add)
  also have "(sz + PAGE_MASK) div 4096 = div_ceil sz PAGE_SIZE"
    using div_ceil_alt[of PAGE_SIZE sz] by (simp add: kv_const)
  finally show ?thesis by (simp add: kv_const)
qed

lemma aligned_capacity_eq:
  assumes "capacity + BLOCK_SIZE < U64_LIM"
  shows "aligned_capacity capacity = Some (div_ceil capacity BLOCK_SIZE * BLOCK_SIZE)"
proof -
  have "div_ceil capacity BLOCK_SIZE * BLOCK_SIZE < capacity + BLOCK_SIZE"
    by (rule div_ceil_bounds) (simp add: kv_const)
  with assms show ?thesis by (simp add: aligned_capacity_def)
qed

section \<open>Properties\<close>

text \<open>
  C39. Page rounding. For every size that does not overflow, the mask expression yields the least
  multiple of the page size that holds the request, and \<open>deallocate\<close> hands back exactly the length
  that \<open>allocate\<close> mapped.
\<close>

theorem page_align_least:
  assumes "sz + PAGE_MASK < U64_LIM"
  shows "\<exists>n. page_align sz = Some n \<and> sz \<le> n \<and> PAGE_SIZE dvd n \<and>
    (\<forall>m. PAGE_SIZE dvd m \<and> sz \<le> m \<longrightarrow> n \<le> m) \<and>
    (MALLOC_LIMIT < sz \<longrightarrow> released_bytes sz = Some n)"
proof -
  let ?n = "div_ceil sz PAGE_SIZE * PAGE_SIZE"
  have pos: "0 < PAGE_SIZE" by (simp add: kv_const)
  note b = div_ceil_bounds[OF pos, of sz]
  have least: "?n \<le> m" if "PAGE_SIZE dvd m" "sz \<le> m" for m
  proof -
    from that(1) obtain k where m: "m = k * PAGE_SIZE" by (auto simp: dvd_def mult.commute)
    have "div_ceil sz PAGE_SIZE * PAGE_SIZE < Suc k * PAGE_SIZE"
      using b(2) that(2) by (simp add: m)
    then have "div_ceil sz PAGE_SIZE \<le> k" by (simp only: mult_less_cancel2 less_Suc_eq_le)
    then show ?thesis by (simp add: m)
  qed
  show ?thesis
    by (rule exI[of _ ?n]) (use b(1) least page_align_eq[OF assms] in \<open>simp add: released_bytes_def\<close>)
qed

theorem page_align_least_witness: "page_align 8193 = Some 12288"
proof -
  have "(8193 :: nat) + PAGE_MASK < U64_LIM" by (simp add: kv_const U64_LIM_def)
  from page_align_least[OF this] obtain n where n: "page_align 8193 = Some n" "8193 \<le> n" "PAGE_SIZE dvd n"
    "\<And>m. PAGE_SIZE dvd m \<Longrightarrow> 8193 \<le> m \<Longrightarrow> n \<le> m" by blast
  have "n \<le> 12288" by (rule n(4)) (simp_all add: kv_const)
  moreover from n(3) obtain k where "n = 4096 * k" by (auto simp: kv_const)
  ultimately show ?thesis using n(1,2) by (cases "k \<le> 2") auto
qed

text \<open>
  C38. A direct-I/O buffer carries the data. A buffer made for the data, set to its length and filled
  from it, reads back exactly the data; its capacity is a multiple of the block size; and dropping
  it restores the allocation counter.
\<close>

theorem aligned_buffer_roundtrip:
  assumes "length data + BLOCK_SIZE < U64_LIM" "tot < U64_LIM"
    and "sys_memalign sys BLOCK_SIZE (div_ceil (length data) BLOCK_SIZE * BLOCK_SIZE) = Some p"
    and "buffer_new sys mem (length data) tot = (tot1, r)"
  shows "\<exists>b b1 b2. r = Ok b \<and> buffer_set_len (length data) b = Ok b1 \<and> buffer_copy_from data b1 = Ok b2 \<and>
    buffer_as_slice b2 = data \<and> BLOCK_SIZE dvd ab_capacity b2 \<and> buffer_drop b2 tot1 = (tot, Ok ())"
proof -
  let ?cap = "div_ceil (length data) BLOCK_SIZE * BLOCK_SIZE"
  have "length data \<le> ?cap" by (rule div_ceil_bounds) (simp add: kv_const)
  with assms(3,4) aligned_capacity_eq[OF assms(1)] wrapping_sub_add[OF assms(2)] show ?thesis
    by (auto simp: buffer_new_def allocate_aligned_def buffer_set_len_def buffer_copy_from_def
        buffer_as_slice_def buffer_drop_def deallocate_aligned_def)
qed

theorem aligned_buffer_roundtrip_witness:
  "\<exists>b b1 b2. snd (buffer_new \<lparr>sys_alloc = (\<lambda>_ _. None), sys_memalign = (\<lambda>_ _. Some 8192),
      sys_mmap = (\<lambda>_. None)\<rparr> [] 3 0) = Ok b \<and>
    buffer_set_len 3 b = Ok b1 \<and> buffer_copy_from [1, 2, 3] b1 = Ok b2 \<and> buffer_as_slice b2 = [1, 2, 3]"
proof -
  let ?sys = "\<lparr>sys_alloc = (\<lambda>_ _. None), sys_memalign = (\<lambda>_ _. Some 8192), sys_mmap = (\<lambda>_. None)\<rparr>"
  have n: "length [1, 2, 3 :: byte] = 3" by simp
  have "(3 :: nat) + BLOCK_SIZE < U64_LIM" "(0 :: nat) < U64_LIM" by (simp_all add: kv_const U64_LIM_def)
  from aligned_buffer_roundtrip[of "[1, 2, 3]" 0 ?sys 8192 "[]", unfolded n, OF this _ prod.collapse[symmetric]]
  show ?thesis by auto
qed

end
