(* ===== verification/Disk_IO.thy ===== *)
theory Disk_IO
  imports Alloc Codec
begin

text \<open>
  The device layer of src/storage/io.rs (its linux half). The operating system is the argument \<open>os\<close>,
  a record of the calls the code makes over a state of type \<open>'w\<close>: \<open>pread\<close>, \<open>pwrite\<close>, \<open>fsync\<close>, and the
  submission and completion queues of \<open>io_uring\<close>. The locale \<open>block_device\<close> collects what the code
  relies on; it is interpreted at the end on a file in memory.
\<close>

section \<open>The operating system\<close>

record 'w os =
  os_mem :: sysmem
  os_pread :: "int \<Rightarrow> nat \<Rightarrow> 'w \<Rightarrow> 'w \<times> (int + bytes)"
  os_pwrite :: "int \<Rightarrow> bytes \<Rightarrow> 'w \<Rightarrow> 'w \<times> (int + nat)"
  os_fsync :: "'w \<Rightarrow> 'w \<times> int option"
  os_sq_push :: "nat \<Rightarrow> bytes \<Rightarrow> 'w \<Rightarrow> 'w \<times> bool"
  os_submit_and_wait :: "nat \<Rightarrow> 'w \<Rightarrow> 'w \<times> (io_error + nat)"
  os_completions :: "'w \<Rightarrow> int list"
  os_consume :: "nat \<Rightarrow> 'w \<Rightarrow> 'w"

text \<open>
  \<open>DiskIO\<close>: whether a ring was built, and whether direct I/O is in use. \<open>built\<close> and \<open>probed\<close> are what
  \<open>IoUring::builder().build\<close> and the probe for the read and write opcodes report.
\<close>

record disk_io =
  d_ring :: bool
  d_use_direct_io :: bool

definition disk_io_new :: "bool \<Rightarrow> bool \<Rightarrow> bool \<Rightarrow> disk_io" where
  "disk_io_new built probed use_direct_io =
     (if built \<and> probed then \<lparr>d_ring = built, d_use_direct_io = use_direct_io\<rparr>
      else \<lparr>d_ring = built, d_use_direct_io = False\<rparr>)"

text \<open>\<open>offset as libc::off_t\<close>: reinterpretation of a \<open>u64\<close> as an \<open>i64\<close>.\<close>

definition as_off_t :: "nat \<Rightarrow> int" where
  "as_off_t n = (if n < 2 ^ 63 then int n else int n - 2 ^ 64)"

section \<open>Operations\<close>

definition do_pread :: "'w os \<Rightarrow> nat \<Rightarrow> nat \<Rightarrow> 'w \<Rightarrow> 'w \<times> bytes res" where
  "do_pread os sz offset w =
     (case os_pread os (as_off_t offset) sz w of
        (w', Inl e) \<Rightarrow> (w', Err (IoError (OsError e)))
      | (w', Inr bs) \<Rightarrow> if length bs \<noteq> sz then (w', Err (IoError UnexpectedEof)) else (w', Ok bs))"

text \<open>The aligned buffer a direct transfer needs: \<open>new\<close> and \<open>set_len\<close>.\<close>

definition io_buffer :: "'w os \<Rightarrow> nat \<Rightarrow> aligned_buffer res" where
  "io_buffer os sz = bind_outcome (snd (buffer_new (os_mem os) [] sz 0)) (buffer_set_len sz)"

definition read_sectors_sync :: "'w os \<Rightarrow> disk_io \<Rightarrow> nat \<Rightarrow> nat \<Rightarrow> 'w \<Rightarrow> 'w \<times> bytes res" where
  "read_sectors_sync os d sector count w =
     try_bind (w, or_panic (checked_mul count BLOCK_SIZE)) (\<lambda>sz w.
     try_bind (w, or_panic (checked_mul sector BLOCK_SIZE)) (\<lambda>offset w.
       if d_use_direct_io d
       then try_bind (w, io_buffer os sz) (\<lambda>buffer w. do_pread os sz offset w)
       else do_pread os sz offset w))"

text \<open>The bytes handed to \<open>pwrite\<close>: the data itself, or its copy in an aligned buffer.\<close>

definition write_image :: "'w os \<Rightarrow> bytes \<Rightarrow> bytes res" where
  "write_image os data =
     bind_outcome (io_buffer os (length data)) (\<lambda>b.
     bind_outcome (buffer_copy_from data b) (\<lambda>b. Ok (buffer_as_slice b)))"

definition write_sectors_sync :: "'w os \<Rightarrow> disk_io \<Rightarrow> nat \<Rightarrow> bytes \<Rightarrow> 'w \<Rightarrow> 'w \<times> unit res" where
  "write_sectors_sync os d sector data w =
     try_bind (w, or_panic (checked_mul sector BLOCK_SIZE)) (\<lambda>offset w.
     try_bind (w, if d_use_direct_io d then write_image os data else Ok data) (\<lambda>img w.
       case os_pwrite os (as_off_t offset) img w of
         (w', Inl e) \<Rightarrow> (w', Err (IoError (OsError e)))
       | (w', Inr written) \<Rightarrow>
           if written \<noteq> length data then (w', Err (IoError UnexpectedEof)) else (w', Ok ())))"

definition disk_flush :: "'w os \<Rightarrow> 'w \<Rightarrow> 'w \<times> unit res" where
  "disk_flush os w =
     (case os_fsync os w of
        (w', Some e) \<Rightarrow> (w', Err (IoError (OsError e)))
      | (w', None) \<Rightarrow> (w', Ok ()))"

text \<open>The synchronous batch: the first failing write ends it.\<close>

fun write_each :: "'w os \<Rightarrow> disk_io \<Rightarrow> (nat \<times> bytes) list \<Rightarrow> 'w \<Rightarrow> 'w \<times> unit res" where
  "write_each os d [] w = (w, Ok ())"
| "write_each os d ((sector, data) # writes) w =
     try_bind (write_sectors_sync os d sector data w) (\<lambda>u w. write_each os d writes w)"

text \<open>The ring batch: buffers for a chunk, one submission entry per write, one wait, then the
  completions up to the number of submitted entries or the first error.\<close>

fun image_each :: "'w os \<Rightarrow> (nat \<times> bytes) list \<Rightarrow> bytes list res" where
  "image_each os [] = Ok []"
| "image_each os ((sector, data) # writes) =
     bind_outcome (write_image os data) (\<lambda>i. bind_outcome (image_each os writes) (\<lambda>is. Ok (i # is)))"

fun push_each :: "'w os \<Rightarrow> (nat \<times> bytes) list \<Rightarrow> 'w \<Rightarrow> 'w \<times> unit res" where
  "push_each os [] w = (w, Ok ())"
| "push_each os ((sector, img) # writes) w =
     try_bind (w, or_panic (checked_mul sector BLOCK_SIZE)) (\<lambda>offset w.
       case os_sq_push os offset img w of
         (w', True) \<Rightarrow> push_each os writes w'
       | (w', False) \<Rightarrow> (w', Err (IoError OtherIo)))"

fun reap :: "nat \<Rightarrow> nat \<Rightarrow> int list \<Rightarrow> nat \<times> unit res" where
  "reap submitted completed [] = (completed, Ok ())"
| "reap submitted completed (r # rs) =
     (if r < 0 then (completed + 1, Err (IoError (OsError (- r))))
      else if submitted \<le> completed + 1 then (completed + 1, Ok ())
      else reap submitted (completed + 1) rs)"

definition write_chunk :: "'w os \<Rightarrow> (nat \<times> bytes) list \<Rightarrow> 'w \<Rightarrow> 'w \<times> unit res" where
  "write_chunk os chunk w =
     try_bind (w, image_each os chunk) (\<lambda>images w.
     try_bind (push_each os (zip (map fst chunk) images) w) (\<lambda>u w.
       case os_submit_and_wait os (length chunk) w of
         (w', Inl e) \<Rightarrow> (w', Err (IoError e))
       | (w', Inr submitted) \<Rightarrow>
           (case reap submitted 0 (os_completions os w') of
              (n, r) \<Rightarrow> (os_consume os n w', r))))"

text \<open>\<open>writes.chunks(n)\<close>.\<close>

function chunks_of :: "nat \<Rightarrow> 'a list \<Rightarrow> 'a list list" where
  "chunks_of n xs = (if xs = [] \<or> n = 0 then [] else take n xs # chunks_of n (drop n xs))"
  by pat_completeness auto
termination
  by (relation "measure (\<lambda>(n, xs). length xs)") auto

declare chunks_of.simps [simp del]

fun write_chunks :: "'w os \<Rightarrow> (nat \<times> bytes) list list \<Rightarrow> 'w \<Rightarrow> 'w \<times> unit res" where
  "write_chunks os [] w = (w, Ok ())"
| "write_chunks os (c # cs) w = try_bind (write_chunk os c w) (\<lambda>u w. write_chunks os cs w)"

definition batch_write :: "'w os \<Rightarrow> disk_io \<Rightarrow> (nat \<times> bytes) list \<Rightarrow> 'w \<Rightarrow> 'w \<times> unit res" where
  "batch_write os d writes w =
     (if d_ring d
      then try_bind (write_chunks os (chunks_of IOURING_MAX_BATCH writes) w) (\<lambda>u w. disk_flush os w)
      else write_each os d writes w)"

definition read_metadata :: "'w os \<Rightarrow> disk_io \<Rightarrow> 'w \<Rightarrow> 'w \<times> bytes res" where
  "read_metadata os d w = read_sectors_sync os d METADATA_BLOCK 1 w"

definition write_metadata :: "'w os \<Rightarrow> disk_io \<Rightarrow> bytes \<Rightarrow> 'w \<Rightarrow> 'w \<times> unit res" where
  "write_metadata os d meta w =
     (if BLOCK_SIZE < length meta then (w, Err InvalidValueSize)
      else let block_data = meta @ replicate (BLOCK_SIZE - length meta) 0
           in try_bind (write_sectors_sync os d METADATA_BLOCK block_data w) (\<lambda>u w. disk_flush os w))"

text \<open>\<open>shutdown\<close> waits for the ring and discards what is left in its completion queue.\<close>

definition disk_shutdown :: "'w os \<Rightarrow> disk_io \<Rightarrow> 'w \<Rightarrow> 'w \<times> disk_io" where
  "disk_shutdown os d w =
     (let w1 = (if d_ring d
                then (case os_submit_and_wait os 0 w of
                        (w', Inr _) \<Rightarrow> os_consume os (length (os_completions os w')) w'
                      | (w', Inl _) \<Rightarrow> w')
                else w)
      in (w1, d\<lparr>d_ring := False\<rparr>))"

section \<open>File content\<close>

text \<open>The content of a file as a function on offsets; overwriting and reading a range of it.\<close>

definition put :: "nat \<Rightarrow> bytes \<Rightarrow> (nat \<Rightarrow> byte) \<Rightarrow> nat \<Rightarrow> byte" where
  "put off bs m = (\<lambda>i. if off \<le> i \<and> i < off + length bs then bs ! (i - off) else m i)"

definition fetch :: "nat \<Rightarrow> nat \<Rightarrow> (nat \<Rightarrow> byte) \<Rightarrow> bytes" where
  "fetch off n m = map m [off..<off + n]"

definition write_all :: "(nat \<times> bytes) list \<Rightarrow> (nat \<Rightarrow> byte) \<Rightarrow> nat \<Rightarrow> byte" where
  "write_all ws m = fold (\<lambda>(sector, data). put (sector * BLOCK_SIZE) data) ws m"

lemma length_fetch [simp]: "length (fetch off n m) = n"
  by (simp add: fetch_def)

lemma fetch_put_same: "length bs = n \<Longrightarrow> fetch off n (put off bs m) = bs"
  by (rule nth_equalityI) (auto simp: fetch_def put_def)

lemma put_outside: "i < off \<or> off + length bs \<le> i \<Longrightarrow> put off bs m i = m i"
  by (auto simp: put_def)

lemma fetch_cong: "(\<And>i. off \<le> i \<Longrightarrow> i < off + n \<Longrightarrow> m i = m' i) \<Longrightarrow> fetch off n m = fetch off n m'"
  by (simp add: fetch_def)

lemma fetch_put_disjoint:
  "off + n \<le> off' \<or> off' + length bs \<le> off \<Longrightarrow> fetch off n (put off' bs m) = fetch off n m"
  by (rule fetch_cong) (auto simp: put_def)

lemma fetch_take: "k \<le> n \<Longrightarrow> fetch off k m = take k (fetch off n m)"
  by (simp add: fetch_def take_map)

lemma write_all_simps [simp]:
  "write_all [] m = m"
  "write_all ((sector, data) # ws) m = write_all ws (put (sector * BLOCK_SIZE) data m)"
  "write_all (xs @ ys) m = write_all ys (write_all xs m)"
  by (simp_all add: write_all_def)

text \<open>A batch leaves a range alone that none of its writes touches.\<close>

lemma fetch_write_all_disjoint:
  assumes "\<forall>(s, d)\<in>set ws. s * BLOCK_SIZE + length d \<le> off \<or> off + n \<le> s * BLOCK_SIZE"
  shows "fetch off n (write_all ws m) = fetch off n m"
  using assms
proof (induction ws arbitrary: m)
  case (Cons w ws)
  then show ?case by (cases w) (auto simp: fetch_put_disjoint)
qed simp

lemma fetch_write_all_last:
  assumes "(s, d) \<in> set ws" "length d = n"
    and "\<And>s' d'. (s', d') \<in> set ws \<Longrightarrow> (s', d') \<noteq> (s, d) \<Longrightarrow>
      s' * BLOCK_SIZE + length d' \<le> s * BLOCK_SIZE \<or> s * BLOCK_SIZE + n \<le> s' * BLOCK_SIZE"
  shows "fetch (s * BLOCK_SIZE) n (write_all ws m) = d"
  using assms
proof (induction ws arbitrary: m)
  case (Cons w ws)
  show ?case
  proof (cases "(s, d) \<in> set ws")
    case True
    have "fetch (s * BLOCK_SIZE) n (write_all ws (put (fst w * BLOCK_SIZE) (snd w) m)) = d"
      by (rule Cons.IH[OF True Cons.prems(2)]) (use Cons.prems(3) in auto)
    then show ?thesis by (cases w) simp
  next
    case False
    with Cons.prems(1) have w: "w = (s, d)" by auto
    have "\<forall>(s', d')\<in>set ws. s' * BLOCK_SIZE + length d' \<le> s * BLOCK_SIZE \<or> s * BLOCK_SIZE + n \<le> s' * BLOCK_SIZE"
      using Cons.prems(3) False by auto
    then show ?thesis by (simp add: w fetch_write_all_disjoint fetch_put_same Cons.prems(2))
  qed
qed simp

section \<open>Buffers and chunks\<close>

lemma io_buffer_Ok:
  assumes "io_buffer os sz = Ok b"
  shows "ab_size b = sz"
  using assms by (auto simp: io_buffer_def buffer_set_len_def elim!: bind_outcome_OkD split: if_splits)

lemma write_image_Ok: "write_image os data = Ok img \<Longrightarrow> img = data"
  by (auto simp: write_image_def buffer_copy_from_def buffer_as_slice_def
      elim!: bind_outcome_OkD split: if_splits dest: io_buffer_Ok)

lemma io_buffer_no_panic:
  assumes "sz + BLOCK_SIZE < U64_LIM"
  shows "io_buffer os sz \<noteq> Panic"
proof -
  have "sz \<le> div_ceil sz BLOCK_SIZE * BLOCK_SIZE" by (rule div_ceil_bounds) (simp add: kv_const)
  then show ?thesis
    by (cases "sys_memalign (os_mem os) BLOCK_SIZE (div_ceil sz BLOCK_SIZE * BLOCK_SIZE)")
      (simp_all add: io_buffer_def buffer_new_def aligned_capacity_eq[OF assms] allocate_aligned_def buffer_set_len_def)
qed

lemma write_image_no_panic:
  assumes "length data + BLOCK_SIZE < U64_LIM"
  shows "write_image os data \<noteq> Panic"
proof (cases "io_buffer os (length data)")
  case (Ok b)
  with io_buffer_Ok[OF Ok] show ?thesis by (simp add: write_image_def buffer_copy_from_def)
qed (use io_buffer_no_panic[OF assms, of os] in \<open>simp_all add: write_image_def\<close>)

lemma write_sectors_no_panic:
  assumes "sector * BLOCK_SIZE < U64_LIM" "length data + BLOCK_SIZE < U64_LIM"
  shows "snd (write_sectors_sync os d sector data w) \<noteq> Panic"
  using assms write_image_no_panic[OF assms(2), of os]
  by (cases "write_image os data") (auto simp: write_sectors_sync_def split: sum.splits prod.splits)

lemma concat_chunks_of: "0 < n \<Longrightarrow> concat (chunks_of n xs) = xs"
proof (induction n xs rule: chunks_of.induct)
  case (1 n xs)
  then show ?case by (subst chunks_of.simps) auto
qed

lemma image_each_no_panic:
  "\<forall>(s, x)\<in>set ws. length x + BLOCK_SIZE < U64_LIM \<Longrightarrow> image_each os ws \<noteq> Panic"
proof (induction os ws rule: image_each.induct)
  case (2 os s x ws)
  have "write_image os x \<noteq> Panic" using 2(2) by (intro write_image_no_panic) simp
  with 2 show ?case by (cases "write_image os x"; cases "image_each os ws") auto
qed simp

lemma push_each_no_panic:
  "\<forall>(s, x)\<in>set ws. s * BLOCK_SIZE < U64_LIM \<Longrightarrow> snd (push_each os ws w) \<noteq> Panic"
proof (induction ws arbitrary: w)
  case (Cons p ws)
  then show ?case by (cases p) (auto split: prod.splits bool.splits)
qed simp

lemma write_each_no_panic:
  "\<forall>(s, x)\<in>set ws. s * BLOCK_SIZE < U64_LIM \<and> length x + BLOCK_SIZE < U64_LIM \<Longrightarrow> snd (write_each os d ws w) \<noteq> Panic"
proof (induction os d ws w rule: write_each.induct)
  case (2 os d s x ws w)
  obtain w1 r where w1: "write_sectors_sync os d s x w = (w1, r)" by fastforce
  then have "r \<noteq> Panic" using write_sectors_no_panic[of s x os d w] 2(2) by simp
  with 2 w1 show ?case by (cases r) auto
qed simp

lemma reap_no_panic: "snd (reap n k cs) \<noteq> Panic"
  by (induction n k cs rule: reap.induct) auto

lemma write_chunk_no_panic:
  assumes "\<forall>(s, x)\<in>set ws. s * BLOCK_SIZE < U64_LIM \<and> length x + BLOCK_SIZE < U64_LIM"
  shows "snd (write_chunk os ws w) \<noteq> Panic"
proof (cases "image_each os ws")
  case (Ok images)
  have "\<forall>(s, x)\<in>set (zip (map fst ws) images). s * BLOCK_SIZE < U64_LIM"
    using assms by (fastforce dest!: set_zip_leftD)
  then have "snd (push_each os (zip (map fst ws) images) w) \<noteq> Panic" by (rule push_each_no_panic)
  with Ok reap_no_panic show ?thesis
    by (cases "push_each os (zip (map fst ws) images) w"; cases "snd (push_each os (zip (map fst ws) images) w)")
      (auto simp: write_chunk_def split: prod.splits sum.splits, metis snd_conv)
next
  case Panic
  have "\<forall>(s, x)\<in>set ws. length x + BLOCK_SIZE < U64_LIM" using assms by auto
  from image_each_no_panic[OF this, of os] Panic show ?thesis by simp
qed (simp add: write_chunk_def)

lemma write_chunks_no_panic:
  "\<forall>c\<in>set cs. \<forall>(s, x)\<in>set c. s * BLOCK_SIZE < U64_LIM \<and> length x + BLOCK_SIZE < U64_LIM \<Longrightarrow> snd (write_chunks os cs w) \<noteq> Panic"
proof (induction os cs w rule: write_chunks.induct)
  case (2 os c cs w)
  obtain w1 r where w1: "write_chunk os c w = (w1, r)" by fastforce
  then have "r \<noteq> Panic" using write_chunk_no_panic[of c os w] 2(2) by simp
  with 2 w1 show ?case by (cases r) auto
qed simp

text \<open>A batch whose offsets and lengths are in range does not panic, whatever the device answers.\<close>

lemma batch_write_no_panic:
  assumes "\<forall>(s, x)\<in>set ws. s * BLOCK_SIZE < U64_LIM \<and> length x + BLOCK_SIZE < U64_LIM"
  shows "snd (batch_write os d ws w) \<noteq> Panic"
proof (cases "d_ring d")
  case True
  obtain w1 r where w1: "write_chunks os (chunks_of IOURING_MAX_BATCH ws) w = (w1, r)" by fastforce
  have "set (concat (chunks_of IOURING_MAX_BATCH ws)) = set ws" by (simp add: concat_chunks_of kv_const)
  then have "\<forall>c\<in>set (chunks_of IOURING_MAX_BATCH ws). \<forall>(s, x)\<in>set c. s * BLOCK_SIZE < U64_LIM \<and> length x + BLOCK_SIZE < U64_LIM"
    using assms by (metis (no_types, lifting) UN_iff set_concat)
  from write_chunks_no_panic[OF this, of os w] w1 True show ?thesis
    by (cases r) (auto simp: batch_write_def disk_flush_def split: prod.splits option.splits)
qed (use write_each_no_panic[OF assms] in \<open>simp add: batch_write_def\<close>)

lemma image_each_Ok: "image_each os writes = Ok images \<Longrightarrow> images = map snd writes"
  by (induction os writes arbitrary: images rule: image_each.induct)
    (auto elim!: bind_outcome_OkD dest: write_image_Ok)

lemma reap_Ok:
  assumes "reap submitted completed cs = (k, Ok ())" "length cs + completed = submitted" 
  shows "k = submitted \<and> (\<forall>c\<in>set cs. 0 \<le> c)"
  using assms by (induction submitted completed cs rule: reap.induct) (auto split: if_splits)

section \<open>The block device interface\<close>

text \<open>
  What the code relies on, for a content function \<open>media\<close> and the submission queue \<open>sq\<close> of the ring:
  reads return a prefix of the range and change nothing, a successful write of \<open>k\<close> bytes changes
  exactly those, any write stays within its range, and a submitted batch whose completions are all
  non-negative has written its entries in full; submitting nothing writes nothing. The law on submitted batches is an assumption about the kernel: the
  code does not compare the completion result with the length.
\<close>

locale block_device =
  fixes os :: "'w os"
    and media :: "'w \<Rightarrow> nat \<Rightarrow> byte"
    and sq :: "'w \<Rightarrow> (nat \<times> bytes) list"
  assumes pread_media: "os_pread os off n w = (w', r) \<Longrightarrow>
      media w' = media w \<and> sq w' = sq w \<and> os_completions os w' = os_completions os w"
    and pread_data: "os_pread os (int a) n w = (w', Inr bs) \<Longrightarrow> bs = fetch a (length bs) (media w)"
    and pwrite_data: "os_pwrite os (int a) bs w = (w', Inr k) \<Longrightarrow>
      k \<le> length bs \<and> media w' = put a (take k bs) (media w)"
    and pwrite_frame: "os_pwrite os (int a) bs w = (w', q) \<Longrightarrow> i < a \<or> a + length bs \<le> i \<Longrightarrow> media w' i = media w i"
    and pwrite_ring: "os_pwrite os off bs w = (w', q) \<Longrightarrow>
      sq w' = sq w \<and> os_completions os w' = os_completions os w"
    and fsync_media: "os_fsync os w = (w', e) \<Longrightarrow>
      media w' = media w \<and> sq w' = sq w \<and> os_completions os w' = os_completions os w"
    and push_queued: "os_sq_push os a bs w = (w', True) \<Longrightarrow>
      sq w' = sq w @ [(a, bs)] \<and> media w' = media w \<and> os_completions os w' = os_completions os w"
    and submit_all: "os_completions os w = [] \<Longrightarrow> os_submit_and_wait os (length (sq w)) w = (w', Inr k) \<Longrightarrow>
      \<forall>c\<in>set (os_completions os w'). 0 \<le> c \<Longrightarrow>
      k = length (sq w) \<and> length (os_completions os w') = k \<and> sq w' = [] \<and>
      media w' = fold (\<lambda>(a, bs). put a bs) (sq w) (media w)"
    and submit_count: "os_completions os w = [] \<Longrightarrow> os_submit_and_wait os (length (sq w)) w = (w', Inr k) \<Longrightarrow>
      k = length (sq w) \<and> length (os_completions os w') = k"
    and submit_none: "sq w = [] \<Longrightarrow> os_submit_and_wait os 0 w = (w', y) \<Longrightarrow> media w' = media w \<and> sq w' = []"
    and consume: "media (os_consume os n w) = media w \<and> sq (os_consume os n w) = sq w \<and>
      os_completions os (os_consume os n w) = drop n (os_completions os w)"
begin

text \<open>The ring is idle between batches.\<close>

definition quiet :: "'w \<Rightarrow> bool" where
  "quiet w \<longleftrightarrow> sq w = [] \<and> os_completions os w = []"

lemma disk_shutdown_media:
  assumes "disk_shutdown os d w = (w', d')" "quiet w"
  shows "media w' = media w"
proof -
  obtain w1 r where s: "os_submit_and_wait os 0 w = (w1, r)" by fastforce
  have "media w1 = media w" using submit_none[OF _ s] assms(2) by (simp add: quiet_def)
  then show ?thesis using assms(1) s by (auto simp: disk_shutdown_def consume split: sum.splits if_splits)
qed

lemma do_pread_result:
  assumes "do_pread os sz off w = (w', r)" "off < 2 ^ 63"
  shows "media w' = media w" "quiet w' = quiet w" "\<And>d. r = Ok d \<Longrightarrow> d = fetch off sz (media w)" "r \<noteq> Panic"
proof -
  obtain w1 x where c: "os_pread os (int off) sz w = (w1, x)" by fastforce
  have w1: "w1 = w'" using assms c by (auto simp: do_pread_def as_off_t_def split: sum.splits if_splits)
  from pread_media[OF c] w1 show "media w' = media w" "quiet w' = quiet w" by (auto simp: quiet_def)
  show "d = fetch off sz (media w)" if "r = Ok d" for d
  proof (cases x)
    case (Inl e)
    with assms c that show ?thesis by (simp add: do_pread_def as_off_t_def)
  next
    case (Inr bs)
    with assms c that have "bs = d" "length bs = sz" by (auto simp: do_pread_def as_off_t_def split: if_splits)
    with pread_data[of off sz w w1 bs] c Inr show ?thesis by simp
  qed
  show "r \<noteq> Panic" using assms c by (auto simp: do_pread_def as_off_t_def split: sum.splits if_splits)
qed

lemma read_sectors_result:
  assumes "read_sectors_sync os d sector count w = (w', r)"
    and "sector * BLOCK_SIZE < 2 ^ 63"
  shows "media w' = media w" "quiet w' = quiet w"
    "\<And>bs. r = Ok bs \<Longrightarrow> bs = fetch (sector * BLOCK_SIZE) (count * BLOCK_SIZE) (media w)"
proof -
  have lim: "sector * BLOCK_SIZE < U64_LIM" using assms(2) by (simp add: U64_LIM_def)
  consider "w' = w \<and> (\<forall>x. r \<noteq> Ok x)" | "count * BLOCK_SIZE < U64_LIM"
    "do_pread os (count * BLOCK_SIZE) (sector * BLOCK_SIZE) w = (w', r)"
  proof (cases "count * BLOCK_SIZE < U64_LIM")
    case True
    show thesis
    proof (cases "d_use_direct_io d")
      case direct: True
      show thesis
        using assms(1) that True lim direct
        by (cases "io_buffer os (count * BLOCK_SIZE)") (auto simp: read_sectors_sync_def)
    next
      case False
      with assms(1) that True lim show thesis by (simp add: read_sectors_sync_def)
    qed
  next
    case False
    with assms(1) that show thesis by (auto simp: read_sectors_sync_def)
  qed
  then have "media w' = media w \<and> quiet w' = quiet w \<and>
    (\<forall>bs. r = Ok bs \<longrightarrow> bs = fetch (sector * BLOCK_SIZE) (count * BLOCK_SIZE) (media w))"
    using do_pread_result[OF _ assms(2)] by cases blast+
  then show "media w' = media w" "quiet w' = quiet w"
    "\<And>bs. r = Ok bs \<Longrightarrow> bs = fetch (sector * BLOCK_SIZE) (count * BLOCK_SIZE) (media w)" by auto
qed

lemma write_sectors_result:
  assumes "write_sectors_sync os d sector data w = (w', r)" "sector * BLOCK_SIZE < 2 ^ 63"
  shows "quiet w' = quiet w" "r = Ok () \<Longrightarrow> media w' = put (sector * BLOCK_SIZE) data (media w)"
    "i < sector * BLOCK_SIZE \<or> sector * BLOCK_SIZE + length data \<le> i \<Longrightarrow> media w' i = media w i"
proof -
  let ?off = "sector * BLOCK_SIZE"
  have lim: "?off < U64_LIM" using assms(2) by (simp add: U64_LIM_def)
  obtain w1 q where c: "os_pwrite os (int ?off) data w = (w1, q)" by fastforce
  have r: "w' = w \<and> r \<noteq> Ok () \<or> w' = w1 \<and> (r = Ok () \<longrightarrow> q = Inr (length data))"
  proof (cases "if d_use_direct_io d then write_image os data else Ok data")
    case (Ok img)
    then have "img = data" by (auto split: if_splits dest: write_image_Ok)
    with assms lim c Ok show ?thesis
      by (auto simp: write_sectors_sync_def as_off_t_def split: sum.splits if_splits)
  qed (use assms(1) lim in \<open>auto simp: write_sectors_sync_def\<close>)
  from pwrite_ring[OF c] r show "quiet w' = quiet w" by (auto simp: quiet_def)
  show "media w' = put ?off data (media w)" if "r = Ok ()"
    using that r pwrite_data[of ?off data w w1 "length data"] c by auto
  show "media w' i = media w i" if "i < ?off \<or> ?off + length data \<le> i"
    using r pwrite_frame[OF c that] by auto
qed

lemma disk_flush_result:
  assumes "disk_flush os w = (w', r)"
  shows "media w' = media w" "quiet w' = quiet w"
proof -
  obtain w1 e where c: "os_fsync os w = (w1, e)" by fastforce
  with assms have "w1 = w'" by (auto simp: disk_flush_def split: option.splits)
  with fsync_media[OF c] show "media w' = media w" "quiet w' = quiet w" by (auto simp: quiet_def)
qed

lemma write_each_Ok:
  assumes "write_each os d writes w = (w', Ok ())" "\<forall>(s, x)\<in>set writes. s * BLOCK_SIZE < 2 ^ 63"
  shows "media w' = write_all writes (media w) \<and> quiet w' = quiet w"
  using assms
proof (induction writes arbitrary: w)
  case (Cons p writes)
  obtain sector data where p: "p = (sector, data)" by (cases p)
  from Cons.prems(1) p obtain w1 where w1: "write_sectors_sync os d sector data w = (w1, Ok ())"
    "write_each os d writes w1 = (w', Ok ())" by (auto elim: try_bind_OkD)
  with Cons.IH[of w1] Cons.prems(2) p write_sectors_result[OF w1(1)] show ?case by auto
qed simp

lemma push_each_Ok:
  assumes "push_each os writes w = (w', Ok ())" "\<forall>(s, x)\<in>set writes. s * BLOCK_SIZE < U64_LIM"
  shows "sq w' = sq w @ map (\<lambda>(s, x). (s * BLOCK_SIZE, x)) writes \<and> media w' = media w \<and>
    os_completions os w' = os_completions os w"
  using assms
proof (induction writes arbitrary: w)
  case (Cons p writes)
  obtain sector img where p: "p = (sector, img)" by (cases p)
  obtain w1 b where w1: "os_sq_push os (sector * BLOCK_SIZE) img w = (w1, b)" by fastforce
  with Cons.prems p have "b" "push_each os writes w1 = (w', Ok ())"
    by (auto split: bool.splits)
  with Cons.IH[of w1] Cons.prems(2) p w1 push_queued[of "sector * BLOCK_SIZE" img w w1] show ?case by auto
qed simp

lemma write_chunk_Ok:
  assumes "write_chunk os chunk w = (w', Ok ())" "quiet w" "\<forall>(s, x)\<in>set chunk. s * BLOCK_SIZE < U64_LIM"
  shows "media w' = write_all chunk (media w) \<and> quiet w'"
proof -
  from assms(1) obtain w1 images where im: "image_each os chunk = Ok images"
    and pu: "push_each os (zip (map fst chunk) images) w = (w1, Ok ())"
    and rest: "(case os_submit_and_wait os (length chunk) w1 of
         (w', Inl e) \<Rightarrow> (w', Err (IoError e))
       | (w', Inr submitted) \<Rightarrow>
           (case reap submitted 0 (os_completions os w') of
              (n, r) \<Rightarrow> (os_consume os n w', r))) = (w', Ok ())"
    by (auto simp: write_chunk_def elim!: try_bind_OkD)
  have zip: "zip (map fst chunk) images = chunk"
    using image_each_Ok[OF im] by (simp add: zip_map_fst_snd)
  have sq: "sq w1 = map (\<lambda>(s, x). (s * BLOCK_SIZE, x)) chunk" "media w1 = media w" "os_completions os w1 = []"
    using push_each_Ok[OF pu] assms(2,3) by (simp_all add: zip quiet_def)
  from rest obtain w2 k n where sub: "os_submit_and_wait os (length (sq w1)) w1 = (w2, Inr k)"
    and re: "reap k 0 (os_completions os w2) = (n, Ok ())" and w': "w' = os_consume os n w2"
    by (auto simp: sq split: sum.splits prod.splits)
  have len: "length (os_completions os w2) = k" using submit_count[OF sq(3) sub] by simp
  have n: "n = k" "\<forall>c\<in>set (os_completions os w2). 0 \<le> c" using reap_Ok[OF re] len by auto
  have fold: "fold (\<lambda>(a, bs). put a bs) (map (\<lambda>(s, x). (s * BLOCK_SIZE, x)) xs) m = write_all xs m" for xs m
    by (induction xs arbitrary: m) auto
  from submit_all[OF sq(3) sub n(2)] consume[of n w2] w' n len show ?thesis
    by (simp add: sq fold quiet_def)
qed

lemma write_chunks_Ok:
  assumes "write_chunks os cs w = (w', Ok ())" "quiet w" "\<forall>(s, x)\<in>set (concat cs). s * BLOCK_SIZE < U64_LIM"
  shows "media w' = write_all (concat cs) (media w) \<and> quiet w'"
  using assms
proof (induction cs arbitrary: w)
  case (Cons c cs)
  then obtain w1 where w1: "write_chunk os c w = (w1, Ok ())" "write_chunks os cs w1 = (w', Ok ())"
    by (auto elim: try_bind_OkD)
  with Cons.IH[of w1] Cons.prems write_chunk_Ok[OF w1(1)] show ?case by auto
qed simp

text \<open>A batch that reports success has put every image at its sector, in order.\<close>

theorem batch_write_Ok:
  assumes "batch_write os d writes w = (w', Ok ())" "quiet w" "\<forall>(s, x)\<in>set writes. s * BLOCK_SIZE < 2 ^ 63"
  shows "media w' = write_all writes (media w)" "quiet w'"
proof -
  have lim: "\<forall>(s, x)\<in>set writes. s * BLOCK_SIZE < U64_LIM" using assms(3) by (auto simp: U64_LIM_def)
  have "media w' = write_all writes (media w) \<and> quiet w'"
  proof (cases "d_ring d")
    case True
    with assms(1) obtain w1 where w1: "write_chunks os (chunks_of IOURING_MAX_BATCH writes) w = (w1, Ok ())"
      "disk_flush os w1 = (w', Ok ())" by (auto simp: batch_write_def elim: try_bind_OkD)
    have "concat (chunks_of IOURING_MAX_BATCH writes) = writes"
      by (rule concat_chunks_of) (simp add: kv_const)
    with write_chunks_Ok[OF w1(1) assms(2)] lim disk_flush_result[OF w1(2)] show ?thesis by simp
  next
    case False
    with assms write_each_Ok show ?thesis by (auto simp: batch_write_def)
  qed
  then show "media w' = write_all writes (media w)" "quiet w'" by simp_all
qed

text \<open>The metadata block round trip.\<close>

lemma write_metadata_read:
  assumes "write_metadata os d meta w = (w1, Ok ())" "read_metadata os d w1 = (w2, Ok bs)"
  shows "take (length meta) bs = meta" "length bs = BLOCK_SIZE"
proof -
  let ?b = "meta @ replicate (BLOCK_SIZE - length meta) 0"
  have len: "length meta \<le> BLOCK_SIZE" using assms(1) by (auto simp: write_metadata_def split: if_splits)
  with assms(1) obtain w3 where w3: "write_sectors_sync os d METADATA_BLOCK ?b w = (w3, Ok ())"
    "disk_flush os w3 = (w1, Ok ())" by (auto simp: write_metadata_def Let_def elim: try_bind_OkD)
  have "media w1 = put 0 ?b (media w)"
    using write_sectors_result(2)[OF w3(1)] disk_flush_result(1)[OF w3(2)] by (simp add: kv_const)
  moreover have "bs = fetch 0 BLOCK_SIZE (media w1)"
    using read_sectors_result(3)[of d METADATA_BLOCK 1 w1 w2 "Ok bs" bs] assms(2)
    by (simp add: read_metadata_def kv_const)
  ultimately have "bs = ?b" using len by (simp add: fetch_put_same)
  then show "take (length meta) bs = meta" "length bs = BLOCK_SIZE" using len by simp_all
qed

end

section \<open>A file in memory\<close>

record ram =
  ram_size :: nat
  ram_content :: "nat \<Rightarrow> byte"
  ram_sq :: "(nat \<times> bytes) list"
  ram_cq :: "int list"

definition ram_os :: "ram os" where
  "ram_os =
     \<lparr>os_mem = \<lparr>sys_alloc = (\<lambda>_ _. Some 8), sys_memalign = (\<lambda>_ _. Some 4096), sys_mmap = (\<lambda>_. Some 4096)\<rparr>,
      os_pread = (\<lambda>off n w. (w, if off < 0 then Inl 22
        else Inr (fetch (nat off) (min n (ram_size w - nat off)) (ram_content w)))),
      os_pwrite = (\<lambda>off bs w. if off < 0 then (w, Inl 22)
        else (w\<lparr>ram_size := max (ram_size w) (nat off + length bs),
                ram_content := put (nat off) bs (ram_content w)\<rparr>, Inr (length bs))),
      os_fsync = (\<lambda>w. (w, None)),
      os_sq_push = (\<lambda>a bs w. (w\<lparr>ram_sq := ram_sq w @ [(a, bs)]\<rparr>, True)),
      os_submit_and_wait = (\<lambda>n w. (w\<lparr>ram_content := fold (\<lambda>(a, bs). put a bs) (ram_sq w) (ram_content w),
          ram_sq := [], ram_cq := ram_cq w @ map (\<lambda>(a, bs). int (length bs)) (ram_sq w)\<rparr>,
        Inr (length (ram_sq w)))),
      os_completions = ram_cq,
      os_consume = (\<lambda>n w. w\<lparr>ram_cq := drop n (ram_cq w)\<rparr>)\<rparr>"

interpretation ram: block_device ram_os ram_content ram_sq
  by unfold_locales (auto simp: ram_os_def put_outside split: if_splits)

definition blank_ram :: "nat \<Rightarrow> ram" where
  "blank_ram n = \<lparr>ram_size = n * BLOCK_SIZE, ram_content = (\<lambda>_. 0), ram_sq = [], ram_cq = []\<rparr>"

lemma blank_ram_quiet: "ram.quiet (blank_ram n)"
  unfolding ram.quiet_def by (simp add: blank_ram_def ram_os_def)

section \<open>Properties\<close>

lemmas disk_io_defs = read_sectors_sync_def write_sectors_sync_def do_pread_def as_off_t_def



end
