(* ===== verification/Write_Buffer.thy ===== *)
theory Write_Buffer
  imports Record_Format Free_Space Disk_IO Stats
begin

text \<open>
  The write-back buffer of src/storage/write_buffer.rs. Records are shared by reference between the
  indexes and the buffered entries, so they live in a heap, a function from addresses; an entry
  holds the address. Each lock-protected section is one step. A worker serves one request at a
  time; its receive loop is a step per event. Delays between retries do not change any state and
  are left out.
\<close>

section \<open>State\<close>

type_synonym addr = nat
type_synonym heap = "addr \<Rightarrow> kv_record"

record write_entry =
  we_operation :: operation
  we_record :: addr
  we_old_value_len :: nat
  we_work_status :: nat
  we_retry_count :: nat

record shard =
  sh_buffer :: "write_entry list"
  sh_count :: nat
  sh_size :: nat

text \<open>
  A request for a worker; \<open>True\<close> asks for a response. The queue of channel \<open>i\<close> is \<open>wb_channels ! i\<close>;
  every channel is bounded at two requests.
\<close>

type_synonym flush_request = bool

record write_buffer =
  wb_shards :: "shard list"
  wb_channels :: "flush_request list list"
  wb_shutdown :: bool
  wb_format_version :: nat

definition CHANNEL_CAPACITY :: nat where "CHANNEL_CAPACITY = 2"

section \<open>Shards\<close>

definition shard_new :: shard where
  "shard_new = \<lparr>sh_buffer = [], sh_count = 0, sh_size = 0\<rparr>"

definition add_entry :: "nat \<Rightarrow> heap \<Rightarrow> write_entry \<Rightarrow> shard \<Rightarrow> shard" where
  "add_entry rec_struct h entry sh =
     (let entry_size = calculate_size rec_struct (h (we_record entry))
      in sh\<lparr>sh_buffer := sh_buffer sh @ [entry], sh_count := wrapping_add (sh_count sh) 1,
            sh_size := wrapping_add (sh_size sh) entry_size\<rparr>)"

definition drain_entries :: "shard \<Rightarrow> shard \<times> write_entry list" where
  "drain_entries sh = (sh\<lparr>sh_buffer := [], sh_count := 0, sh_size := 0\<rparr>, sh_buffer sh)"

definition shard_is_full :: "shard \<Rightarrow> bool" where
  "shard_is_full sh \<longleftrightarrow> WRITE_BUFFER_COUNT \<le> sh_count sh \<or> WRITE_BUFFER_SIZE \<le> sh_size sh"

section \<open>Buffering\<close>

text \<open>\<open>num_cpus\<close> is the number of processors the crate of that name reports.\<close>

definition write_buffer_new :: "nat \<Rightarrow> nat \<Rightarrow> write_buffer" where
  "write_buffer_new num_cpus format_version =
     \<lparr>wb_shards = replicate (max (num_cpus div 2) 1) shard_new, wb_channels = [],
      wb_shutdown = False, wb_format_version = format_version\<rparr>"

text \<open>The shard of a thread: its hash modulo the number of shards.\<close>

definition get_shard_id :: "nat \<Rightarrow> write_buffer \<Rightarrow> nat" where
  "get_shard_id thread_hash wb = thread_hash mod length (wb_shards wb)"

text \<open>\<open>try_send\<close> on channel \<open>i\<close>: a full channel drops the request.\<close>

definition try_send :: "nat \<Rightarrow> flush_request \<Rightarrow> flush_request list list \<Rightarrow> flush_request list list" where
  "try_send i req cs = (if length (cs ! i) < CHANNEL_CAPACITY then cs[i := cs ! i @ [req]] else cs)"

definition add_write :: "nat \<Rightarrow> nat \<Rightarrow> operation \<Rightarrow> addr \<Rightarrow> nat \<Rightarrow> heap \<Rightarrow>
    write_buffer \<times> statistics \<Rightarrow> (write_buffer \<times> statistics) \<times> unit res" where
  "add_write rec_struct thread_hash operation record_addr old_value_len h wbs =
     (let (wb, st) = wbs in
      if wb_shutdown wb then ((wb, st), Err ShuttingDown)
      else
        let entry = \<lparr>we_operation = operation, we_record = record_addr,
                     we_old_value_len = old_value_len, we_work_status = 0, we_retry_count = 0\<rparr>;
            shard_id = get_shard_id thread_hash wb;
            buffer = add_entry rec_struct h entry (wb_shards wb ! shard_id);
            wb1 = wb\<lparr>wb_shards := (wb_shards wb)[shard_id := buffer]\<rparr>;
            st1 = record_write_buffered st;
            wb2 = (if shard_is_full buffer \<and> shard_id < length (wb_channels wb1)
                   then wb1\<lparr>wb_channels := try_send shard_id False (wb_channels wb1)\<rparr> else wb1)
        in ((wb2, st1), Ok ()))"

text \<open>
  \<open>start_workers\<close>: one channel per worker. The receivers are popped from the end of the vector, so
  worker \<open>i\<close> listens on channel \<open>n - 1 - i\<close>.
\<close>

definition start_workers :: "nat \<Rightarrow> write_buffer \<Rightarrow> write_buffer" where
  "start_workers num_workers wb =
     (let actual_workers = min num_workers (length (wb_shards wb))
      in wb\<lparr>wb_channels := wb_channels wb @ replicate actual_workers []\<rparr>)"

definition channel_of_worker :: "nat \<Rightarrow> nat \<Rightarrow> nat" where
  "channel_of_worker n worker_id = n - 1 - worker_id"

text \<open>One tick of the periodic thread: a request for every non-empty shard, by reversed index.\<close>

fun periodic_from :: "nat \<Rightarrow> shard list \<Rightarrow> flush_request list list \<Rightarrow> flush_request list list" where
  "periodic_from shard_id [] cs = cs"
| "periodic_from shard_id (buffer # rest) cs =
     periodic_from (Suc shard_id) rest
       (if 0 < sh_count buffer \<and> shard_id < length cs
        then try_send (length cs - 1 - shard_id) False cs else cs)"

definition periodic_tick :: "write_buffer \<Rightarrow> write_buffer" where
  "periodic_tick wb =
     (if wb_shutdown wb then wb
      else wb\<lparr>wb_channels := periodic_from 0 (wb_shards wb) (wb_channels wb)\<rparr>)"

definition initiate_shutdown :: "write_buffer \<Rightarrow> write_buffer" where
  "initiate_shutdown wb = wb\<lparr>wb_shutdown := True\<rparr>"

section \<open>Batches\<close>

text \<open>What a worker shares with the rest: the heap, the allocator, the counters, the device.\<close>

record 'w wctx =
  x_heap :: heap
  x_free_space :: free_space_manager
  x_stats :: statistics
  x_world :: 'w

record batch =
  b_writes :: "(nat \<times> bytes) list"
  b_deletes :: "(nat \<times> nat \<times> nat) list"
  b_clear :: "(nat \<times> addr) list"

definition empty_batch :: batch where
  "empty_batch = \<lparr>b_writes = [], b_deletes = [], b_clear = []\<rparr>"

definition add_disk_usage :: "nat \<Rightarrow> statistics \<Rightarrow> statistics" where
  "add_disk_usage n st = st\<lparr>st_disk_usage := wrapping_add (st_disk_usage st) n\<rparr>"

definition sub_disk_usage :: "nat \<Rightarrow> statistics \<Rightarrow> statistics" where
  "sub_disk_usage n st = st\<lparr>st_disk_usage := wrapping_sub (st_disk_usage st) n\<rparr>"

text \<open>The first loop: allocate and render what has to be written, note what has to be erased.\<close>

definition collect_write :: "addr \<Rightarrow> batch \<Rightarrow> 'w wctx \<Rightarrow> 'w wctx \<times> batch res" where
  "collect_write a b x =
     (let r = x_heap x a in
      if 0 < r_refcount r \<and> r_sector r = 0
      then
        let data = perpare_record_data r;
            sectors_needed = div_ceil (length data) BLOCK_SIZE;
            (fs, res) = allocate_sectors (x_free_space x) sectors_needed;
            x1 = x\<lparr>x_free_space := fs\<rparr>
        in try_bind (x1, res) (\<lambda>sector x.
             (x\<lparr>x_stats := add_disk_usage (sectors_needed * BLOCK_SIZE) (x_stats x)\<rparr>,
              Ok (b\<lparr>b_writes := b_writes b @ [(sector, data)], b_clear := b_clear b @ [(sector, a)]\<rparr>)))
      else (x, Ok b))"

fun collect_entries :: "write_entry list \<Rightarrow> batch \<Rightarrow> 'w wctx \<Rightarrow> 'w wctx \<times> batch res" where
  "collect_entries [] b x = (x, Ok b)"
| "collect_entries (e # es) b x =
     (case we_operation e of
        Insert \<Rightarrow> try_bind (collect_write (we_record e) b x) (\<lambda>b x. collect_entries es b x)
      | Update \<Rightarrow> try_bind (collect_write (we_record e) b x) (\<lambda>b x. collect_entries es b x)
      | Delete \<Rightarrow>
          (let r = x_heap x (we_record e)
           in if r_sector r \<noteq> 0
              then collect_entries es
                     (b\<lparr>b_deletes := b_deletes b @ [(r_sector r, length (r_key r), we_old_value_len e)]\<rparr>) x
              else collect_entries es b x)
      | _ \<Rightarrow> collect_entries es b x)"

definition deletion_block :: bytes where
  "deletion_block = DELETED_MARKER @ replicate (BLOCK_SIZE - 8) 0"

text \<open>The second loop: mark and release. Errors of the device and of the allocator are ignored.\<close>

fun erase_each :: "'w os \<Rightarrow> disk_io \<Rightarrow> (nat \<times> nat \<times> nat) list \<Rightarrow> 'w wctx \<Rightarrow> 'w wctx \<times> unit res" where
  "erase_each os d [] x = (x, Ok ())"
| "erase_each os d ((sector, key_len, value_len) # ds) x =
     (let (w, wr) = write_sectors_sync os d sector deletion_block (x_world x);
          x1 = x\<lparr>x_world := w\<rparr>
      in if wr = Panic then (x1, Panic)
         else
           let sz = SECTOR_HEADER_SIZE + 2 + key_len + 8 + 8 + value_len;
               sectors_needed = div_ceil sz BLOCK_SIZE;
               (fs, rr) = release_sectors (x_free_space x1) sector sectors_needed;
               x2 = x1\<lparr>x_free_space := fs\<rparr>
           in if rr = Panic then (x2, Panic)
              else erase_each os d ds
                     (x2\<lparr>x_stats := sub_disk_usage (sectors_needed * BLOCK_SIZE) (x_stats x2)\<rparr>))"

text \<open>The retry loop; the first argument counts the attempts that are left.\<close>

fun write_retry :: "nat \<Rightarrow> 'w os \<Rightarrow> disk_io \<Rightarrow> (nat \<times> bytes) list \<Rightarrow> 'w \<Rightarrow> 'w \<times> unit res" where
  "write_retry 0 os d writes w = (w, Ok ())"
| "write_retry (Suc n) os d writes w =
     (case batch_write os d writes w of
        (w', Ok u) \<Rightarrow> (w', Ok u)
      | (w', Err e) \<Rightarrow> if n = 0 then (w', Err e) else write_retry n os d writes w'
      | (w', Panic) \<Rightarrow> (w', Panic))"

text \<open>After a successful write: store the sector, drop the value.\<close>

definition settle :: "nat \<times> addr \<Rightarrow> heap \<Rightarrow> heap" where
  "settle p h = h(snd p := clear_value ((h (snd p))\<lparr>r_sector := fst p\<rparr>))"

text \<open>After the last failure: release one sector per record, ending at the first refusal.\<close>

fun release_each :: "(nat \<times> addr) list \<Rightarrow> free_space_manager \<Rightarrow> free_space_manager \<times> unit res" where
  "release_each [] fs = (fs, Ok ())"
| "release_each ((sector, a) # rest) fs =
     try_bind (release_sectors fs sector 1) (\<lambda>u fs. release_each rest fs)"

definition write_out :: "'w os \<Rightarrow> disk_io \<Rightarrow> batch \<Rightarrow> 'w wctx \<Rightarrow> 'w wctx \<times> unit res" where
  "write_out os d b x =
     (if b_writes b = [] then (x, Ok ())
      else
        case write_retry 3 os d (b_writes b) (x_world x) of
          (w, Ok u) \<Rightarrow>
            (x\<lparr>x_world := w, x_heap := fold settle (b_clear b) (x_heap x),
               x_stats := record_write_flushed (length (b_clear b)) (x_stats x)\<rparr>, Ok ())
        | (w, Err e) \<Rightarrow>
            (let (fs, r) = release_each (b_clear b) (x_free_space x);
                 x1 = x\<lparr>x_world := w, x_stats := record_write_failed (x_stats x), x_free_space := fs\<rparr>
             in try_bind (x1, r) (\<lambda>u x. (x, Err e)))
        | (w, Panic) \<Rightarrow> (x\<lparr>x_world := w\<rparr>, Panic))"

definition process_write_batch :: "'w os \<Rightarrow> disk_io \<Rightarrow> write_entry list \<Rightarrow> 'w wctx \<Rightarrow> 'w wctx \<times> unit res" where
  "process_write_batch os d entries x =
     try_bind (collect_entries entries empty_batch x) (\<lambda>b x.
     try_bind (erase_each os d (b_deletes b) x) (\<lambda>u x.
       write_out os d b x))"

section \<open>Workers\<close>

definition count_flush :: "'w wctx \<Rightarrow> 'w wctx" where
  "count_flush x = x\<lparr>x_stats := (x_stats x)\<lparr>st_flush_count := wrapping_add (st_flush_count (x_stats x)) 1\<rparr>\<rparr>"

text \<open>
  One request: drain the worker's shard and process it; the outcome is the response. A request
  whose sender is dropped unanswered reads as a disconnected channel.
\<close>

definition worker_serve :: "'w os \<Rightarrow> disk_io \<Rightarrow> nat \<Rightarrow> write_buffer \<times> 'w wctx \<Rightarrow>
    (write_buffer \<times> 'w wctx) \<times> unit res" where
  "worker_serve os d worker_id s =
     (let (wb, x) = s in
      if worker_id < length (wb_shards wb)
      then
        let (sh, entries) = drain_entries (wb_shards wb ! worker_id);
            wb1 = wb\<lparr>wb_shards := (wb_shards wb)[worker_id := sh]\<rparr>
        in if entries \<noteq> []
           then (case process_write_batch os d entries x of (x1, r) \<Rightarrow> ((wb1, count_flush x1), r))
           else ((wb1, x), Ok ())
      else ((wb, x), Err ChannelError))"

text \<open>A worker takes the oldest request of its channel, unless the buffer is shutting down.\<close>

definition worker_step :: "'w os \<Rightarrow> disk_io \<Rightarrow> nat \<Rightarrow> write_buffer \<times> 'w wctx \<Rightarrow> write_buffer \<times> 'w wctx" where
  "worker_step os d worker_id s =
     (let wb = fst s; c = channel_of_worker (length (wb_channels wb)) worker_id in
      if wb_shutdown wb \<or> length (wb_channels wb) \<le> worker_id then s
      else case wb_channels wb ! c of
             [] \<Rightarrow> s
           | req # rest \<Rightarrow>
               fst (worker_serve os d worker_id (wb\<lparr>wb_channels := (wb_channels wb)[c := rest]\<rparr>, snd s)))"

text \<open>The last drain of a worker after the shutdown flag is set; its result is dropped.\<close>

definition worker_finish :: "'w os \<Rightarrow> disk_io \<Rightarrow> nat \<Rightarrow> write_buffer \<times> 'w wctx \<Rightarrow> write_buffer \<times> 'w wctx" where
  "worker_finish os d worker_id s =
     (let (wb, x) = s in
      if wb_shutdown wb \<and> worker_id < length (wb_shards wb)
      then
        let (sh, entries) = drain_entries (wb_shards wb ! worker_id);
            wb1 = wb\<lparr>wb_shards := (wb_shards wb)[worker_id := sh]\<rparr>
        in if entries \<noteq> [] then (wb1, fst (process_write_batch os d entries x)) else (wb1, x)
      else s)"

text \<open>\<open>complete_shutdown\<close> joins the workers, which finish in \<open>order\<close>. \<open>Drop\<close> does the same once.\<close>

definition complete_shutdown :: "'w os \<Rightarrow> disk_io \<Rightarrow> nat list \<Rightarrow> write_buffer \<times> 'w wctx \<Rightarrow> write_buffer \<times> 'w wctx" where
  "complete_shutdown os d order s =
     fold (worker_finish os d) order ((fst s)\<lparr>wb_shutdown := True\<rparr>, snd s)"

definition wb_drop :: "'w os \<Rightarrow> disk_io \<Rightarrow> nat list \<Rightarrow> write_buffer \<times> 'w wctx \<Rightarrow> write_buffer \<times> 'w wctx" where
  "wb_drop os d order s = (if \<not> wb_shutdown (fst s) then complete_shutdown os d order s else s)"

text \<open>
  \<open>force_flush\<close> sends one request with a response to every channel and waits for all of them. The
  workers run concurrently; \<open>order\<close> lists those that serve, each once, in the order in which they do.
  A worker that has ended (after a panic or a shutdown) does not serve: its channel is disconnected,
  to send or to receive fails with \<open>ChannelError\<close>. The answer is the first error in channel order.
\<close>

fun serve_all :: "'w os \<Rightarrow> disk_io \<Rightarrow> nat list \<Rightarrow> write_buffer \<times> 'w wctx \<Rightarrow>
    (write_buffer \<times> 'w wctx) \<times> (nat \<times> unit res) list" where
  "serve_all os d [] s = (s, [])"
| "serve_all os d (i # is) s =
     (let (s1, r) = worker_serve os d i s; (s2, rs) = serve_all os d is s1 in (s2, (i, r) # rs))"

fun first_error :: "unit res list \<Rightarrow> unit res" where
  "first_error [] = Ok ()"
| "first_error (Ok u # rs) = first_error rs"
| "first_error (Err e # rs) = Err e"
| "first_error (Panic # rs) = Err ChannelError"

definition force_flush :: "'w os \<Rightarrow> disk_io \<Rightarrow> nat list \<Rightarrow> write_buffer \<times> 'w wctx \<Rightarrow>
    (write_buffer \<times> 'w wctx) \<times> unit res" where
  "force_flush os d order s =
     (let (s', rs) = serve_all os d order s;
          n = length (wb_channels (fst s));
          answers = map (\<lambda>c. case map_of rs (n - 1 - c) of Some r \<Rightarrow> r | None \<Rightarrow> Err ChannelError) [0..<n]
      in (s', first_error answers))"

section \<open>Sectors and values of records\<close>

definition rec_sectors :: "kv_record \<Rightarrow> nat" where
  "rec_sectors r = div_ceil (total_size (length (r_key r)) (r_value_len r)) BLOCK_SIZE"

definition rec_extent :: "kv_record \<Rightarrow> nat set" where
  "rec_extent r = {r_sector r..<r_sector r + rec_sectors r}"

text \<open>The bytes where the value of a written record starts, and its logical value.\<close>

definition value_at :: "(nat \<Rightarrow> byte) \<Rightarrow> kv_record \<Rightarrow> bytes" where
  "value_at m r =
     fetch (r_sector r * BLOCK_SIZE + record_header_size (length (r_key r))) (r_value_len r) m"

definition value_of :: "(nat \<Rightarrow> byte) \<Rightarrow> kv_record \<Rightarrow> bytes" where
  "value_of m r = (case r_value r of Some v \<Rightarrow> v | None \<Rightarrow> value_at m r)"

lemma rec_sectors_pos: "0 < rec_sectors r"
  unfolding rec_sectors_def by (rule div_ceil_pos) (simp_all add: kv_const total_size_def record_header_size_def)

lemma length_image: "length (perpare_record_data r) = rec_sectors r * BLOCK_SIZE"
  by (simp add: length_perpare rec_sectors_def)

lemma image_sectors: "div_ceil (length (perpare_record_data r)) BLOCK_SIZE = rec_sectors r"
  by (simp add: length_image div_ceil_def kv_const)

lemma value_in_extent: "record_header_size (length (r_key r)) + r_value_len r \<le> rec_sectors r * BLOCK_SIZE"
  using total_size_le_padded[of "length (r_key r)" "r_value_len r"] by (simp add: rec_sectors_def total_size_def)

text \<open>The value of a record depends only on the blocks of its extent.\<close>

lemma value_at_cong:
  assumes "\<And>i. r_sector r * BLOCK_SIZE \<le> i \<Longrightarrow> i < (r_sector r + rec_sectors r) * BLOCK_SIZE \<Longrightarrow> m i = m' i"
  shows "value_at m r = value_at m' r"
  unfolding value_at_def
proof (rule fetch_cong)
  fix i assume i: "r_sector r * BLOCK_SIZE + record_header_size (length (r_key r)) \<le> i"
    "i < r_sector r * BLOCK_SIZE + record_header_size (length (r_key r)) + r_value_len r"
  with value_in_extent[of r] show "m i = m' i" by (intro assms) (simp_all add: add_mult_distrib)
qed

text \<open>A written image holds the value.\<close>

lemma value_at_image:
  assumes "record_wf r" "r_value r = Some v"
    and "fetch (s * BLOCK_SIZE) (rec_sectors r * BLOCK_SIZE) m = perpare_record_data r"
  shows "value_at m (r\<lparr>r_sector := s\<rparr>) = v"
proof -
  let ?h = "record_header_size (length (r_key r))"
  have len: "length v = r_value_len r" using assms(1,2) by (simp add: record_wf_def)
  have le: "?h + r_value_len r \<le> rec_sectors r * BLOCK_SIZE" by (rule value_in_extent)
  have "fetch (s * BLOCK_SIZE + ?h) (r_value_len r) m =
      byte_slice ?h (?h + r_value_len r) (fetch (s * BLOCK_SIZE) (rec_sectors r * BLOCK_SIZE) m)"
    using le by (intro nth_equalityI) (simp_all add: byte_slice_def fetch_def ac_simps)
  with image_value[OF assms(1,2)] assms(3) len show ?thesis by (simp add: value_at_def)
qed

section \<open>Allocation budget\<close>

text \<open>Room in the byte counter for \<open>k\<close> more operations, each of which can raise it by the device size.\<close>

definition fsm_budget :: "nat \<Rightarrow> free_space_manager \<Rightarrow> bool" where
  "fsm_budget k f \<longleftrightarrow> (total_free f + Suc k * persistence_size f) * 100 < U64_LIM"

lemma fsm_budget_mono:
  assumes "fsm_budget k f" "j \<le> k"
  shows "fsm_budget j f"
proof -
  have "(total_free f + Suc j * persistence_size f) * 100 \<le> (total_free f + Suc k * persistence_size f) * 100"
    using assms(2) by (intro mult_le_mono1 add_left_mono) simp
  with assms(1) show ?thesis unfolding fsm_budget_def by (rule le_less_trans[rotated])
qed

lemma budget_headroom: "fsm_budget k f \<Longrightarrow> fsm_headroom f"
  by (auto simp: fsm_budget_def fsm_headroom_def algebra_simps)

lemma budget_step:
  "fsm_budget (Suc k) f \<Longrightarrow> total_free f' \<le> total_free f + persistence_size f \<Longrightarrow>
   persistence_size f' = persistence_size f \<Longrightarrow> fsm_budget k f'"
  by (auto simp: fsm_budget_def algebra_simps)

lemma allocate_budget:
  assumes "fsm_inv f" "fsm_budget (Suc k) f" "allocate_sectors f n = (f', Ok a)"
  shows "fsm_budget k f'"
proof -
  note room = budget_headroom[OF assms(2)]
  have n: "0 < n" using fsm.alloc_Ok[OF assms(1) room assms(3)] by simp
  from assms(1) room n show ?thesis
  proof (cases rule: allocate_sectors_cases)
    case (Fit a' m g)
    have "m \<le> device_sectors f" using fsm_invD(4)[OF assms(1)] Fit(2) by (fastforce simp: chunk_wf_def)
    then have "(m - n) * BLOCK_SIZE \<le> persistence_size f"
      using device_bytes[of "m - n" f] by simp
    with Fit assms(3) show ?thesis by (intro budget_step[OF assms(2)]) auto
  next
    case Full
    with assms(3) show ?thesis by simp
  qed
qed

lemma release_budget:
  assumes "fsm_inv f" "fsm_budget (Suc k) f" "0 < n" "METADATA_BLOCK_SIZE \<le> a" "a + n \<le> device_sectors f"
    "{a..<a + n} \<inter> free_sectors f = {}"
  shows "\<exists>f'. release_sectors f a n = (f', Ok ()) \<and> fsm_inv f' \<and> free_sectors f' = free_sectors f \<union> {a..<a + n} \<and>
    device_sectors f' = device_sectors f \<and> fsm_budget k f'"
proof -
  note room = budget_headroom[OF assms(2)]
  obtain f' prev where R: "release_sectors f a n = (f', Ok ())" "persistence_size f' = persistence_size f"
    "total_free f' = total_free f + n * BLOCK_SIZE"
    by (rule release_sectors_ok[OF assms(1) room assms(3-6)])
  have "n * BLOCK_SIZE \<le> persistence_size f" using device_bytes[of n f] assms(5) by simp
  then have "fsm_budget k f'" using R by (intro budget_step[OF assms(2)]) auto
  with fsm.release_Ok[OF assms(1) room assms(3-6)] R(1) show ?thesis by auto
qed

section \<open>The loops of a batch\<close>

definition is_write :: "write_entry \<Rightarrow> bool" where
  "is_write e \<longleftrightarrow> we_operation e = Insert \<or> we_operation e = Update"

text \<open>Entries that allocate: live records that are not on disk yet.\<close>

definition pending :: "heap \<Rightarrow> write_entry \<Rightarrow> bool" where
  "pending h e \<longleftrightarrow> is_write e \<and> 0 < r_refcount (h (we_record e)) \<and> r_sector (h (we_record e)) = 0"

definition erasing :: "heap \<Rightarrow> write_entry \<Rightarrow> bool" where
  "erasing h e \<longleftrightarrow> we_operation e = Delete \<and> r_sector (h (we_record e)) \<noteq> 0"

definition erasure :: "heap \<Rightarrow> write_entry \<Rightarrow> nat \<times> nat \<times> nat" where
  "erasure h e = (r_sector (h (we_record e)), length (r_key (h (we_record e))), we_old_value_len e)"

definition written :: "heap \<Rightarrow> (nat \<times> addr) list \<Rightarrow> (nat \<times> bytes) list" where
  "written h cl = map (\<lambda>(s, a). (s, perpare_record_data (h a))) cl"

definition ranges :: "heap \<Rightarrow> (nat \<times> addr) list \<Rightarrow> (nat \<times> nat) list" where
  "ranges h cl = map (\<lambda>(s, a). (s, rec_sectors (h a))) cl"

text \<open>What the first loop has done when it does not fail; \<open>cl\<close> pairs the new sectors with the records.\<close>

definition collected :: "write_entry list \<Rightarrow> batch \<Rightarrow> 'w wctx \<Rightarrow> batch \<Rightarrow> 'w wctx \<Rightarrow> (nat \<times> addr) list \<Rightarrow> bool" where
  "collected es b x b' x' cl \<longleftrightarrow>
     x_heap x' = x_heap x \<and> x_world x' = x_world x \<and>
     b_clear b' = b_clear b @ cl \<and> b_writes b' = b_writes b @ written (x_heap x) cl \<and>
     b_deletes b' = b_deletes b @ map (erasure (x_heap x)) (filter (erasing (x_heap x)) es) \<and>
     map snd cl = map we_record (filter (pending (x_heap x)) es) \<and>
     allocs allocate_sectors fsm_headroom (x_free_space x) (ranges (x_heap x) cl) (x_free_space x')"

lemma collect_write_Ok:
  assumes "collect_write a b x = (x1, Ok b1)"
  shows "(0 < r_refcount (x_heap x a) \<and> r_sector (x_heap x a) = 0 \<and>
      (\<exists>s. allocate_sectors (x_free_space x) (rec_sectors (x_heap x a)) = (x_free_space x1, Ok s) \<and>
        b1 = b\<lparr>b_writes := b_writes b @ [(s, perpare_record_data (x_heap x a))], b_clear := b_clear b @ [(s, a)]\<rparr>) \<and>
      x_heap x1 = x_heap x \<and> x_world x1 = x_world x) \<or>
    (\<not> (0 < r_refcount (x_heap x a) \<and> r_sector (x_heap x a) = 0) \<and> b1 = b \<and> x1 = x)"
  using assms
  by (auto simp: collect_write_def Let_def image_sectors split: if_splits prod.splits elim!: try_bind_OkD)

lemma collect_entries_Ok:
  assumes "collect_entries es b x = (x', Ok b')" "fsm_inv (x_free_space x)"
    "fsm_budget (length es + k) (x_free_space x)"
  shows "(\<exists>cl. collected es b x b' x' cl) \<and> fsm_budget k (x_free_space x')"
  using assms
proof (induction es arbitrary: b x)
  case Nil
  then show ?case by (auto simp: collected_def written_def ranges_def intro: allocs_Nil exI[of _ "[]"])
next
  case (Cons e es)
  have bud: "fsm_budget (Suc (length es + k)) (x_free_space x)" using Cons.prems(3) by simp
  then have less: "fsm_budget (length es + k) (x_free_space x)"
    by (auto simp: fsm_budget_def algebra_simps)
  consider (wr) x1 b1 where "is_write e" "collect_write (we_record e) b x = (x1, Ok b1)"
      "collect_entries es b1 x1 = (x', Ok b')"
    | (other) b1 where "\<not> is_write e" "collect_entries es b1 x = (x', Ok b')"
      "b_clear b1 = b_clear b" "b_writes b1 = b_writes b"
      "b_deletes b1 = b_deletes b @ map (erasure (x_heap x)) (filter (erasing (x_heap x)) [e])"
    using Cons.prems(1)
    by (cases "we_operation e")
      (auto simp: is_write_def erasing_def erasure_def Let_def elim!: try_bind_OkD split: if_splits)
  then show ?case
  proof cases
    case other
    with Cons.IH[of b1 x] Cons.prems(2) less show ?thesis
      by (auto simp: collected_def pending_def)
  next
    case wr
    have ne: "\<not> erasing (x_heap x) e" using wr(1) by (auto simp: is_write_def erasing_def)
    from collect_write_Ok[OF wr(2)] show ?thesis
    proof (elim disjE conjE exE)
      fix s assume al: "allocate_sectors (x_free_space x) (rec_sectors (x_heap x (we_record e))) = (x_free_space x1, Ok s)"
        and st: "0 < r_refcount (x_heap x (we_record e))" "r_sector (x_heap x (we_record e)) = 0"
        and b1: "b1 = b\<lparr>b_writes := b_writes b @ [(s, perpare_record_data (x_heap x (we_record e)))],
          b_clear := b_clear b @ [(s, we_record e)]\<rparr>"
        and same: "x_heap x1 = x_heap x" "x_world x1 = x_world x"
      have "fsm_inv (x_free_space x1)" "fsm_budget (length es + k) (x_free_space x1)"
        using fsm.alloc_Ok[OF Cons.prems(2) budget_headroom[OF bud] al] allocate_budget[OF Cons.prems(2) bud al]
        by simp_all
      with Cons.IH[OF wr(3)] obtain cl where cl: "collected es b1 x1 b' x' cl"
        and bk: "fsm_budget k (x_free_space x')" by blast
      have "collected (e # es) b x b' x' ((s, we_record e) # cl)"
        using cl b1 same st ne wr(1) al budget_headroom[OF bud]
        by (auto simp: collected_def pending_def written_def ranges_def intro: allocs_Cons)
      with bk show ?thesis by blast
    next
      assume "\<not> (0 < r_refcount (x_heap x (we_record e)) \<and> r_sector (x_heap x (we_record e)) = 0)"
        and eq: "b1 = b" "x1 = x"
      then have "\<not> pending (x_heap x) e" by (auto simp: pending_def)
      with Cons.IH[OF wr(3)[unfolded eq]] Cons.prems(2) less ne show ?thesis
        by (auto simp: collected_def)
    qed
  qed
qed

text \<open>The first loop never adds free sectors, and stops without trace when the device is full.\<close>

definition alloc_only :: "nat \<Rightarrow> 'w wctx \<Rightarrow> 'w wctx \<Rightarrow> bool" where
  "alloc_only k x x' \<longleftrightarrow> x_world x' = x_world x \<and> x_heap x' = x_heap x \<and> fsm_inv (x_free_space x') \<and> fsm_budget k (x_free_space x') \<and>
     device_sectors (x_free_space x') = device_sectors (x_free_space x) \<and> free_sectors (x_free_space x') \<subseteq> free_sectors (x_free_space x)"

lemma collect_write_any:
  assumes "collect_write a b x = (x', r)" "fsm_inv (x_free_space x)" "fsm_budget (Suc k) (x_free_space x)"
  shows "r \<noteq> Panic \<and> alloc_only k x x'"
proof (cases "0 < r_refcount (x_heap x a) \<and> r_sector (x_heap x a) = 0")
  case True
  note room = budget_headroom[OF assms(3)]
  obtain fs q where al: "allocate_sectors (x_free_space x) (rec_sectors (x_heap x a)) = (fs, q)" by fastforce
  have np: "q \<noteq> Panic" using fsm.alloc_no_panic[OF assms(2) room, of "rec_sectors (x_heap x a)"] al by simp
  show ?thesis
  proof (cases q)
    case (Ok s)
    note A = fsm.alloc_Ok[OF assms(2) room al[unfolded Ok]] and B = allocate_budget[OF assms(2,3) al[unfolded Ok]]
    from assms(1) True al Ok have "x' = x\<lparr>x_free_space := fs, x_stats := add_disk_usage (rec_sectors (x_heap x a) * BLOCK_SIZE) (x_stats x)\<rparr>"
      "r \<noteq> Panic" by (auto simp: collect_write_def Let_def image_sectors)
    with A B show ?thesis by (auto simp: alloc_only_def)
  next
    case (Err e)
    have "fs = x_free_space x" using fsm.alloc_Err[OF assms(2) room al[unfolded Err]] .
    with assms True al Err show ?thesis
      using fsm_budget_mono[OF assms(3), of k] by (auto simp: collect_write_def Let_def image_sectors alloc_only_def)
  qed (use np in simp)
next
  case False
  with assms fsm_budget_mono[OF assms(3), of k] show ?thesis by (auto simp: collect_write_def Let_def alloc_only_def)
qed

lemma alloc_only_trans: "alloc_only j x x1 \<Longrightarrow> alloc_only k x1 x2 \<Longrightarrow> alloc_only k x x2"
  by (auto simp: alloc_only_def)

lemma collect_entries_any:
  assumes "collect_entries es b x = (x', r)" "fsm_inv (x_free_space x)" "fsm_budget (length es + k) (x_free_space x)"
  shows "r \<noteq> Panic \<and> alloc_only k x x'"
  using assms
proof (induction es arbitrary: b x)
  case Nil
  then show ?case by (auto simp: alloc_only_def)
next
  case (Cons e es)
  have bud: "fsm_budget (Suc (length es + k)) (x_free_space x)" using Cons.prems(3) by simp
  consider (wr) "collect_entries (e # es) b x = try_bind (collect_write (we_record e) b x) (\<lambda>b x. collect_entries es b x)"
    | (other) b1 where "collect_entries es b1 x = (x', r)"
    using Cons.prems(1) by (cases "we_operation e") (auto simp: Let_def split: if_splits)
  then show ?case
  proof cases
    case wr
    obtain x1 r1 where c: "collect_write (we_record e) b x = (x1, r1)" by fastforce
    note C = collect_write_any[OF c Cons.prems(2) bud]
    show ?thesis
    proof (cases r1)
      case (Ok b1)
      with wr c Cons.prems(1) have rest: "collect_entries es b1 x1 = (x', r)" by simp
      from C have "fsm_inv (x_free_space x1)" "fsm_budget (length es + k) (x_free_space x1)" by (simp_all add: alloc_only_def)
      from Cons.IH[OF rest this] C alloc_only_trans show ?thesis by blast
    next
      case (Err e')
      with wr c Cons.prems(1) have "x' = x1" "r = Err e'" by simp_all
      with C fsm_budget_mono[of "length es + k" "x_free_space x1" k] show ?thesis by (auto simp: alloc_only_def)
    qed (use C in simp)
  next
    case other
    from Cons.IH[OF this Cons.prems(2)] fsm_budget_mono[OF bud, of "length es + k"] show ?thesis by simp
  qed
qed

definition del_sectors :: "nat \<times> nat \<times> nat \<Rightarrow> nat" where
  "del_sectors e = (case e of (s, key_len, value_len) \<Rightarrow>
     div_ceil (SECTOR_HEADER_SIZE + 2 + key_len + 8 + 8 + value_len) BLOCK_SIZE)"

definition del_extent :: "nat \<times> nat \<times> nat \<Rightarrow> nat set" where
  "del_extent e = {fst e..<fst e + del_sectors e}"

lemma del_sectors_pos: "0 < del_sectors e"
  unfolding del_sectors_def by (cases e) (simp add: div_ceil_pos kv_const)

text \<open>A released range is a part of the extent of the record it belongs to.\<close>

lemma del_extent_sub:
  assumes "we_old_value_len e \<le> r_value_len (h (we_record e))"
  shows "del_sectors (erasure h e) \<le> rec_sectors (h (we_record e))"
    "del_extent (erasure h e) \<subseteq> rec_extent (h (we_record e))"
proof -
  show le: "del_sectors (erasure h e) \<le> rec_sectors (h (we_record e))"
    unfolding del_sectors_def erasure_def rec_sectors_def prod.case
    by (rule div_ceil_mono) (use assms in \<open>simp_all add: kv_const total_size_def record_header_size_def\<close>)
  then show "del_extent (erasure h e) \<subseteq> rec_extent (h (we_record e))"
    by (auto simp: del_extent_def rec_extent_def erasure_def)
qed

text \<open>A batch of images in place: each reads back, everything else is as before.\<close>

definition batch_applied :: "(nat \<times> bytes) list \<Rightarrow> (nat \<Rightarrow> byte) \<Rightarrow> (nat \<Rightarrow> byte) \<Rightarrow> bool" where
  "batch_applied ws m m' \<longleftrightarrow>
     (\<forall>(s, x)\<in>set ws. fetch (s * BLOCK_SIZE) (length x) m' = x) \<and>
     (\<forall>i. (\<forall>(s, x)\<in>set ws. i < s * BLOCK_SIZE \<or> s * BLOCK_SIZE + length x \<le> i) \<longrightarrow> m' i = m i)"

definition disjoint_writes :: "(nat \<times> bytes) list \<Rightarrow> bool" where
  "disjoint_writes ws \<longleftrightarrow> (\<forall>p\<in>set ws. \<forall>q\<in>set ws. p \<noteq> q \<longrightarrow>
     fst p * BLOCK_SIZE + length (snd p) \<le> fst q * BLOCK_SIZE \<or> fst q * BLOCK_SIZE + length (snd q) \<le> fst p * BLOCK_SIZE)"

lemma write_all_outside:
  "\<forall>(s, x)\<in>set ws. i < s * BLOCK_SIZE \<or> s * BLOCK_SIZE + length x \<le> i \<Longrightarrow> write_all ws m i = m i"
  by (induction ws arbitrary: m) (auto simp: put_outside)

lemma write_all_applied: "disjoint_writes ws \<Longrightarrow> batch_applied ws m (write_all ws m)"
  unfolding batch_applied_def
proof (intro conjI ballI allI impI)
  fix p assume d: "disjoint_writes ws" and p: "p \<in> set ws"
  obtain s x where px: "p = (s, x)" by (cases p)
  have "fetch (s * BLOCK_SIZE) (length x) (write_all ws m) = x"
    using d p px by (intro fetch_write_all_last) (fastforce simp: disjoint_writes_def)+
  with px show "case p of (s, x) \<Rightarrow> fetch (s * BLOCK_SIZE) (length x) (write_all ws m) = x" by simp
qed (simp add: write_all_outside)

lemma settle_other: "a \<notin> snd ` set cl \<Longrightarrow> fold settle cl h a = h a"
  by (induction cl arbitrary: h) (auto simp: settle_def)

lemma settle_member:
  assumes "distinct (map snd cl)" "(s, a) \<in> set cl"
  shows "fold settle cl h a = clear_value ((h a)\<lparr>r_sector := s\<rparr>)"
  using assms
proof (induction cl arbitrary: h)
  case (Cons p cl)
  show ?case
  proof (cases "p = (s, a)")
    case True
    with Cons.prems have "a \<notin> snd ` set cl" by auto
    with True show ?thesis by (simp add: settle_other) (simp add: settle_def)
  next
    case False
    with Cons.prems have mem: "(s, a) \<in> set cl" by auto
    then have "a \<in> snd ` set cl" by force
    with Cons.prems(1) have "snd p \<noteq> a" by auto
    with mem Cons.IH[of "settle p h"] Cons.prems(1) show ?thesis by (simp add: settle_def)
  qed
qed simp

context block_device
begin

text \<open>The ring reports no errors: then the first attempt of a batch decides.\<close>

definition steady :: "disk_io \<Rightarrow> bool" where
  "steady d \<longleftrightarrow> (d_ring d \<longrightarrow> (\<forall>ws v v' e. quiet v \<longrightarrow> batch_write os d ws v \<noteq> (v', Err e)))"

lemma write_each_frame:
  assumes "write_each os d ws w = (w', r)" "\<forall>(s, x)\<in>set ws. s * BLOCK_SIZE < 2 ^ 63"
    and "\<forall>(s, x)\<in>set ws. i < s * BLOCK_SIZE \<or> s * BLOCK_SIZE + length x \<le> i"
  shows "media w' i = media w i \<and> quiet w' = quiet w"
  using assms
proof (induction ws arbitrary: w)
  case (Cons p ws)
  obtain s x where p: "p = (s, x)" by (cases p)
  obtain w1 r1 where w1: "write_sectors_sync os d s x w = (w1, r1)" by fastforce
  have "media w1 i = media w i" "quiet w1 = quiet w"
    using write_sectors_result[OF w1] Cons.prems(2,3) p by auto
  moreover have "media w' i = media w1 i \<and> quiet w' = quiet w1"
    using Cons.IH[of w1] Cons.prems w1 p by (cases r1) auto
  ultimately show ?case by simp
qed simp

lemma write_retry_Ok:
  assumes "write_retry (Suc n) os d ws w = (w', Ok ())" "quiet w" "steady d" "disjoint_writes ws"
    and "\<forall>(s, x)\<in>set ws. s * BLOCK_SIZE < 2 ^ 63"
  shows "batch_applied ws (media w) (media w') \<and> quiet w'"
  using assms(1,2)
proof (induction n arbitrary: w)
  case 0
  then have "batch_write os d ws w = (w', Ok ())" by (auto split: prod.splits outcome.splits)
  with batch_write_Ok[OF _ 0(2) assms(5)] write_all_applied[OF assms(4)] show ?case by auto
next
  case (Suc n)
  obtain w1 r where b: "batch_write os d ws w = (w1, r)" by fastforce
  show ?case
  proof (cases r)
    case (Ok u)
    with Suc.prems b have "batch_write os d ws w = (w', Ok ())" by simp
    with batch_write_Ok[OF _ Suc.prems(2) assms(5)] write_all_applied[OF assms(4)] show ?thesis by auto
  next
    case (Err e)
    with b assms(3) Suc.prems(2) have nr: "\<not> d_ring d" by (auto simp: steady_def)
    then have we: "write_each os d ws w = (w1, Err e)" using b Err by (simp add: batch_write_def)
    have q: "quiet w1"
    proof (cases ws)
      case Nil
      with we Suc.prems(2) show ?thesis by simp
    next
      case (Cons p ps)
      define i where "i = Max ((\<lambda>(s, x). s * BLOCK_SIZE + length x) ` set ws)"
      have "\<forall>(s, x)\<in>set ws. i < s * BLOCK_SIZE \<or> s * BLOCK_SIZE + length x \<le> i"
        by (auto simp: i_def intro!: disjI2 Max_ge)
      with write_each_frame[OF we assms(5)] Suc.prems(2) show ?thesis by blast
    qed
    have "batch_applied ws (media w1) (media w') \<and> quiet w'"
      using Suc.IH[OF _ q] Suc.prems(1) b Err by simp
    with write_each_frame[OF we assms(5)] show ?thesis by (auto simp: batch_applied_def)
  next
    case Panic
    with Suc.prems b show ?thesis by simp
  qed
qed

lemma erase_each_Ok:
  assumes "fsm_inv (x_free_space x)" "fsm_budget (length ds + k) (x_free_space x)"
    and "\<forall>e\<in>set ds. METADATA_BLOCK_SIZE \<le> fst e \<and> fst e + del_sectors e \<le> device_sectors (x_free_space x) \<and>
      del_extent e \<inter> free_sectors (x_free_space x) = {}"
    and "sorted_wrt (\<lambda>e e'. del_extent e \<inter> del_extent e' = {}) ds"
    and "device_sectors (x_free_space x) * BLOCK_SIZE < 2 ^ 63"
  shows "\<exists>x'. erase_each os d ds x = (x', Ok ()) \<and> x_heap x' = x_heap x \<and> fsm_inv (x_free_space x') \<and>
    fsm_budget k (x_free_space x') \<and> device_sectors (x_free_space x') = device_sectors (x_free_space x) \<and>
    free_sectors (x_free_space x') = free_sectors (x_free_space x) \<union> (\<Union>e\<in>set ds. del_extent e) \<and>
    quiet (x_world x') = quiet (x_world x) \<and>
    (\<forall>i. (\<forall>e\<in>set ds. i < fst e * BLOCK_SIZE \<or> (fst e + 1) * BLOCK_SIZE \<le> i) \<longrightarrow>
      media (x_world x') i = media (x_world x) i)"
  using assms
proof (induction ds arbitrary: x)
  case (Cons e ds)
  obtain s kl vl where e: "e = (s, kl, vl)" by (cases e)
  have ok: "METADATA_BLOCK_SIZE \<le> s" "s + del_sectors e \<le> device_sectors (x_free_space x)"
    "{s..<s + del_sectors e} \<inter> free_sectors (x_free_space x) = {}"
    using Cons.prems(3) by (simp_all add: e del_extent_def)
  have "s * BLOCK_SIZE \<le> device_sectors (x_free_space x) * BLOCK_SIZE" using ok(2) by (intro mult_le_mono1) simp
  with Cons.prems(5) have off: "s * BLOCK_SIZE < 2 ^ 63" by linarith
  obtain w r where w: "write_sectors_sync os d s deletion_block (x_world x) = (w, r)" by fastforce
  have len: "length deletion_block = BLOCK_SIZE" by (simp add: deletion_block_def length_DELETED_MARKER kv_const)
  note wr = write_sectors_result[OF w off]
  have nopanic: "r \<noteq> Panic"
    using write_sectors_no_panic[of s deletion_block os d "x_world x"] off w
    by (simp add: len kv_const U64_LIM_def)
  obtain f' where f': "release_sectors (x_free_space x) s (del_sectors e) = (f', Ok ())" "fsm_inv f'"
    "free_sectors f' = free_sectors (x_free_space x) \<union> {s..<s + del_sectors e}"
    "device_sectors f' = device_sectors (x_free_space x)" "fsm_budget (length ds + k) f'"
    using release_budget[of "x_free_space x" "length ds + k" "del_sectors e" s] Cons.prems(1,2) ok del_sectors_pos
    by auto
  define x1 where "x1 = x\<lparr>x_world := w, x_free_space := f',
    x_stats := sub_disk_usage (del_sectors e * BLOCK_SIZE) (x_stats x)\<rparr>"
  have step: "erase_each os d (e # ds) x = erase_each os d ds x1"
    using w nopanic f'(1) by (simp add: e del_sectors_def x1_def Let_def)
  have "\<forall>e'\<in>set ds. METADATA_BLOCK_SIZE \<le> fst e' \<and> fst e' + del_sectors e' \<le> device_sectors f' \<and>
      del_extent e' \<inter> free_sectors f' = {}"
    using Cons.prems(3,4) f'(3,4) by (auto simp: e del_extent_def)
  with Cons.IH[of x1] Cons.prems f' obtain x' where x': "erase_each os d ds x1 = (x', Ok ())"
    "x_heap x' = x_heap x1" "fsm_inv (x_free_space x')" "fsm_budget k (x_free_space x')"
    "device_sectors (x_free_space x') = device_sectors f'"
    "free_sectors (x_free_space x') = free_sectors f' \<union> (\<Union>e\<in>set ds. del_extent e)"
    "quiet (x_world x') = quiet w"
    "\<forall>i. (\<forall>e\<in>set ds. i < fst e * BLOCK_SIZE \<or> (fst e + 1) * BLOCK_SIZE \<le> i) \<longrightarrow> media (x_world x') i = media w i"
    by (auto simp: x1_def)
  show ?case
    by (rule exI[of _ x']) (use x' step f' wr len in \<open>auto simp: x1_def e del_extent_def\<close>)
qed simp

lemma write_retry_Err:
  assumes "write_retry n os d ws w = (w', Err e)" "quiet w" "steady d" "\<forall>(s, x)\<in>set ws. s * BLOCK_SIZE < 2 ^ 63"
    and "\<forall>(s, x)\<in>set ws. i < s * BLOCK_SIZE \<or> s * BLOCK_SIZE + length x \<le> i"
  shows "media w' i = media w i \<and> quiet w'"
  using assms(1,2)
proof (induction n arbitrary: w)
  case (Suc n)
  obtain w1 r where b: "batch_write os d ws w = (w1, r)" by fastforce
  with Suc.prems(1) obtain e1 where r: "r = Err e1" by (cases r) auto
  with b assms(3) Suc.prems(2) have "\<not> d_ring d" by (auto simp: steady_def)
  then have we: "write_each os d ws w = (w1, Err e1)" using b r by (simp add: batch_write_def)
  note F = write_each_frame[OF we assms(4,5)]
  with Suc.prems(2) have q: "quiet w1" by simp
  show ?case
  proof (cases "n = 0")
    case True
    with Suc.prems(1) b r F q show ?thesis by simp
  next
    case False
    with Suc.prems(1) b r have "write_retry n os d ws w1 = (w', Err e)" by simp
    from Suc.IH[OF this q] F show ?thesis by simp
  qed
qed simp

end

section \<open>What a batch preserves\<close>

text \<open>
  A set of records whose extents on disk lie in the data area, outside the free sectors and apart
  from each other; records that are not on disk have their value in memory.
\<close>

definition disk_ok :: "free_space_manager \<Rightarrow> heap \<Rightarrow> addr set \<Rightarrow> bool" where
  "disk_ok fs h A \<longleftrightarrow>
     (\<forall>a\<in>A. record_wf (h a) \<and> (r_sector (h a) = 0 \<longrightarrow> r_value (h a) \<noteq> None)) \<and>
     (\<forall>a\<in>A. r_sector (h a) \<noteq> 0 \<longrightarrow> METADATA_BLOCK_SIZE \<le> r_sector (h a) \<and>
        r_sector (h a) + rec_sectors (h a) \<le> device_sectors fs \<and> rec_extent (h a) \<inter> free_sectors fs = {}) \<and>
     (\<forall>a\<in>A. \<forall>b\<in>A. a \<noteq> b \<longrightarrow> r_sector (h a) \<noteq> 0 \<longrightarrow> r_sector (h b) \<noteq> 0 \<longrightarrow>
        rec_extent (h a) \<inter> rec_extent (h b) = {})"

text \<open>Entries of a batch: each record is written and erased at most once.\<close>

definition entries_ok :: "heap \<Rightarrow> write_entry list \<Rightarrow> addr set \<Rightarrow> bool" where
  "entries_ok h es A \<longleftrightarrow>
     distinct (map we_record (filter is_write es)) \<and> distinct (map we_record (filter (erasing h) es)) \<and>
     (\<forall>e\<in>set es. we_record e \<in> A \<and> (erasing h e \<longrightarrow> we_old_value_len e \<le> r_value_len (h (we_record e))))"

definition erased :: "heap \<Rightarrow> write_entry list \<Rightarrow> addr set" where
  "erased h es = we_record ` {e \<in> set es. erasing h e}"

lemma disk_okD:
  assumes "disk_ok fs h A" "a \<in> A"
  shows "record_wf (h a)" "r_sector (h a) = 0 \<Longrightarrow> r_value (h a) \<noteq> None"
    "r_sector (h a) \<noteq> 0 \<Longrightarrow> METADATA_BLOCK_SIZE \<le> r_sector (h a)"
    "r_sector (h a) \<noteq> 0 \<Longrightarrow> r_sector (h a) + rec_sectors (h a) \<le> device_sectors fs"
    "r_sector (h a) \<noteq> 0 \<Longrightarrow> rec_extent (h a) \<inter> free_sectors fs = {}"
    "b \<in> A \<Longrightarrow> a \<noteq> b \<Longrightarrow> r_sector (h a) \<noteq> 0 \<Longrightarrow> r_sector (h b) \<noteq> 0 \<Longrightarrow> rec_extent (h a) \<inter> rec_extent (h b) = {}"
  using assms by (auto simp: disk_ok_def)

lemma erased_on_disk:
  assumes "entries_ok h es A"
  shows "erased h es \<subseteq> A" "\<forall>a\<in>erased h es. r_sector (h a) \<noteq> 0"
  using assms by (auto simp: erased_def entries_ok_def erasing_def)

lemma disk_ok_shrink:
  assumes "disk_ok fs h A" "B \<subseteq> A" "device_sectors fs' = device_sectors fs" "free_sectors fs' \<subseteq> free_sectors fs"
  shows "disk_ok fs' h B"
  unfolding disk_ok_def
proof (intro conjI ballI impI)
  fix a assume a: "a \<in> B"
  then have A: "a \<in> A" using assms(2) by blast
  note D = disk_okD[OF assms(1) A]
  show "record_wf (h a)" "r_sector (h a) = 0 \<Longrightarrow> r_value (h a) \<noteq> None" "r_sector (h a) \<noteq> 0 \<Longrightarrow> METADATA_BLOCK_SIZE \<le> r_sector (h a)"
    "r_sector (h a) \<noteq> 0 \<Longrightarrow> r_sector (h a) + rec_sectors (h a) \<le> device_sectors fs'"
    using D(1-4) assms(3) by simp_all
  show "r_sector (h a) \<noteq> 0 \<Longrightarrow> rec_extent (h a) \<inter> free_sectors fs' = {}" using D(5) assms(4) by blast
  fix b assume "b \<in> B" "a \<noteq> b" "r_sector (h a) \<noteq> 0" "r_sector (h b) \<noteq> 0"
  with D(6)[of b] assms(2) show "rec_extent (h a) \<inter> rec_extent (h b) = {}" by blast
qed

text \<open>After the last failure: one sector per record goes back.\<close>

lemma release_each_ok:
  assumes "fsm_inv f" "fsm_budget (length cl + k) f" "distinct (map fst cl)"
    and "\<forall>(s, a)\<in>set cl. METADATA_BLOCK_SIZE \<le> s \<and> s < device_sectors f \<and> s \<notin> free_sectors f"
  shows "\<exists>f'. release_each cl f = (f', Ok ()) \<and> fsm_inv f' \<and> device_sectors f' = device_sectors f \<and>
    free_sectors f' = free_sectors f \<union> fst ` set cl \<and> fsm_budget k f'"
  using assms
proof (induction cl arbitrary: f)
  case (Cons p cl)
  obtain s a where p: "p = (s, a)" by fastforce
  have b: "fsm_budget (Suc (length cl + k)) f" using Cons.prems(2) by simp
  have s: "METADATA_BLOCK_SIZE \<le> s" "s + 1 \<le> device_sectors f" "{s..<s + 1} \<inter> free_sectors f = {}"
    using Cons.prems(4) by (auto simp: p)
  obtain f1 where f1: "release_sectors f s 1 = (f1, Ok ())" "fsm_inv f1" "free_sectors f1 = free_sectors f \<union> {s..<s + 1}"
    "device_sectors f1 = device_sectors f" "fsm_budget (length cl + k) f1"
    using release_budget[OF Cons.prems(1) b _ s] by auto
  have "\<exists>f'. release_each cl f1 = (f', Ok ()) \<and> fsm_inv f' \<and> device_sectors f' = device_sectors f1 \<and>
    free_sectors f' = free_sectors f1 \<union> fst ` set cl \<and> fsm_budget k f'"
  proof (rule Cons.IH)
    show "\<forall>(t, b)\<in>set cl. METADATA_BLOCK_SIZE \<le> t \<and> t < device_sectors f1 \<and> t \<notin> free_sectors f1"
    proof (clarify, intro conjI)
      fix t b assume t: "(t, b) \<in> set cl"
      then have "t \<noteq> s" using Cons.prems(3) by (force simp: p)
      with t Cons.prems(4) f1 show "METADATA_BLOCK_SIZE \<le> t" "t < device_sectors f1" "t \<notin> free_sectors f1" by auto
    qed
  qed (use f1 Cons.prems(3) in \<open>simp_all add: p\<close>)
  with f1 show ?case by (auto simp: p)
qed simp

lemma sorted_wrt_pair:
  assumes "sorted_wrt P xs" "\<And>x y. P x y \<Longrightarrow> P y x" "x \<in> set xs" "y \<in> set xs" "x \<noteq> y"
  shows "P x y"
  using assms by (induction xs) auto

lemma sorted_wrt_distinct:
  "distinct (map f xs) \<Longrightarrow> (\<And>x y. x \<in> set xs \<Longrightarrow> y \<in> set xs \<Longrightarrow> f x \<noteq> f y \<Longrightarrow> P x y) \<Longrightarrow> sorted_wrt P xs"
  by (induction xs) auto

text \<open>The first loop: fresh, disjoint sectors for the pending records.\<close>

definition placed :: "free_space_manager \<Rightarrow> heap \<Rightarrow> addr set \<Rightarrow> (nat \<times> addr) list \<Rightarrow> bool" where
  "placed fs h A cl \<longleftrightarrow> distinct (map snd cl) \<and>
     (\<forall>(s, a)\<in>set cl. a \<in> A \<and> r_sector (h a) = 0 \<and> METADATA_BLOCK_SIZE \<le> s \<and>
        s + rec_sectors (h a) \<le> device_sectors fs \<and> {s..<s + rec_sectors (h a)} \<subseteq> free_sectors fs) \<and>
     (\<forall>(s, a)\<in>set cl. \<forall>(t, b)\<in>set cl. (s, a) \<noteq> (t, b) \<longrightarrow>
        {s..<s + rec_sectors (h a)} \<inter> {t..<t + rec_sectors (h b)} = {})"

lemma collected_placed:
  assumes "collected es b x b' x' cl" "fsm_inv (x_free_space x)" "entries_ok (x_heap x) es A"
  shows "placed (x_free_space x) (x_heap x) A cl" "fsm_inv (x_free_space x')"
    "device_sectors (x_free_space x') = device_sectors (x_free_space x)"
    "free_sectors (x_free_space x') = free_sectors (x_free_space x) - (\<Union>(s, a)\<in>set cl. {s..<s + rec_sectors (x_heap x a)})"
proof -
  let ?h = "x_heap x" and ?fs = "x_free_space x"
  have al: "allocs allocate_sectors fsm_headroom ?fs (ranges ?h cl) (x_free_space x')"
    and snds: "map snd cl = map we_record (filter (pending ?h) es)"
    using assms(1) by (simp_all add: collected_def)
  note S = fsm.allocs_sound[OF al assms(2)]
  show "fsm_inv (x_free_space x')" using S by simp
  show "device_sectors (x_free_space x') = device_sectors ?fs" by (rule fsm.allocs_limit[OF al assms(2)])
  show "free_sectors (x_free_space x') = free_sectors ?fs - (\<Union>(s, a)\<in>set cl. {s..<s + rec_sectors (?h a)})"
    using S by (auto simp: ranges_def case_prod_beta)
  have sub: "{s..<s + rec_sectors (?h a)} \<subseteq> free_sectors ?fs" if "(s, a) \<in> set cl" for s a
    using S that by (force simp: ranges_def)
  have "distinct (map we_record (filter (pending ?h) (filter is_write es)))"
    by (rule distinct_map_filter) (use assms(3) in \<open>simp add: entries_ok_def\<close>)
  moreover have "filter (pending ?h) (filter is_write es) = filter (pending ?h) es"
    by (induction es) (auto simp: pending_def)
  ultimately have d: "distinct (map snd cl)" using snds by simp
  have mem: "a \<in> A \<and> r_sector (?h a) = 0" if "(s, a) \<in> set cl" for s a
  proof -
    have "a \<in> set (map snd cl)" using that by force
    then show ?thesis using assms(3) unfolding snds by (auto simp: entries_ok_def pending_def)
  qed
  have bounds: "METADATA_BLOCK_SIZE \<le> s \<and> s + rec_sectors (?h a) \<le> device_sectors ?fs" if "(s, a) \<in> set cl" for s a
  proof -
    have "{s..<s + rec_sectors (?h a)} \<subseteq> {METADATA_BLOCK_SIZE..<device_sectors ?fs}"
      using sub[OF that] fsm.free_range[OF assms(2)] by (rule order_trans)
    from atLeastLessThan_subset_iff[OF this] rec_sectors_pos[of "?h a"] show ?thesis by auto
  qed
  have pairs: "sorted_wrt (\<lambda>p q. extent (case p of (s, a) \<Rightarrow> (s, rec_sectors (?h a))) \<inter>
      extent (case q of (s, a) \<Rightarrow> (s, rec_sectors (?h a))) = {}) cl"
    using S by (simp add: ranges_def sorted_wrt_map)
  have "{s..<s + rec_sectors (?h a)} \<inter> {t..<t + rec_sectors (?h b)} = {}"
    if "(s, a) \<in> set cl" "(t, b) \<in> set cl" "(s, a) \<noteq> (t, b)" for s a t b
    using sorted_wrt_pair[OF pairs _ that] by (simp add: Int_commute)
  with d mem bounds sub show "placed ?fs ?h A cl" unfolding placed_def by blast
qed

lemma placed_writes:
  assumes "placed fs h A cl" "device_sectors fs * BLOCK_SIZE < 2 ^ 63"
  shows "disjoint_writes (written h cl)" "\<forall>(s, x)\<in>set (written h cl). s * BLOCK_SIZE < 2 ^ 63"
proof -
  have bytes: "s * BLOCK_SIZE + length (perpare_record_data (h a)) = (s + rec_sectors (h a)) * BLOCK_SIZE" for s a
    by (simp add: length_image add_mult_distrib)
  have apart: "(s + m) * BLOCK_SIZE \<le> t * BLOCK_SIZE \<or> (t + n) * BLOCK_SIZE \<le> s * BLOCK_SIZE"
    if "{s..<s + m} \<inter> {t..<t + n} = {}" "0 < m" "0 < n" for s t m n
  proof -
    have "s + m \<le> t \<or> t + n \<le> s"
    proof (rule ccontr)
      assume "\<not> (s + m \<le> t \<or> t + n \<le> s)"
      then have "max s t \<in> {s..<s + m} \<inter> {t..<t + n}" using that(2,3) by auto
      with that(1) show False by blast
    qed
    then show ?thesis by (elim disjE) (auto intro: mult_le_mono1)
  qed
  show "disjoint_writes (written h cl)"
    unfolding disjoint_writes_def
  proof (intro ballI impI)
    fix p q assume "p \<in> set (written h cl)" "q \<in> set (written h cl)" "p \<noteq> q"
    then obtain s a t b where "(s, a) \<in> set cl" "(t, b) \<in> set cl" "(s, a) \<noteq> (t, b)"
      and pq: "p = (s, perpare_record_data (h a))" "q = (t, perpare_record_data (h b))"
      by (auto simp: written_def)
    with assms(1) have "{s..<s + rec_sectors (h a)} \<inter> {t..<t + rec_sectors (h b)} = {}"
      by (fastforce simp: placed_def)
    from apart[OF this rec_sectors_pos rec_sectors_pos] show
      "fst p * BLOCK_SIZE + length (snd p) \<le> fst q * BLOCK_SIZE \<or> fst q * BLOCK_SIZE + length (snd q) \<le> fst p * BLOCK_SIZE"
      by (simp add: pq bytes)
  qed
  show "\<forall>(s, x)\<in>set (written h cl). s * BLOCK_SIZE < 2 ^ 63"
  proof (clarsimp simp: written_def)
    fix s a assume "(s, a) \<in> set cl"
    with assms(1) have "s \<le> device_sectors fs" by (fastforce simp: placed_def)
    then have "s * BLOCK_SIZE \<le> device_sectors fs * BLOCK_SIZE" by (rule mult_le_mono1)
    then have "s * BLOCK_SIZE < 2 ^ 63" using assms(2) by (rule le_less_trans)
    then show "s * BLOCK_SIZE < 9223372036854775808" by simp
  qed
qed

lemma placed_fst:
  assumes "placed fs h A cl"
  shows "distinct (map fst cl)"
proof -
  have "distinct cl" using assms by (simp add: placed_def distinct_map)
  moreover have "inj_on fst (set cl)"
  proof (rule inj_onI)
    fix p q assume pq: "p \<in> set cl" "q \<in> set cl" "fst p = fst q"
    obtain s a b where p: "p = (s, a)" "q = (s, b)" using pq(3) by (metis prod.collapse)
    have "{s..<s + rec_sectors (h a)} \<inter> {s..<s + rec_sectors (h b)} \<noteq> {}"
      using rec_sectors_pos[of "h a"] rec_sectors_pos[of "h b"] by auto
    with assms pq(1,2) show "p = q" unfolding p placed_def by fastforce
  qed
  ultimately show ?thesis by (simp add: distinct_map)
qed

lemma placed_start:
  assumes "placed fs h A cl" "(s, a) \<in> set cl"
  shows "METADATA_BLOCK_SIZE \<le> s" "s < device_sectors fs" "s \<in> free_sectors fs" "s \<in> {s..<s + rec_sectors (h a)}"
  using assms rec_sectors_pos[of "h a"] by (force simp: placed_def)+

lemma placed_held:
  assumes P: "placed fs h A cl" and D: "disk_ok fs h A" and E: "E \<subseteq> A" "\<forall>a\<in>E. r_sector (h a) \<noteq> 0"
    and dev: "device_sectors fs' = device_sectors fs"
    and free: "free_sectors fs' \<subseteq> free_sectors fs - (\<Union>(s, a)\<in>set cl. {s..<s + rec_sectors (h a)}) \<union> (\<Union>a\<in>E. rec_extent (h a))"
  shows "\<forall>(s, a)\<in>set cl. METADATA_BLOCK_SIZE \<le> s \<and> s < device_sectors fs' \<and> s \<notin> free_sectors fs'"
proof (clarify, intro conjI)
  fix s a assume s: "(s, a) \<in> set cl"
  note S = placed_start[OF P s]
  show "METADATA_BLOCK_SIZE \<le> s" "s < device_sectors fs'" using S dev by simp_all
  have "s \<notin> rec_extent (h y)" if "y \<in> E" for y using S(3) disk_okD(5)[OF D, of y] E that by blast
  with free S(4) s show "s \<notin> free_sectors fs'" by blast
qed

lemma placed_lengths:
  assumes "placed fs h A cl" "device_sectors fs * BLOCK_SIZE < 2 ^ 63"
  shows "\<forall>(s, x)\<in>set (written h cl). s * BLOCK_SIZE < U64_LIM \<and> length x + BLOCK_SIZE < U64_LIM"
proof (clarsimp simp: written_def length_image)
  fix s a assume "(s, a) \<in> set cl"
  then have "s \<le> device_sectors fs" "rec_sectors (h a) \<le> device_sectors fs" using assms(1) by (fastforce simp: placed_def)+
  then have "s * BLOCK_SIZE \<le> device_sectors fs * BLOCK_SIZE" "rec_sectors (h a) * BLOCK_SIZE \<le> device_sectors fs * BLOCK_SIZE"
    by (auto intro: mult_le_mono1)
  then have "s * BLOCK_SIZE < 2 ^ 63" "rec_sectors (h a) * BLOCK_SIZE < 2 ^ 63" using assms(2) by linarith+
  then show "s * BLOCK_SIZE < U64_LIM \<and> rec_sectors (h a) * BLOCK_SIZE + BLOCK_SIZE < U64_LIM" by (simp add: U64_LIM_def kv_const)
qed

lemma write_retry_no_panic:
  assumes "\<forall>(s, x)\<in>set ws. s * BLOCK_SIZE < U64_LIM \<and> length x + BLOCK_SIZE < U64_LIM"
  shows "snd (write_retry n os d ws w) \<noteq> Panic"
proof (induction n arbitrary: w)
  case (Suc n)
  obtain w1 r where b: "batch_write os d ws w = (w1, r)" by fastforce
  with batch_write_no_panic[OF assms, of os d w] Suc show ?case by (cases r) auto
qed simp

text \<open>The settled heap on the new content: values, extents and free sectors.\<close>

lemma disjoint_block:
  assumes "r_sector r \<le> i div BLOCK_SIZE" "i div BLOCK_SIZE < r_sector r + n" "X \<inter> {r_sector r..<r_sector r + n} = {}"
  shows "i div BLOCK_SIZE \<notin> X"
  using assms by auto

lemma block_range: "s * BLOCK_SIZE \<le> i \<and> i < t * BLOCK_SIZE \<longleftrightarrow> s \<le> i div BLOCK_SIZE \<and> i div BLOCK_SIZE < t"
  by (auto simp: kv_const less_eq_div_iff_mult_less_eq div_less_iff_less_mult)

lemma value_unchanged:
  assumes "\<And>i. i div BLOCK_SIZE \<in> rec_extent r \<Longrightarrow> m' i = m i"
  shows "value_of m' r = value_of m r"
proof -
  have "value_at m' r = value_at m r"
  proof (rule value_at_cong)
    fix i assume "r_sector r * BLOCK_SIZE \<le> i" "i < (r_sector r + rec_sectors r) * BLOCK_SIZE"
    then have "r_sector r \<le> i div BLOCK_SIZE \<and> i div BLOCK_SIZE < r_sector r + rec_sectors r"
      using block_range[of "r_sector r" i "r_sector r + rec_sectors r"] by blast
    then show "m' i = m i" by (intro assms) (simp add: rec_extent_def)
  qed
  then show ?thesis by (simp add: value_of_def split: option.split)
qed

lemma batch_applied_outside:
  assumes "batch_applied (written h cl) m m'" "\<And>s a. (s, a) \<in> set cl \<Longrightarrow> i div BLOCK_SIZE \<notin> {s..<s + rec_sectors (h a)}"
  shows "m' i = m i"
proof -
  have "i < s * BLOCK_SIZE \<or> s * BLOCK_SIZE + length (perpare_record_data (h a)) \<le> i" if "(s, a) \<in> set cl" for s a
    using assms(2)[OF that] block_range[of s i "s + rec_sectors (h a)"]
    by (auto simp: length_image add_mult_distrib)
  then have "\<forall>(s, x)\<in>set (written h cl). i < s * BLOCK_SIZE \<or> s * BLOCK_SIZE + length x \<le> i"
    by (auto simp: written_def)
  with assms(1) show ?thesis by (simp add: batch_applied_def)
qed

lemma settled_fields:
  "clear_value (r\<lparr>r_sector := s\<rparr>) = r\<lparr>r_sector := s, r_value := None\<rparr>"
  by (simp add: clear_value_def)

lemma rec_sectors_settled: "rec_sectors (r\<lparr>r_sector := s, r_value := None\<rparr>) = rec_sectors r"
  by (simp add: rec_sectors_def)

lemma kept_values:
  assumes P: "placed fs h A cl" and D: "disk_ok fs h A" and E: "E \<subseteq> A" "\<forall>a\<in>E. r_sector (h a) \<noteq> 0"
    and m1: "\<And>i. (\<And>a. a \<in> E \<Longrightarrow> i div BLOCK_SIZE \<notin> rec_extent (h a)) \<Longrightarrow> m1 i = m i"
    and m': "\<And>i. (\<And>s a. (s, a) \<in> set cl \<Longrightarrow> i div BLOCK_SIZE \<notin> {s..<s + rec_sectors (h a)}) \<Longrightarrow> m' i = m1 i"
    and a: "a \<in> A - E"
  shows "value_of m' (h a) = value_of m (h a)"
proof (cases "r_sector (h a) = 0")
  case True
  with disk_okD(2)[OF D, of a] a obtain v where "r_value (h a) = Some v" by blast
  then show ?thesis by (simp add: value_of_def)
next
  case on: False
  show ?thesis
  proof (rule value_unchanged)
    fix i assume i: "i div BLOCK_SIZE \<in> rec_extent (h a)"
    have "i div BLOCK_SIZE \<notin> {s..<s + rec_sectors (h b)}" if "(s, b) \<in> set cl" for s b
      using P that disk_okD(5)[OF D _ on] a i unfolding placed_def by fastforce
    then have "m' i = m1 i" by (rule m')
    moreover have "i div BLOCK_SIZE \<notin> rec_extent (h b)" if "b \<in> E" for b
      using disk_okD(6)[OF D, of a b] a on E that i by blast
    then have "m1 i = m i" by (rule m1)
    ultimately show "m' i = m i" by simp
  qed
qed

text \<open>\<open>m1\<close> is the content after the erasures, \<open>m'\<close> after the writes.\<close>

lemma settled_values:
  assumes P: "placed fs h A cl" and D: "disk_ok fs h A" and E: "E \<subseteq> A" "\<forall>a\<in>E. r_sector (h a) \<noteq> 0"
    and m1: "\<And>i. (\<And>a. a \<in> E \<Longrightarrow> i div BLOCK_SIZE \<notin> rec_extent (h a)) \<Longrightarrow> m1 i = m i"
    and m': "batch_applied (written h cl) m1 m'" and a: "a \<in> A - E"
  shows "value_of m' (fold settle cl h a) = value_of m (h a)"
proof (cases "a \<in> snd ` set cl")
  case True
  then obtain s where s: "(s, a) \<in> set cl" by force
  from P s have pl: "distinct (map snd cl)" "r_sector (h a) = 0" by (auto simp: placed_def)
  obtain v where v: "r_value (h a) = Some v" using disk_okD(2)[OF D] a pl(2) by auto
  have "fetch (s * BLOCK_SIZE) (rec_sectors (h a) * BLOCK_SIZE) m' = perpare_record_data (h a)"
    using m' s by (auto simp: batch_applied_def written_def length_image)
  from value_at_image[OF _ v this] disk_okD(1)[OF D] a have "value_at m' ((h a)\<lparr>r_sector := s\<rparr>) = v" by simp
  then show ?thesis
    using settle_member[OF pl(1) s, of h] v by (simp add: settled_fields value_of_def value_at_def)
next
  case False
  have "value_of m' (h a) = value_of m (h a)"
    by (rule kept_values[OF P D E m1 batch_applied_outside[OF m'] a]) simp_all
  with False show ?thesis by (simp add: settle_other)
qed

lemma settled_disk_ok:
  assumes P: "placed fs h A cl" and D: "disk_ok fs h A" and E: "E \<subseteq> A" "\<forall>a\<in>E. r_sector (h a) \<noteq> 0"
    and dev: "device_sectors fs' = device_sectors fs"
    and free: "free_sectors fs' \<subseteq> free_sectors fs - (\<Union>(s, a)\<in>set cl. {s..<s + rec_sectors (h a)}) \<union> (\<Union>a\<in>E. rec_extent (h a))"
    and lim: "device_sectors fs < U64_LIM"
  shows "disk_ok fs' (fold settle cl h) (A - E)"
proof -
  let ?h = "fold settle cl h"
  have pd: "distinct (map snd cl)" using P by (simp add: placed_def)
  have new: "?h a = (h a)\<lparr>r_sector := s, r_value := None\<rparr> \<and> METADATA_BLOCK_SIZE \<le> s \<and>
      s + rec_sectors (h a) \<le> device_sectors fs \<and> {s..<s + rec_sectors (h a)} \<subseteq> free_sectors fs"
    if "(s, a) \<in> set cl" for s a
    using settle_member[OF pd that, of h] P that by (auto simp: placed_def settled_fields)
  have old: "?h a = h a" if "a \<notin> snd ` set cl" for a using settle_other[OF that] .
  have split: "(\<exists>s. (s, a) \<in> set cl) \<or> a \<notin> snd ` set cl" for a by force
  have ext: "rec_extent (?h a) = {s..<s + rec_sectors (h a)}" if "(s, a) \<in> set cl" for s a
    using new[OF that] by (simp add: rec_extent_def rec_sectors_settled)
  have one: "record_wf (?h a) \<and> (r_sector (?h a) = 0 \<longrightarrow> r_value (?h a) \<noteq> None) \<and>
      (r_sector (?h a) \<noteq> 0 \<longrightarrow> METADATA_BLOCK_SIZE \<le> r_sector (?h a) \<and>
        r_sector (?h a) + rec_sectors (?h a) \<le> device_sectors fs' \<and> rec_extent (?h a) \<inter> free_sectors fs' = {})"
    if a: "a \<in> A - E" for a
  proof (cases "\<exists>s. (s, a) \<in> set cl")
    case True
    then obtain s where s: "(s, a) \<in> set cl" by blast
    have "record_wf (?h a)"
      using disk_okD(1)[OF D, of a] a new[OF s] lim by (simp add: record_wf_def)
    moreover have "rec_extent (?h a) \<inter> rec_extent (h b) = {}" if "b \<in> E" for b
      using ext[OF s] new[OF s] disk_okD(5)[OF D, of b] E that by blast
    then have "rec_extent (?h a) \<inter> free_sectors fs' = {}" using free ext[OF s] s by blast
    ultimately show ?thesis
      using new[OF s] dev by (simp add: rec_sectors_settled kv_const)
  next
    case False
    then have eq: "?h a = h a" using split old by blast
    have "rec_extent (h a) \<inter> free_sectors fs' = {}" if on: "r_sector (h a) \<noteq> 0"
    proof -
      have "rec_extent (h a) \<inter> free_sectors fs = {}" using disk_okD(5)[OF D _ on] a by blast
      moreover have "rec_extent (h a) \<inter> rec_extent (h b) = {}" if "b \<in> E" for b
        using disk_okD(6)[OF D, of a b] a on E that by blast
      ultimately show ?thesis using free by blast
    qed
    with D a show ?thesis unfolding eq dev by (auto simp: disk_ok_def)
  qed
  have two: "rec_extent (?h a) \<inter> rec_extent (?h b) = {}"
    if ab: "a \<in> A - E" "b \<in> A - E" "a \<noteq> b" "r_sector (?h a) \<noteq> 0" "r_sector (?h b) \<noteq> 0" for a b
  proof -
    have mixed: "rec_extent (?h x) \<inter> rec_extent (?h y) = {}"
      if "(s, x) \<in> set cl" "y \<in> A" "y \<notin> snd ` set cl" "r_sector (?h y) \<noteq> 0" for s x y
      using ext[OF that(1)] new[OF that(1)] old[OF that(3)] disk_okD(5)[OF D that(2)] that(4) by auto
    consider s t where "(s, a) \<in> set cl" "(t, b) \<in> set cl" | s where "(s, a) \<in> set cl" "b \<notin> snd ` set cl"
      | t where "a \<notin> snd ` set cl" "(t, b) \<in> set cl" | "a \<notin> snd ` set cl" "b \<notin> snd ` set cl"
      using split by meson
    then show ?thesis
    proof cases
      case (1 s t)
      have "{s..<s + rec_sectors (h a)} \<inter> {t..<t + rec_sectors (h b)} = {}"
        using P 1 ab(3) unfolding placed_def by fastforce
      with ext 1 show ?thesis by simp
    next
      case (2 s)
      with mixed[of s a b] ab show ?thesis by blast
    next
      case (3 t)
      with mixed[of t b a] ab show ?thesis by blast
    next
      case 4
      with old disk_okD(6)[OF D, of a b] ab show ?thesis by simp
    qed
  qed
  show ?thesis unfolding disk_ok_def using one two by simp
qed

lemma fold_settle_other_fields:
  "r_key (fold settle cl h a) = r_key (h a) \<and> r_timestamp (fold settle cl h a) = r_timestamp (h a) \<and>
   r_ttl_expiry (fold settle cl h a) = r_ttl_expiry (h a) \<and> r_value_len (fold settle cl h a) = r_value_len (h a) \<and>
   r_refcount (fold settle cl h a) = r_refcount (h a)"
  by (induction cl arbitrary: h) (auto simp: settle_def clear_value_def)

text \<open>The erasures of a batch are legal releases.\<close>

lemma erasures_legal:
  assumes D: "disk_ok fs h A" and E: "entries_ok h es A" and free: "free_sectors fs1 \<subseteq> free_sectors fs"
    and dev: "device_sectors fs1 = device_sectors fs"
  shows "\<forall>e\<in>set (map (erasure h) (filter (erasing h) es)). METADATA_BLOCK_SIZE \<le> fst e \<and>
      fst e + del_sectors e \<le> device_sectors fs1 \<and> del_extent e \<inter> free_sectors fs1 = {}"
    "sorted_wrt (\<lambda>e e'. del_extent e \<inter> del_extent e' = {}) (map (erasure h) (filter (erasing h) es))"
proof -
  have one: "we_record e \<in> A" "r_sector (h (we_record e)) \<noteq> 0" "we_old_value_len e \<le> r_value_len (h (we_record e))"
    if "e \<in> set (filter (erasing h) es)" for e
    using that E by (auto simp: entries_ok_def erasing_def)
  show "\<forall>e\<in>set (map (erasure h) (filter (erasing h) es)). METADATA_BLOCK_SIZE \<le> fst e \<and>
      fst e + del_sectors e \<le> device_sectors fs1 \<and> del_extent e \<inter> free_sectors fs1 = {}"
  proof (simp only: set_map, rule ballI, erule imageE)
    fix d e assume e: "e \<in> set (filter (erasing h) es)" and d: "d = erasure h e"
    note o = one[OF e] and x = disk_okD(3,4,5)[OF D one(1)[OF e] one(2)[OF e]]
    have "fst (erasure h e) = r_sector (h (we_record e))" by (simp add: erasure_def)
    with del_extent_sub[of e h, OF o(3)] x free dev show "METADATA_BLOCK_SIZE \<le> fst d \<and>
      fst d + del_sectors d \<le> device_sectors fs1 \<and> del_extent d \<inter> free_sectors fs1 = {}"
      unfolding d by auto
  qed
  have "sorted_wrt (\<lambda>e e'. del_extent (erasure h e) \<inter> del_extent (erasure h e') = {}) (filter (erasing h) es)"
  proof (rule sorted_wrt_distinct[where f = we_record])
    show "distinct (map we_record (filter (erasing h) es))" using E by (simp add: entries_ok_def)
    fix e e' assume e: "e \<in> set (filter (erasing h) es)" "e' \<in> set (filter (erasing h) es)" "we_record e \<noteq> we_record e'"
    have "rec_extent (h (we_record e)) \<inter> rec_extent (h (we_record e')) = {}"
      by (rule disk_okD(6)[OF D one(1)[OF e(1)] one(1)[OF e(2)] e(3) one(2)[OF e(1)] one(2)[OF e(2)]])
    with del_extent_sub(2)[of e h, OF one(3)[OF e(1)]] del_extent_sub(2)[of e' h, OF one(3)[OF e(2)]]
    show "del_extent (erasure h e) \<inter> del_extent (erasure h e') = {}" by blast
  qed
  then show "sorted_wrt (\<lambda>e e'. del_extent e \<inter> del_extent e' = {}) (map (erasure h) (filter (erasing h) es))"
    by (simp add: sorted_wrt_map)
qed

lemma try_bind_heap:
  "x_heap (fst p) = h \<Longrightarrow> (\<And>b z. x_heap z = h \<Longrightarrow> x_heap (fst (k b z)) = h) \<Longrightarrow> x_heap (fst (try_bind p k)) = h"
  by (cases p; cases "snd p") auto

lemma collect_write_heap: "x_heap (fst (collect_write a b x)) = x_heap x"
  by (auto simp: collect_write_def Let_def split: prod.split intro!: try_bind_heap)

lemma collect_entries_heap: "x_heap (fst (collect_entries es b x)) = x_heap x"
proof (induction es arbitrary: b x)
  case (Cons e es)
  have "x_heap (fst (try_bind (collect_write (we_record e) b x) (collect_entries es))) = x_heap x"
    by (rule try_bind_heap) (simp_all add: collect_write_heap Cons.IH)
  then show ?case by (simp add: Cons.IH Let_def split: operation.split)
qed simp

lemma erase_each_heap: "x_heap (fst (erase_each os d ds x)) = x_heap x"
proof (induction ds arbitrary: x)
  case (Cons p ds)
  then show ?case by (cases p) (simp add: Let_def split: prod.split)
qed simp

lemma write_out_heap: "write_out os d b x = (x', Err e) \<Longrightarrow> x_heap x' = x_heap x"
proof -
  assume run: "write_out os d b x = (x', Err e)"
  obtain w r where w: "write_retry 3 os d (b_writes b) (x_world x) = (w, r)" by fastforce
  obtain fs q where q: "release_each (b_clear b) (x_free_space x) = (fs, q)" by fastforce
  from run show ?thesis
    by (cases r; cases q) (auto simp: write_out_def w q split: if_splits)
qed

lemma failed_flush_heap:
  assumes "process_write_batch os d es x = (x', Err e)"
  shows "x_heap x' = x_heap x"
proof -
  obtain x1 r1 where c: "collect_entries es empty_batch x = (x1, r1)" by fastforce
  have h1: "x_heap x1 = x_heap x" using collect_entries_heap[of es empty_batch x] c by simp
  show ?thesis
  proof (cases r1)
    case (Ok b)
    obtain x2 r2 where e: "erase_each os d (b_deletes b) x1 = (x2, r2)" by fastforce
    have "x_heap x2 = x_heap x1" using erase_each_heap[of os d "b_deletes b" x1] e by simp
    with assms c Ok e h1 show ?thesis
      by (cases r2) (auto simp: process_write_batch_def dest: write_out_heap)
  qed (use assms c h1 in \<open>auto simp: process_write_batch_def\<close>)
qed

context block_device
begin

lemma write_out_Ok:
  assumes "write_out os d b x = (x', Ok ())" "b_clear b = cl" "b_writes b = written (x_heap x) cl"
    and "quiet (x_world x)" "steady d" "disjoint_writes (written (x_heap x) cl)"
    and "\<forall>(s, y)\<in>set (written (x_heap x) cl). s * BLOCK_SIZE < 2 ^ 63"
  shows "x_heap x' = fold settle cl (x_heap x)" "x_free_space x' = x_free_space x" "quiet (x_world x')"
    "batch_applied (written (x_heap x) cl) (media (x_world x)) (media (x_world x'))"
proof -
  have "x_heap x' = fold settle cl (x_heap x) \<and> x_free_space x' = x_free_space x \<and> quiet (x_world x') \<and>
    batch_applied (written (x_heap x) cl) (media (x_world x)) (media (x_world x'))"
  proof (cases "cl = []")
    case True
    with assms(1,3,4) show ?thesis by (auto simp: write_out_def written_def batch_applied_def)
  next
    case False
    then have ne: "b_writes b \<noteq> []" using assms(3) by (simp add: written_def)
    obtain w r where w: "write_retry (Suc 2) os d (b_writes b) (x_world x) = (w, r)" by fastforce
    then have w3: "write_retry 3 os d (b_writes b) (x_world x) = (w, r)" by (simp add: numeral_3_eq_3)
    have r: "r = Ok ()" and x': "x_world x' = w" "x_heap x' = fold settle cl (x_heap x)" "x_free_space x' = x_free_space x"
      using assms(1,2) ne w3
      by (auto simp: write_out_def Let_def split: outcome.splits prod.splits elim!: try_bind_OkD)
    have "batch_applied (b_writes b) (media (x_world x)) (media w) \<and> quiet w"
      by (rule write_retry_Ok[OF w[unfolded r] assms(4,5)]) (use assms(3,6,7) in simp_all)
    with x' assms(3) show ?thesis by simp
  qed
  then show "x_heap x' = fold settle cl (x_heap x)" "x_free_space x' = x_free_space x" "quiet (x_world x')"
    "batch_applied (written (x_heap x) cl) (media (x_world x)) (media (x_world x'))" by simp_all
qed

lemma erase_stage:
  assumes cl: "collected es empty_batch x b x1 cl" and f: "fsm_inv (x_free_space x)" "fsm_budget (length es + k) (x_free_space x1)"
    and dev: "device_sectors (x_free_space x) * BLOCK_SIZE < 2 ^ 63"
    and D: "disk_ok (x_free_space x) (x_heap x) A" and E: "entries_ok (x_heap x) es A"
  shows "\<exists>x2. erase_each os d (b_deletes b) x1 = (x2, Ok ()) \<and> x_heap x2 = x_heap x \<and> fsm_inv (x_free_space x2) \<and>
    fsm_budget (length cl + k) (x_free_space x2) \<and> device_sectors (x_free_space x2) = device_sectors (x_free_space x) \<and>
    free_sectors (x_free_space x2) \<subseteq> free_sectors (x_free_space x) - (\<Union>(s, a)\<in>set cl. {s..<s + rec_sectors (x_heap x a)}) \<union>
      (\<Union>a\<in>erased (x_heap x) es. rec_extent (x_heap x a)) \<and>
    quiet (x_world x2) = quiet (x_world x) \<and>
    (\<forall>i. (\<forall>a\<in>erased (x_heap x) es. i div BLOCK_SIZE \<notin> rec_extent (x_heap x a)) \<longrightarrow> media (x_world x2) i = media (x_world x) i)"
proof -
  let ?h = "x_heap x" and ?fs = "x_free_space x" and ?ds = "map (erasure (x_heap x)) (filter (erasing (x_heap x)) es)"
  note P = collected_placed[OF cl f(1) E]
  have x1: "x_heap x1 = ?h" "x_world x1 = x_world x" "b_deletes b = ?ds" "map snd cl = map we_record (filter (pending ?h) es)"
    using cl by (simp_all add: collected_def empty_batch_def)
  have free1: "free_sectors (x_free_space x1) \<subseteq> free_sectors ?fs" using P(4) by auto
  have "length (filter (pending ?h) es) + length (filter (erasing ?h) es) \<le> length es"
    by (induction es) (auto simp: pending_def is_write_def erasing_def)
  moreover have "length cl = length (filter (pending ?h) es)" using x1(4) by (metis length_map)
  ultimately have bud: "fsm_budget (length ?ds + (length cl + k)) (x_free_space x1)" by (intro fsm_budget_mono[OF f(2)]) simp
  from erase_each_Ok[OF P(2) bud, of d] erasures_legal[OF D E free1 P(3)] dev P(3) obtain x2 where
    e2: "erase_each os d ?ds x1 = (x2, Ok ())" "x_heap x2 = ?h" "fsm_inv (x_free_space x2)" "fsm_budget (length cl + k) (x_free_space x2)"
    "device_sectors (x_free_space x2) = device_sectors ?fs"
    "free_sectors (x_free_space x2) = free_sectors (x_free_space x1) \<union> (\<Union>e\<in>set ?ds. del_extent e)"
    "quiet (x_world x2) = quiet (x_world x)"
    and m2: "\<forall>i. (\<forall>e\<in>set ?ds. i < fst e * BLOCK_SIZE \<or> (fst e + 1) * BLOCK_SIZE \<le> i) \<longrightarrow> media (x_world x2) i = media (x_world x) i"
    using x1 by auto
  have "(\<Union>e\<in>set ?ds. del_extent e) \<subseteq> (\<Union>a\<in>erased ?h es. rec_extent (?h a))"
    using E del_extent_sub(2) by (fastforce simp: erased_def entries_ok_def)
  then have free2: "free_sectors (x_free_space x2) \<subseteq> free_sectors ?fs - (\<Union>(s, a)\<in>set cl. {s..<s + rec_sectors (?h a)}) \<union>
      (\<Union>a\<in>erased ?h es. rec_extent (?h a))"
    unfolding e2(6) P(4) by blast
  have "media (x_world x2) i = media (x_world x) i"
    if out: "\<forall>a\<in>erased ?h es. i div BLOCK_SIZE \<notin> rec_extent (?h a)" for i
  proof -
    have "i < fst e * BLOCK_SIZE \<or> (fst e + 1) * BLOCK_SIZE \<le> i" if e: "e \<in> set ?ds" for e
    proof -
      from e obtain y where y: "y \<in> set es" "erasing ?h y" "e = erasure ?h y" by auto
      have "i div BLOCK_SIZE \<notin> rec_extent (?h (we_record y))" using y out by (auto simp: erased_def)
      then have "i div BLOCK_SIZE \<noteq> fst e"
        using y rec_sectors_pos[of "?h (we_record y)"] by (auto simp: rec_extent_def erasure_def)
      with block_range[of "fst e" i "fst e + 1"] show ?thesis by auto
    qed
    with m2 show ?thesis by blast
  qed
  with e2 free2 x1(3) show ?thesis by auto
qed

text \<open>A write that fails for good: the heap is as before, one sector per record is given back.\<close>

lemma write_out_Err:
  assumes run: "write_out os d b x = (x', Err e)" and b: "b_clear b = cl" "b_writes b = written (x_heap x) cl"
    and w: "quiet (x_world x)" "steady d" and lim: "\<forall>(s, y)\<in>set (written (x_heap x) cl). s * BLOCK_SIZE < 2 ^ 63"
    and f: "fsm_inv (x_free_space x)" "fsm_budget (length cl + k) (x_free_space x)" "distinct (map fst cl)"
      "\<forall>(s, a)\<in>set cl. METADATA_BLOCK_SIZE \<le> s \<and> s < device_sectors (x_free_space x) \<and> s \<notin> free_sectors (x_free_space x)"
  shows "x_heap x' = x_heap x" "fsm_inv (x_free_space x')" "device_sectors (x_free_space x') = device_sectors (x_free_space x)"
    "free_sectors (x_free_space x') = free_sectors (x_free_space x) \<union> fst ` set cl" "quiet (x_world x')" "fsm_budget k (x_free_space x')"
    "(\<And>s a. (s, a) \<in> set cl \<Longrightarrow> i div BLOCK_SIZE \<notin> {s..<s + rec_sectors (x_heap x a)}) \<Longrightarrow> media (x_world x') i = media (x_world x) i"
proof -
  from release_each_ok[OF f] obtain fs where
    fs: "release_each cl (x_free_space x) = (fs, Ok ())" "fsm_inv fs" "device_sectors fs = device_sectors (x_free_space x)"
    "free_sectors fs = free_sectors (x_free_space x) \<union> fst ` set cl" "fsm_budget k fs" by auto
  have ne: "b_writes b \<noteq> []" using run by (auto simp: write_out_def)
  obtain w r where r: "write_retry 3 os d (b_writes b) (x_world x) = (w, r)" by fastforce
  obtain e' where e': "r = Err e'" using run ne r by (cases r) (auto simp: write_out_def)
  have x': "x' = x\<lparr>x_world := w, x_stats := record_write_failed (x_stats x), x_free_space := fs\<rparr>"
    using run ne r e' fs(1) b(1) by (simp add: write_out_def)
  note R = write_retry_Err[OF r[unfolded e' b(2)] w lim]
  show "x_heap x' = x_heap x" "fsm_inv (x_free_space x')" "device_sectors (x_free_space x') = device_sectors (x_free_space x)"
    "free_sectors (x_free_space x') = free_sectors (x_free_space x) \<union> fst ` set cl" "fsm_budget k (x_free_space x')"
    using fs by (simp_all add: x')
  have out: "\<forall>(s, y)\<in>set (written (x_heap x) cl). j < s * BLOCK_SIZE \<or> s * BLOCK_SIZE + length y \<le> j"
    if "\<And>s a. (s, a) \<in> set cl \<Longrightarrow> j div BLOCK_SIZE \<notin> {s..<s + rec_sectors (x_heap x a)}" for j
    using that block_range[of _ j] by (fastforce simp: written_def length_image add_mult_distrib[symmetric])
  show "media (x_world x') i = media (x_world x) i"
    if "\<And>s a. (s, a) \<in> set cl \<Longrightarrow> i div BLOCK_SIZE \<notin> {s..<s + rec_sectors (x_heap x a)}"
    using R[OF out[OF that]] by (simp add: x')
  obtain z where "\<forall>(s, y)\<in>set (written (x_heap x) cl). s * BLOCK_SIZE + length y \<le> z"
  proof
    show "\<forall>(s, y)\<in>set (written (x_heap x) cl). s * BLOCK_SIZE + length y \<le>
        Max (insert 0 ((\<lambda>(s, y). s * BLOCK_SIZE + length y) ` set (written (x_heap x) cl)))"
      by (auto intro!: Max_ge)
  qed
  then have "\<forall>(s, y)\<in>set (written (x_heap x) cl). z < s * BLOCK_SIZE \<or> s * BLOCK_SIZE + length y \<le> z" by auto
  from R[OF this] show "quiet (x_world x')" by (simp add: x')
qed

lemma process_batch_Ok:
  assumes run: "process_write_batch os d es x = (x', Ok ())"
    and w: "quiet (x_world x)" "steady d" and f: "fsm_inv (x_free_space x)" "fsm_budget (2 * length es + k) (x_free_space x)"
    and dev: "device_sectors (x_free_space x) * BLOCK_SIZE < 2 ^ 63"
    and D: "disk_ok (x_free_space x) (x_heap x) A" and E: "entries_ok (x_heap x) es A"
  shows "quiet (x_world x')" "fsm_inv (x_free_space x')"
    "disk_ok (x_free_space x') (x_heap x') (A - erased (x_heap x) es)"
    "\<And>a. a \<in> A - erased (x_heap x) es \<Longrightarrow>
       value_of (media (x_world x')) (x_heap x' a) = value_of (media (x_world x)) (x_heap x a)"
    "\<And>e. e \<in> set es \<Longrightarrow> pending (x_heap x) e \<Longrightarrow>
       r_sector (x_heap x' (we_record e)) \<noteq> 0 \<and> r_value (x_heap x' (we_record e)) = None"
    "\<exists>cl. x_heap x' = fold settle cl (x_heap x)"
    "device_sectors (x_free_space x') = device_sectors (x_free_space x)"
    "\<And>a. a \<notin> we_record ` {e \<in> set es. pending (x_heap x) e} \<Longrightarrow> x_heap x' a = x_heap x a"
    "fsm_budget k (x_free_space x')"
proof -
  let ?h = "x_heap x" and ?fs = "x_free_space x"
  from run obtain x1 x2 b where c: "collect_entries es empty_batch x = (x1, Ok b)"
    and er: "erase_each os d (b_deletes b) x1 = (x2, Ok ())" and wo: "write_out os d b x2 = (x', Ok ())"
    by (auto simp: process_write_batch_def elim!: try_bind_OkD)
  from collect_entries_Ok[OF c f(1), of "length es + k"] f(2) obtain cl where
    cl: "collected es empty_batch x b x1 cl" and bud: "fsm_budget (length es + k) (x_free_space x1)"
    by (auto simp: mult_2 add.assoc)
  note P = collected_placed[OF cl f(1) E] and W = placed_writes[OF collected_placed(1)[OF cl f(1) E] dev]
  have x1: "b_clear b = cl" "b_writes b = written ?h cl" using cl by (simp_all add: collected_def empty_batch_def)
  from erase_stage[OF cl f(1) bud dev D E, of d] er w(1) have
    e2: "x_heap x2 = ?h" "fsm_inv (x_free_space x2)" "device_sectors (x_free_space x2) = device_sectors ?fs" "quiet (x_world x2)"
    "fsm_budget (length cl + k) (x_free_space x2)" and free: "free_sectors (x_free_space x2) \<subseteq> free_sectors ?fs - (\<Union>(s, a)\<in>set cl. {s..<s + rec_sectors (?h a)}) \<union>
      (\<Union>a\<in>erased ?h es. rec_extent (?h a))"
    and m2: "\<forall>i. (\<forall>a\<in>erased ?h es. i div BLOCK_SIZE \<notin> rec_extent (?h a)) \<longrightarrow> media (x_world x2) i = media (x_world x) i"
    by auto
  note O = write_out_Ok[OF wo x1(1), unfolded e2(1), OF x1(2) e2(4) w(2) W]
  note EA = erased_on_disk[OF E]
  show "quiet (x_world x')" "fsm_inv (x_free_space x')" "fsm_budget k (x_free_space x')"
    using O(2,3) e2(2) fsm_budget_mono[OF e2(5), of k] by simp_all
  have "device_sectors ?fs < U64_LIM" using dev by (simp add: U64_LIM_def kv_const)
  from settled_disk_ok[OF P(1) D EA e2(3) free this] show "disk_ok (x_free_space x') (x_heap x') (A - erased ?h es)"
    by (simp add: O(1,2))
  show "value_of (media (x_world x')) (x_heap x' a) = value_of (media (x_world x)) (?h a)"
    if "a \<in> A - erased ?h es" for a
    unfolding O(1) by (rule settled_values[OF P(1) D EA _ O(4) that]) (use m2 in blast)
  show "r_sector (x_heap x' (we_record e)) \<noteq> 0 \<and> r_value (x_heap x' (we_record e)) = None"
    if "e \<in> set es" "pending ?h e" for e
  proof -
    have "we_record e \<in> set (map snd cl)" using cl that by (simp add: collected_def)
    then obtain s where s: "(s, we_record e) \<in> set cl" by force
    then have "METADATA_BLOCK_SIZE \<le> s" "distinct (map snd cl)" using P(1) by (auto simp: placed_def)
    with settle_member[OF _ s, of ?h] show ?thesis by (simp add: O(1) settled_fields kv_const)
  qed
  show "\<exists>cl. x_heap x' = fold settle cl ?h" using O(1) by blast
  show "device_sectors (x_free_space x') = device_sectors ?fs" using O(2) e2(3) by simp
  show "x_heap x' a = ?h a" if "a \<notin> we_record ` {e \<in> set es. pending ?h e}" for a
  proof -
    have "set (map snd cl) = set (map we_record (filter (pending ?h) es))" using cl unfolding collected_def by metis
    with that have "a \<notin> snd ` set cl" by auto
    then show ?thesis unfolding O(1) by (rule settle_other)
  qed
qed

lemma process_batch_Err:
  assumes run: "process_write_batch os d es x = (x', Err e)"
    and w: "quiet (x_world x)" "steady d" and f: "fsm_inv (x_free_space x)" "fsm_budget (2 * length es + k) (x_free_space x)"
    and dev: "device_sectors (x_free_space x) * BLOCK_SIZE < 2 ^ 63"
    and D: "disk_ok (x_free_space x) (x_heap x) A" and E: "entries_ok (x_heap x) es A"
  shows "quiet (x_world x')" "fsm_inv (x_free_space x')" "x_heap x' = x_heap x"
    "disk_ok (x_free_space x') (x_heap x) (A - erased (x_heap x) es)"
    "\<And>a. a \<in> A - erased (x_heap x) es \<Longrightarrow> value_of (media (x_world x')) (x_heap x a) = value_of (media (x_world x)) (x_heap x a)"
    "device_sectors (x_free_space x') = device_sectors (x_free_space x)" "fsm_budget k (x_free_space x')"
proof -
  let ?h = "x_heap x" and ?fs = "x_free_space x"
  obtain x1 r1 where c: "collect_entries es empty_batch x = (x1, r1)" by fastforce
  have bud: "fsm_budget (length es + (length es + k)) ?fs" using f(2) by (simp add: mult_2 add.assoc)
  note C = collect_entries_any[OF c f(1) bud]
  have "quiet (x_world x') \<and> fsm_inv (x_free_space x') \<and> x_heap x' = ?h \<and>
    disk_ok (x_free_space x') ?h (A - erased ?h es) \<and>
    (\<forall>a\<in>A - erased ?h es. value_of (media (x_world x')) (?h a) = value_of (media (x_world x)) (?h a)) \<and>
    device_sectors (x_free_space x') = device_sectors ?fs \<and> fsm_budget k (x_free_space x')"
  proof (cases r1)
    case (Err e1)
    then have "x' = x1" using run c by (simp add: process_write_batch_def)
    with C w(1) fsm_budget_mono[of "length es + k" "x_free_space x1" k] disk_ok_shrink[OF D, of "A - erased ?h es" "x_free_space x1"] show ?thesis by (auto simp: alloc_only_def)
  next
    case (Ok b)
    from collect_entries_Ok[OF c[unfolded Ok] f(1) bud] obtain cl where
      cl: "collected es empty_batch x b x1 cl" and bud1: "fsm_budget (length es + k) (x_free_space x1)" by auto
    note P = collected_placed[OF cl f(1) E] and W = placed_writes[OF collected_placed(1)[OF cl f(1) E] dev]
    have b: "b_clear b = cl" "b_writes b = written ?h cl" using cl by (simp_all add: collected_def empty_batch_def)
    from erase_stage[OF cl f(1) bud1 dev D E, of d] obtain x2 where
      e2: "erase_each os d (b_deletes b) x1 = (x2, Ok ())" "x_heap x2 = ?h" "fsm_inv (x_free_space x2)"
      "fsm_budget (length cl + k) (x_free_space x2)" "device_sectors (x_free_space x2) = device_sectors ?fs"
      and free: "free_sectors (x_free_space x2) \<subseteq> free_sectors ?fs - (\<Union>(s, a)\<in>set cl. {s..<s + rec_sectors (?h a)}) \<union>
        (\<Union>a\<in>erased ?h es. rec_extent (?h a))"
      and q2: "quiet (x_world x2)"
      and m2: "\<forall>i. (\<forall>a\<in>erased ?h es. i div BLOCK_SIZE \<notin> rec_extent (?h a)) \<longrightarrow> media (x_world x2) i = media (x_world x) i"
      using w(1) by blast
    have wo: "write_out os d b x2 = (x', Err e)" using run c Ok e2(1) by (simp add: process_write_batch_def)
    note EA = erased_on_disk[OF E]
    note O = write_out_Err[OF wo b(1), unfolded e2(2), OF b(2) q2 w(2) W(2) e2(3,4) placed_fst[OF P(1)] placed_held[OF P(1) D EA e2(5) free]]
    have free': "free_sectors (x_free_space x') \<subseteq> free_sectors ?fs \<union> (\<Union>a\<in>erased ?h es. rec_extent (?h a))"
    proof -
      have "fst ` set cl \<subseteq> free_sectors ?fs" using placed_start(3)[OF P(1)] by force
      with free show ?thesis unfolding O(4) by blast
    qed
    have lim: "device_sectors ?fs < U64_LIM" using dev by (simp add: U64_LIM_def kv_const)
    have "disk_ok (x_free_space x') (fold settle [] ?h) (A - erased ?h es)"
      by (rule settled_disk_ok[OF _ D EA _ _ lim]) (use O(3) e2(5) free' in \<open>auto simp: placed_def\<close>)
    moreover have "value_of (media (x_world x')) (?h a) = value_of (media (x_world x)) (?h a)" if "a \<in> A - erased ?h es" for a
      by (rule kept_values[OF P(1) D EA _ O(7) that]) (use m2 in blast)
    ultimately show ?thesis using O(1,2,3,5,6) e2(5) by simp
  next
    case Panic
    with C show ?thesis by simp
  qed
  then show "quiet (x_world x')" "fsm_inv (x_free_space x')" "x_heap x' = x_heap x"
    "disk_ok (x_free_space x') (x_heap x) (A - erased (x_heap x) es)"
    "\<And>a. a \<in> A - erased (x_heap x) es \<Longrightarrow> value_of (media (x_world x')) (x_heap x a) = value_of (media (x_world x)) (x_heap x a)"
    "device_sectors (x_free_space x') = device_sectors (x_free_space x)" "fsm_budget k (x_free_space x')" by blast+
qed

text \<open>No batch panics: every offset, length and counter is in range, and the device cannot change that.\<close>

lemma process_batch_no_panic:
  assumes f: "fsm_inv (x_free_space x)" "fsm_budget (2 * length es + k) (x_free_space x)"
    and dev: "device_sectors (x_free_space x) * BLOCK_SIZE < 2 ^ 63"
    and D: "disk_ok (x_free_space x) (x_heap x) A" and E: "entries_ok (x_heap x) es A"
  shows "snd (process_write_batch os d es x) \<noteq> Panic"
proof -
  let ?h = "x_heap x" and ?fs = "x_free_space x"
  obtain x1 r1 where c: "collect_entries es empty_batch x = (x1, r1)" by fastforce
  have bud: "fsm_budget (length es + (length es + k)) ?fs" using f(2) by (simp add: mult_2 add.assoc)
  show ?thesis
  proof (cases r1)
    case (Ok b)
    from collect_entries_Ok[OF c[unfolded Ok] f(1) bud] obtain cl where
      cl: "collected es empty_batch x b x1 cl" and bud1: "fsm_budget (length es + k) (x_free_space x1)" by auto
    note P = collected_placed[OF cl f(1) E]
    have b: "b_clear b = cl" "b_writes b = written ?h cl" using cl by (simp_all add: collected_def empty_batch_def)
    from erase_stage[OF cl f(1) bud1 dev D E, of d] obtain x2 where
      e2: "erase_each os d (b_deletes b) x1 = (x2, Ok ())" "fsm_inv (x_free_space x2)" "fsm_budget (length cl + k) (x_free_space x2)"
      "device_sectors (x_free_space x2) = device_sectors ?fs"
      "free_sectors (x_free_space x2) \<subseteq> free_sectors ?fs - (\<Union>(s, a)\<in>set cl. {s..<s + rec_sectors (?h a)}) \<union>
        (\<Union>a\<in>erased ?h es. rec_extent (?h a))" by blast
    from release_each_ok[OF e2(2,3) placed_fst[OF P(1)] placed_held[OF P(1) D erased_on_disk[OF E] e2(4,5)]]
    obtain fs where rel: "release_each cl (x_free_space x2) = (fs, Ok ())" by blast
    obtain w r where w: "write_retry 3 os d (written ?h cl) (x_world x2) = (w, r)" by fastforce
    then have "r \<noteq> Panic" using write_retry_no_panic[OF placed_lengths[OF P(1) dev], of 3 os d "x_world x2"] by simp
    then have "snd (write_out os d b x2) \<noteq> Panic" by (cases r) (simp_all add: write_out_def b w rel)
    then show ?thesis using c Ok e2(1) by (simp add: process_write_batch_def)
  qed (use collect_entries_any[OF c f(1) bud] c in \<open>auto simp: process_write_batch_def\<close>)
qed

text \<open>Success and failure together.\<close>

lemma process_batch_keeps:
  assumes run: "process_write_batch os d es x = (x', r)"
    and w: "quiet (x_world x)" "steady d" and f: "fsm_inv (x_free_space x)" "fsm_budget (2 * length es + k) (x_free_space x)"
    and dev: "device_sectors (x_free_space x) * BLOCK_SIZE < 2 ^ 63"
    and D: "disk_ok (x_free_space x) (x_heap x) A" and E: "entries_ok (x_heap x) es A"
  shows "quiet (x_world x')" "fsm_inv (x_free_space x')"
    "disk_ok (x_free_space x') (x_heap x') (A - erased (x_heap x) es)"
    "\<And>a. a \<in> A - erased (x_heap x) es \<Longrightarrow>
       value_of (media (x_world x')) (x_heap x' a) = value_of (media (x_world x)) (x_heap x a)"
    "\<exists>cl. x_heap x' = fold settle cl (x_heap x)"
    "device_sectors (x_free_space x') = device_sectors (x_free_space x)"
    "\<And>a. a \<notin> we_record ` {e \<in> set es. pending (x_heap x) e} \<Longrightarrow> x_heap x' a = x_heap x a"
    "fsm_budget k (x_free_space x')"
proof -
  have "quiet (x_world x') \<and> fsm_inv (x_free_space x') \<and> disk_ok (x_free_space x') (x_heap x') (A - erased (x_heap x) es) \<and>
    (\<forall>a\<in>A - erased (x_heap x) es. value_of (media (x_world x')) (x_heap x' a) = value_of (media (x_world x)) (x_heap x a)) \<and>
    (\<exists>cl. x_heap x' = fold settle cl (x_heap x)) \<and> device_sectors (x_free_space x') = device_sectors (x_free_space x) \<and>
    (\<forall>a. a \<notin> we_record ` {e \<in> set es. pending (x_heap x) e} \<longrightarrow> x_heap x' a = x_heap x a) \<and> fsm_budget k (x_free_space x')"
  proof (cases r)
    case (Ok u)
    with run have "process_write_batch os d es x = (x', Ok ())" by simp
    note O = process_batch_Ok[OF this w f dev D E]
    show ?thesis by (intro conjI ballI allI impI O)
  next
    case (Err e)
    note F = process_batch_Err[OF run[unfolded Err] w f dev D E]
    have "\<exists>cl. x_heap x' = fold settle cl (x_heap x)" by (rule exI[of _ "[]"]) (simp add: F(3))
    with F show ?thesis by simp
  next
    case Panic
    with run process_batch_no_panic[OF f dev D E, of d] show ?thesis by simp
  qed
  then show "quiet (x_world x')" "fsm_inv (x_free_space x')"
    "disk_ok (x_free_space x') (x_heap x') (A - erased (x_heap x) es)"
    "\<And>a. a \<in> A - erased (x_heap x) es \<Longrightarrow>
       value_of (media (x_world x')) (x_heap x' a) = value_of (media (x_world x)) (x_heap x a)"
    "\<exists>cl. x_heap x' = fold settle cl (x_heap x)"
    "device_sectors (x_free_space x') = device_sectors (x_free_space x)"
    "\<And>a. a \<notin> we_record ` {e \<in> set es. pending (x_heap x) e} \<Longrightarrow> x_heap x' a = x_heap x a"
    "fsm_budget k (x_free_space x')" by blast+
qed

end

lemma process_batch_nil [simp]: "process_write_batch os d [] x = (x, Ok ())"
  by (simp add: process_write_batch_def empty_batch_def write_out_def)

section \<open>Counters\<close>

text \<open>A batch leaves the counters of the indexes and of the cache alone.\<close>

definition batch_counters :: "statistics \<Rightarrow> statistics \<Rightarrow> bool" where
  "batch_counters st st' \<longleftrightarrow> st_record_count st' = st_record_count st \<and> st_memory_usage st' = st_memory_usage st \<and>
     st_cache_memory st' = st_cache_memory st"

lemma batch_counters_simps [simp]:
  "batch_counters st st" "batch_counters st (add_disk_usage n st')  = batch_counters st st'"
  "batch_counters st (sub_disk_usage n st') = batch_counters st st'"
  "batch_counters st (record_write_flushed n st') = batch_counters st st'"
  "batch_counters st (record_write_failed st') = batch_counters st st'"
  by (simp_all add: batch_counters_def add_disk_usage_def sub_disk_usage_def record_write_flushed_def record_write_failed_def)

lemma collect_write_counters:
  "collect_write a b x = (x', r) \<Longrightarrow> batch_counters st (x_stats x') = batch_counters st (x_stats x)"
  by (cases "snd (allocate_sectors (x_free_space x) (rec_sectors (x_heap x a)))")
    (auto simp: collect_write_def Let_def image_sectors split: prod.splits if_splits)

lemma collect_entries_counters:
  "collect_entries es b x = (x', r) \<Longrightarrow> batch_counters st (x_stats x') = batch_counters st (x_stats x)"
proof (induction es b x arbitrary: x' r rule: collect_entries.induct)
  case (2 e es b x)
  obtain x1 r1 where c: "collect_write (we_record e) b x = (x1, r1)" by fastforce
  note C = collect_write_counters[OF c, of st]
  show ?case
    using 2 c C by (cases "we_operation e"; cases r1) (auto simp: Let_def split: if_splits)
qed simp

lemma erase_each_counters:
  "erase_each os d ds x = (x', r) \<Longrightarrow> batch_counters st (x_stats x') = batch_counters st (x_stats x)"
proof (induction os d ds x arbitrary: x' r rule: erase_each.induct)
  case (2 os d sector kl vl ds x)
  then show ?case by (auto simp: Let_def split: prod.splits if_splits)
qed simp

lemma write_out_counters: "write_out os d b x = (x', r) \<Longrightarrow> batch_counters st (x_stats x') = batch_counters st (x_stats x)"
  by (auto simp: write_out_def Let_def split: prod.splits outcome.splits if_splits elim!: try_bind.elims)

lemma process_batch_counters:
  assumes "process_write_batch os d es x = (x', r)"
  shows "batch_counters (x_stats x) (x_stats x')"
proof -
  obtain x1 r1 where c: "collect_entries es empty_batch x = (x1, r1)" by fastforce
  note C = collect_entries_counters[OF c, of "x_stats x"]
  show ?thesis
  proof (cases r1)
    case (Ok b)
    obtain x2 r2 where e: "erase_each os d (b_deletes b) x1 = (x2, r2)" by fastforce
    note E = erase_each_counters[OF e, of "x_stats x"]
    from assms c Ok e C E write_out_counters[of os d b x2 x' r "x_stats x"] show ?thesis
      by (cases r2) (auto simp: process_write_batch_def)
  qed (use assms c C in \<open>auto simp: process_write_batch_def\<close>)
qed

section \<open>Properties\<close>


text \<open>One record queued for insertion on a blank device of 1024 blocks.\<close>

definition demo_wctx :: "ram wctx" where
  "demo_wctx = \<lparr>x_heap = (\<lambda>_. record_new [1] [2, 3] 7), x_free_space = demo_fsm, x_stats = stats_new,
     x_world = blank_ram 1024\<rparr>"

definition sync_io :: disk_io where
  "sync_io = \<lparr>d_ring = False, d_use_direct_io = False\<rparr>"

definition demo_entry :: write_entry where
  "demo_entry = \<lparr>we_operation = Insert, we_record = 5, we_old_value_len = 0, we_work_status = 0, we_retry_count = 0\<rparr>"

lemma ram_write_sectors:
  "sector * BLOCK_SIZE < 2 ^ 63 \<Longrightarrow>
   write_sectors_sync ram_os sync_io sector data w =
     (w\<lparr>ram_size := max (ram_size w) (sector * BLOCK_SIZE + length data),
        ram_content := put (sector * BLOCK_SIZE) data (ram_content w)\<rparr>, Ok ())"
  by (simp add: write_sectors_sync_def sync_io_def ram_os_def as_off_t_def U64_LIM_def del: of_nat_mult)

lemma sync_steady: "ram.steady sync_io"
  unfolding ram.steady_def by (simp add: sync_io_def)

lemma demo_budget: "fsm_budget 2 demo_fsm"
proof -
  have "METADATA_BLOCK_SIZE < (4194304 :: nat) div BLOCK_SIZE" "(4194304 :: nat) < U64_LIM"
    by (simp_all add: kv_const U64_LIM_def)
  from initialize_ok[OF this] have "persistence_size demo_fsm = 4194304" by (auto simp: demo_fsm_def)
  with demo_fsm_facts(5) show ?thesis by (simp add: fsm_budget_def U64_LIM_def)
qed

lemma demo_alloc_one: "\<exists>f'. allocate_sectors demo_fsm 1 = (f', Ok 16)"
proof (rule allocate_sectors_cases[OF demo_fsm_facts(1,2), of 1])
  fix a m f' assume "allocate_sectors demo_fsm 1 = (f', Ok a)" "chunks demo_fsm a = Some m"
  then show ?thesis by (auto simp: demo_fsm_facts(3) split: if_splits)
next
  assume "\<And>s k. chunks demo_fsm s = Some k \<Longrightarrow> k < 1"
  from this[of 16 1008] show ?thesis by (simp add: demo_fsm_facts(3))
qed simp

lemma demo_flush: "\<exists>x'. process_write_batch ram_os sync_io [demo_entry] demo_wctx = (x', Ok ())"
proof -
  obtain f' where al: "allocate_sectors demo_fsm 1 = (f', Ok 16)" using demo_alloc_one by blast
  let ?r = "record_new [1] [2, 3] 7"
  have n: "rec_sectors ?r = 1"
    by (simp add: rec_sectors_def total_size_def record_header_size_def div_ceil_def kv_const)
  have c: "collect_entries [demo_entry] empty_batch demo_wctx = (demo_wctx\<lparr>x_free_space := f',
      x_stats := add_disk_usage BLOCK_SIZE stats_new\<rparr>,
      Ok \<lparr>b_writes = [(16, perpare_record_data ?r)], b_deletes = [], b_clear = [(16, 5)]\<rparr>)"
    using al by (simp add: demo_entry_def collect_write_def demo_wctx_def image_sectors n empty_batch_def Let_def)
  have off: "(16 :: nat) * BLOCK_SIZE < 2 ^ 63" by (simp add: kv_const)
  have "\<exists>w'. batch_write ram_os sync_io [(16, perpare_record_data ?r)] w = (w', Ok ())" for w
    using ram_write_sectors[OF off] by (simp add: batch_write_def) (simp add: sync_io_def)
  then show ?thesis
    unfolding process_write_batch_def c try_bind.simps
    by (auto simp: write_out_def numeral_3_eq_3 split: prod.splits outcome.splits)
      (metis outcome.distinct prod.inject)+
qed

lemma demo_hyps:
  "disk_ok fs (x_heap demo_wctx) {5}" "entries_ok (x_heap demo_wctx) [demo_entry] {5}" "erased (x_heap demo_wctx) [demo_entry] = {}"
  "pending (x_heap demo_wctx) demo_entry" "we_record demo_entry = 5" "ram.quiet (x_world demo_wctx)"
  "value_of m (x_heap demo_wctx 5) = [2, 3]"
proof -
  have "record_wf (record_new [1] [2, 3] 7)" by (rule record_new_wf) (simp_all add: U64_LIM_def)
  then show "disk_ok fs (x_heap demo_wctx) {5}" by (simp add: disk_ok_def demo_wctx_def)
  show "ram.quiet (x_world demo_wctx)" by (simp add: demo_wctx_def blank_ram_quiet)
qed (simp_all add: entries_ok_def erased_def erasing_def pending_def is_write_def value_of_def demo_entry_def demo_wctx_def)



text \<open>A device of sixteen reserved blocks and nothing else: the batch is refused.\<close>

definition full_fsm :: free_space_manager where
  "full_fsm = fsm_new\<lparr>persistence_size := METADATA_BLOCK_SIZE * BLOCK_SIZE\<rparr>"

lemma full_fsm_facts:
  "fsm_inv full_fsm" "fsm_budget 2 full_fsm" "device_sectors full_fsm * BLOCK_SIZE < 2 ^ 63"
  by (simp_all add: full_fsm_def fsm_new_def fsm_inv_def fsm_budget_def device_sectors_def chunks_def idx_wf_def chunk_wf_def
      kv_const U64_LIM_def)


lemma div_ceil_split: "0 < d \<Longrightarrow> div_ceil (q * d + r) d = q + div_ceil r d"
  by (simp add: div_ceil_def)

lemma leak_arith:
  assumes "total_size k v = q * BLOCK_SIZE + r" "0 < q" "0 < r" "r \<le> 8"
  shows "div_ceil (total_size k v) BLOCK_SIZE = Suc q" "del_sectors (s, k, v) = q"
proof -
  have r: "div_ceil r BLOCK_SIZE = 1" using assms(3,4) by (simp add: div_ceil_def kv_const)
  show "div_ceil (total_size k v) BLOCK_SIZE = Suc q"
    unfolding assms(1) using div_ceil_split[of BLOCK_SIZE q r] r by (simp add: kv_const)
  have q: "q = Suc (q - 1)" using assms(2) by simp
  have eq: "SECTOR_HEADER_SIZE + 2 + k + 8 + 8 + v = (q - 1) * BLOCK_SIZE + (BLOCK_SIZE + r - 8)"
    using assms q by (cases q) (simp_all add: total_size_def record_header_size_def kv_const)
  have one: "div_ceil (BLOCK_SIZE + r - 8) BLOCK_SIZE = 1"
    using assms(3,4) by (cases "r = 8") (simp_all add: div_ceil_def kv_const)
  have "div_ceil ((q - 1) * BLOCK_SIZE + (BLOCK_SIZE + r - 8)) BLOCK_SIZE = (q - 1) + 1"
    using div_ceil_split[of BLOCK_SIZE "q - 1" "BLOCK_SIZE + r - 8"] one by (simp add: kv_const)
  then show "del_sectors (s, k, v) = q" unfolding del_sectors_def prod.case eq using q by simp
qed

text \<open>
  C30. Deleting may leak a sector. The erasure computes the size without the eight bytes of the
  expiry field. When a record reaches into its last sector by at most eight bytes, one sector less
  than it occupies is released: after the erasure the last sector is still not free.
\<close>

theorem delete_leaks_sector:
  assumes "block_device os media sq" "fsm_inv (x_free_space x)" "fsm_budget 1 (x_free_space x)"
    and "disk_ok (x_free_space x) (x_heap x) {a}" "r_sector (x_heap x a) \<noteq> 0"
    and "total_size (length (r_key (x_heap x a))) (r_value_len (x_heap x a)) = q * BLOCK_SIZE + r" "0 < q" "0 < r" "r \<le> 8"
    and "device_sectors (x_free_space x) * BLOCK_SIZE < 2 ^ 63"
  shows "\<exists>x'. erase_each os d [(r_sector (x_heap x a), length (r_key (x_heap x a)), r_value_len (x_heap x a))] x = (x', Ok ()) \<and>
    rec_extent (x_heap x a) - free_sectors (x_free_space x') = {r_sector (x_heap x a) + q}"
proof -
  let ?r = "x_heap x a"
  let ?e = "(r_sector ?r, length (r_key ?r), r_value_len ?r)"
  note L = leak_arith[OF assms(6-9)]
  have n: "rec_sectors ?r = Suc q" using L(1) by (simp add: rec_sectors_def)
  have d: "del_sectors ?e = q" by (rule L(2))
  note D = disk_okD(3,4,5)[OF assms(4) _ assms(5), simplified]
  have sub: "del_extent ?e \<subseteq> rec_extent ?r" using d n by (auto simp: del_extent_def rec_extent_def)
  from block_device.erase_each_Ok[OF assms(1), of x "[?e]" 0 d] assms(2,3,10) D d n sub obtain x' where
    "erase_each os d [?e] x = (x', Ok ())" "free_sectors (x_free_space x') = free_sectors (x_free_space x) \<union> del_extent ?e"
    by fastforce
  moreover have ext: "rec_extent ?r = insert (r_sector ?r + q) (del_extent ?e)"
    using d n by (auto simp: rec_extent_def del_extent_def)
  moreover have "r_sector ?r + q \<notin> free_sectors (x_free_space x)" using D(3) ext by blast
  moreover have "r_sector ?r + q \<notin> del_extent ?e" using d by (simp add: del_extent_def)
  ultimately have "rec_extent ?r - free_sectors (x_free_space x') = {r_sector ?r + q}" by blast
  with \<open>erase_each os d [?e] x = (x', Ok ())\<close> show ?thesis by blast
qed

text \<open>A value of 4066 bytes under a one-byte key: 4097 bytes, two sectors, at sector 16 and 17.\<close>

definition leaky_wctx :: "ram wctx" where
  "leaky_wctx = \<lparr>x_heap = (\<lambda>_. (record_new [1] (replicate 4066 2) 7)\<lparr>r_sector := 16\<rparr>),
     x_free_space = fst (allocate_sectors demo_fsm 8), x_stats = stats_new, x_world = blank_ram 1024\<rparr>"

theorem delete_leaks_sector_witness:
  "\<exists>x'. erase_each ram_os sync_io [(16, 1, 4066)] leaky_wctx = (x', Ok ()) \<and>
     rec_extent (x_heap leaky_wctx 5) - free_sectors (x_free_space x') = {17}"
proof -
  obtain f where f: "allocate_sectors demo_fsm 8 = (f, Ok 16)" using demo_alloc by blast
  have fs: "x_free_space leaky_wctx = f" by (simp add: leaky_wctx_def f)
  note A = fsm.alloc_Ok[OF demo_fsm_facts(1,2) f]
  have h: "x_heap leaky_wctx 5 = (record_new [1] (replicate 4066 2) 7)\<lparr>r_sector := 16\<rparr>" by (simp add: leaky_wctx_def)
  have wf: "record_wf (x_heap leaky_wctx 5)"
    using record_new_wf[of "replicate 4066 2" 7 "[1]"] by (simp add: h record_wf_def U64_LIM_def)
  have n: "rec_sectors (x_heap leaky_wctx 5) = 2"
    by (simp add: h rec_sectors_def total_size_def record_header_size_def div_ceil_def kv_const)
  have "rec_extent (x_heap leaky_wctx 5) \<subseteq> {16..<24}" using n by (auto simp: rec_extent_def h)
  then have D: "disk_ok f (x_heap leaky_wctx) {5}"
    using wf A n demo_fsm_facts(4) by (auto simp: disk_ok_def h kv_const)
  have b: "fsm_budget 1 f" using allocate_budget[OF demo_fsm_facts(1) _ f, of 1] demo_budget by (simp add: numeral_2_eq_2)
  have t: "total_size (length (r_key (x_heap leaky_wctx 5))) (r_value_len (x_heap leaky_wctx 5)) = 1 * BLOCK_SIZE + 1"
    by (simp add: h total_size_def record_header_size_def kv_const)
  have dev: "device_sectors f * BLOCK_SIZE < 2 ^ 63" using A demo_fsm_facts(4) by (simp add: kv_const)
  from delete_leaks_sector[OF ram.block_device_axioms, of leaky_wctx 5 1 1 sync_io, unfolded fs, OF _ b D _ t _ _ _ dev] A
  show ?thesis by (simp add: h)
qed

section \<open>Shards, channels and wake-ups\<close>

text \<open>The counters of a shard describe its queue.\<close>

definition shard_inv :: "nat \<Rightarrow> heap \<Rightarrow> shard \<Rightarrow> bool" where
  "shard_inv rec_struct h sh \<longleftrightarrow> sh_count sh = length (sh_buffer sh) mod U64_LIM \<and>
     sh_size sh = sum_list (map (\<lambda>e. calculate_size rec_struct (h (we_record e))) (sh_buffer sh)) mod U64_LIM"

lemma shard_inv_new: "shard_inv rs h shard_new"
  by (simp add: shard_inv_def shard_new_def)

lemma shard_inv_add: "shard_inv rs h sh \<Longrightarrow> shard_inv rs h (add_entry rs h e sh)"
  by (simp add: shard_inv_def add_entry_def Let_def wrapping_add_def mod_simps add.commute)

lemma shard_inv_drain: "shard_inv rs h (fst (drain_entries sh))"
  by (simp add: shard_inv_def drain_entries_def)

lemma fold_add_entry:
  "sh_buffer (fold (add_entry rs h) es sh) = sh_buffer sh @ es"
  "shard_inv rs h sh \<Longrightarrow> shard_inv rs h (fold (add_entry rs h) es sh)"
  by (induction es arbitrary: sh) (simp_all add: shard_inv_add, simp add: add_entry_def)

text \<open>
  C27. A shard is an exact queue. After any sequence of buffered entries, fewer than \<open>2 ^ 64\<close> of them
  and of their bytes, the counters are the number of entries and the sum of their sizes, the shard
  reports full exactly when one of them has reached its limit, and draining returns the entries in
  the order in which they were added and leaves an empty shard.
\<close>

theorem shard_queue_exact:
  assumes "length es < U64_LIM" "sum_list (map (\<lambda>e. calculate_size rs (h (we_record e))) es) < U64_LIM"
  shows "(let sh = fold (add_entry rs h) es shard_new in
    sh_count sh = length es \<and> sh_size sh = sum_list (map (\<lambda>e. calculate_size rs (h (we_record e))) es) \<and>
    (shard_is_full sh \<longleftrightarrow> 1024 \<le> length es \<or>
       16 * 1024 * 1024 \<le> sum_list (map (\<lambda>e. calculate_size rs (h (we_record e))) es)) \<and>
    drain_entries sh = (shard_new, es))"
  using fold_add_entry(1)[of rs h es shard_new] fold_add_entry(2)[of rs h shard_new es] shard_inv_new[of rs h] assms
  by (auto simp: shard_inv_def shard_is_full_def drain_entries_def shard_new_def kv_const Let_def)

theorem shard_queue_exact_witness:
  "drain_entries (fold (add_entry 100 (\<lambda>_. record_new [1] [2] 7)) [demo_entry] shard_new) = (shard_new, [demo_entry])"
  using shard_queue_exact[of "[demo_entry]" 100 "\<lambda>_. record_new [1] [2] 7"]
  by (simp add: calculate_size_def calculate_record_size_def U64_LIM_def Let_def)

lemma length_try_send [simp]: "length (try_send i r cs) = length cs"
  by (simp add: try_send_def)

lemma try_send_nonempty: "i < length cs \<Longrightarrow> try_send i r cs ! i \<noteq> []"
  by (auto simp: try_send_def CHANNEL_CAPACITY_def)

lemma try_send_keeps: "cs ! j \<noteq> [] \<Longrightarrow> try_send i r cs ! j \<noteq> []"
  by (cases "i = j"; cases "i < length cs") (auto simp: try_send_def nth_list_update list_update_beyond)

lemma length_periodic [simp]: "length (periodic_from i shs cs) = length cs"
  by (induction i shs cs rule: periodic_from.induct) auto

lemma periodic_keeps: "cs ! j \<noteq> [] \<Longrightarrow> periodic_from i shs cs ! j \<noteq> []"
  by (induction i shs cs rule: periodic_from.induct) (auto simp: try_send_keeps)

lemma periodic_reaches:
  "k < length shs \<Longrightarrow> 0 < sh_count (shs ! k) \<Longrightarrow> i + k < length cs \<Longrightarrow>
   periodic_from i shs cs ! (length cs - 1 - (i + k)) \<noteq> []"
proof (induction i shs cs arbitrary: k rule: periodic_from.induct)
  case (2 i b rest cs)
  show ?case
  proof (cases k)
    case 0
    with 2 show ?thesis by (auto intro!: periodic_keeps try_send_nonempty)
  next
    case (Suc j)
    with 2(1)[of j] 2(2-4) show ?thesis by (auto split: if_splits)
  qed
qed simp

lemma worker_serve_drains:
  assumes "worker_serve os d i (wb, x) = ((wb', x'), r)" "i < length (wb_shards wb)"
  shows "sh_buffer (wb_shards wb' ! i) = []" "j \<noteq> i \<Longrightarrow> wb_shards wb' ! j = wb_shards wb ! j"
  using assms
  by (auto simp: worker_serve_def drain_entries_def Let_def split: if_splits prod.splits)

text \<open>
  C28. The periodic flush reaches every shard. After a tick of the periodic thread, for every shard
  that has entries and a worker, the channel on which that worker listens holds a request; when the
  worker next runs it drains the shard.
\<close>

theorem periodic_flush_reaches_shard:
  assumes "\<not> wb_shutdown wb" "i < length (wb_shards wb)" "i < length (wb_channels wb)"
    and "0 < sh_count (wb_shards wb ! i)"
  shows "wb_channels (periodic_tick wb) ! channel_of_worker (length (wb_channels wb)) i \<noteq> [] \<and>
    sh_buffer (wb_shards (fst (worker_step os d i (periodic_tick wb, x))) ! i) = []"
proof -
  let ?wb = "periodic_tick wb" and ?c = "channel_of_worker (length (wb_channels wb)) i"
  have ne: "wb_channels ?wb ! ?c \<noteq> []"
    using assms periodic_reaches[of i "wb_shards wb" 0 "wb_channels wb"]
    by (simp add: periodic_tick_def channel_of_worker_def)
  then obtain q qs where q: "wb_channels ?wb ! ?c = q # qs" by (cases "wb_channels ?wb ! ?c") auto
  have sh: "wb_shards ?wb = wb_shards wb" "wb_shutdown ?wb = wb_shutdown wb"
    "length (wb_channels ?wb) = length (wb_channels wb)"
    by (simp_all add: periodic_tick_def)
  let ?wb1 = "?wb\<lparr>wb_channels := (wb_channels ?wb)[?c := qs]\<rparr>"
  obtain wb' x' r where s: "worker_serve os d i (?wb1, x) = ((wb', x'), r)" by (metis prod.collapse)
  have "worker_step os d i (?wb, x) = (wb', x')"
    using assms(1,3) q sh s by (simp add: worker_step_def Let_def)
  with worker_serve_drains(1)[OF s] assms(2) sh ne show ?thesis by simp
qed

definition demo_wb :: write_buffer where
  "demo_wb = start_workers 2 ((write_buffer_new 4 1)\<lparr>wb_shards := [shard_new,
     \<lparr>sh_buffer = [demo_entry], sh_count = 1, sh_size = 100\<rparr>]\<rparr>)"

theorem periodic_flush_reaches_shard_witness:
  "sh_buffer (wb_shards (fst (worker_step ram_os sync_io 1 (periodic_tick demo_wb, demo_wctx))) ! 1) = []"
  using periodic_flush_reaches_shard[of demo_wb 1 ram_os sync_io demo_wctx]
  by (simp add: demo_wb_def start_workers_def write_buffer_new_def)



end
