(* ===== verification/Metadata.thy ===== *)
theory Metadata
  imports Codec
begin

text \<open>
  The metadata block of src/storage/metadata.rs. The struct is \<open>repr(C)\<close>: its bytes are the fields
  in order, each at its alignment, with three bytes of padding before \<open>version\<close> and four at the end;
  the padding bytes are fields of the model because they are part of \<open>as_bytes\<close>. The cast
  \<open>bytemuck::try_from_bytes\<close> is the argument \<open>try_from_bytes\<close>; the clock is the argument \<open>now\<close>.
\<close>

section \<open>State and operations\<close>

record metadata =
  m_signature :: bytes
  m_pad :: bytes
  m_version :: nat
  m_total_records :: nat
  m_total_size :: nat
  m_persistent_size :: nat
  m_block_size :: nat
  m_fragmentation :: nat
  m_creation_time :: nat
  m_last_update_time :: nat
  m_reserved :: bytes
  m_tail_pad :: bytes

definition metadata_new :: "nat \<Rightarrow> metadata" where
  "metadata_new now =
     \<lparr>m_signature = SIGNATURE, m_pad = replicate 3 0, m_version = METADATA_VERSION,
      m_total_records = 0, m_total_size = 0, m_persistent_size = 0, m_block_size = BLOCK_SIZE,
      m_fragmentation = 0, m_creation_time = now, m_last_update_time = now,
      m_reserved = replicate RESERVED_SIZE 0, m_tail_pad = replicate 4 0\<rparr>"

definition metadata_validate :: "metadata \<Rightarrow> bool" where
  "metadata_validate m =
     (if m_signature m \<noteq> SIGNATURE then False
      else if m_block_size m \<noteq> BLOCK_SIZE then False
      else if m_persistent_size m = 0 \<or> MAX_PERSISTENT_SIZE < m_persistent_size m then False
      else True)"

definition metadata_update :: "nat \<Rightarrow> metadata \<Rightarrow> metadata" where
  "metadata_update now m = m\<lparr>m_last_update_time := now\<rparr>"

definition as_bytes :: "metadata \<Rightarrow> bytes" where
  "as_bytes m =
     m_signature m @ m_pad m @ to_le_bytes 4 (m_version m) @ to_le_bytes 8 (m_total_records m) @
     to_le_bytes 8 (m_total_size m) @ to_le_bytes 8 (m_persistent_size m) @
     to_le_bytes 4 (m_block_size m) @ to_le_bytes 4 (m_fragmentation m) @
     to_le_bytes 8 (m_creation_time m) @ to_le_bytes 8 (m_last_update_time m) @
     m_reserved m @ m_tail_pad m"

text \<open>\<open>mem::size_of::<Metadata>()\<close> of the layout above.\<close>

definition METADATA_BYTES :: nat where [kv_const]: "METADATA_BYTES = 136"

definition from_bytes :: "(bytes \<Rightarrow> metadata option) \<Rightarrow> bytes \<Rightarrow> metadata option" where
  "from_bytes try_from_bytes bs =
     (if length bs < METADATA_BYTES then None
      else case try_from_bytes bs of
             None \<Rightarrow> None
           | Some m \<Rightarrow> if metadata_validate m then Some m else None)"

section \<open>Layout\<close>

text \<open>The value whose bytes are given: what a cast of the right length yields.\<close>

definition metadata_of_bytes :: "bytes \<Rightarrow> metadata" where
  "metadata_of_bytes bs =
     \<lparr>m_signature = byte_slice 0 9 bs, m_pad = byte_slice 9 12 bs,
      m_version = from_le_bytes (byte_slice 12 16 bs),
      m_total_records = from_le_bytes (byte_slice 16 24 bs),
      m_total_size = from_le_bytes (byte_slice 24 32 bs),
      m_persistent_size = from_le_bytes (byte_slice 32 40 bs),
      m_block_size = from_le_bytes (byte_slice 40 44 bs),
      m_fragmentation = from_le_bytes (byte_slice 44 48 bs),
      m_creation_time = from_le_bytes (byte_slice 48 56 bs),
      m_last_update_time = from_le_bytes (byte_slice 56 64 bs),
      m_reserved = byte_slice 64 132 bs, m_tail_pad = byte_slice 132 136 bs\<rparr>"

text \<open>Field values in the range of their Rust types.\<close>

definition metadata_wf :: "metadata \<Rightarrow> bool" where
  "metadata_wf m \<longleftrightarrow>
     length (m_signature m) = 9 \<and> length (m_pad m) = 3 \<and> m_version m < 2 ^ 32 \<and>
     m_total_records m < U64_LIM \<and> m_total_size m < U64_LIM \<and> m_persistent_size m < U64_LIM \<and>
     m_block_size m < 2 ^ 32 \<and> m_fragmentation m < 2 ^ 32 \<and> m_creation_time m < U64_LIM \<and>
     m_last_update_time m < U64_LIM \<and> length (m_reserved m) = 68 \<and> length (m_tail_pad m) = 4"

text \<open>
  Documented behaviour of \<open>bytemuck::try_from_bytes\<close>: it fails unless the slice has exactly the
  size of the target (and is aligned for it), and otherwise reinterprets the bytes.
\<close>

definition pod_cast :: "(bytes \<Rightarrow> metadata option) \<Rightarrow> bool" where
  "pod_cast tfb \<longleftrightarrow> (\<forall>bs m. tfb bs = Some m \<longrightarrow> length bs = METADATA_BYTES \<and> m = metadata_of_bytes bs)"

lemma metadata_new_wf: "now < U64_LIM \<Longrightarrow> metadata_wf (metadata_new now)"
  by (simp add: metadata_wf_def metadata_new_def SIGNATURE_def kv_const U64_LIM_def)

lemma metadata_update_wf: "metadata_wf m \<Longrightarrow> now < U64_LIM \<Longrightarrow> metadata_wf (metadata_update now m)"
  by (simp add: metadata_wf_def metadata_update_def)

lemmas le_fields = u32.dec_enc u64.dec_enc

lemma length_as_bytes: "metadata_wf m \<Longrightarrow> length (as_bytes m) = METADATA_BYTES"
  by (simp add: as_bytes_def metadata_wf_def kv_const)

lemma metadata_of_as_bytes: "metadata_wf m \<Longrightarrow> metadata_of_bytes (as_bytes m) = m"
  by (cases m)
    (simp add: metadata_of_bytes_def as_bytes_def metadata_wf_def byte_slice_append_right
      byte_slice_append_left byte_slice_full le_fields)

lemma as_bytes_of_metadata:
  assumes "length bs = METADATA_BYTES"
  shows "as_bytes (metadata_of_bytes bs) = bs"
proof -
  have f: "to_le_bytes 4 (from_le_bytes (byte_slice a (a + 4) bs)) = byte_slice a (a + 4) bs"
    if "a + 4 \<le> 136" for a
    using that assms by (intro u32.written_field) (simp_all add: kv_const)
  have g: "to_le_bytes 8 (from_le_bytes (byte_slice a (a + 8) bs)) = byte_slice a (a + 8) bs"
    if "a + 8 \<le> 136" for a
    using that assms by (intro u64.written_field) (simp_all add: kv_const)
  have join: "byte_slice a b bs @ byte_slice b c bs @ ys = byte_slice a c bs @ ys"
    if "a \<le> b" "b \<le> c" for a b c ys
  proof -
    have "take (c - a) (drop a bs) = take (b - a) (drop a bs) @ take (c - b) (drop (b - a) (drop a bs))"
      using take_add[of "b - a" "c - b" "drop a bs"] that by simp
    with that show ?thesis by (simp add: byte_slice_def)
  qed
  have join2: "byte_slice a b bs @ byte_slice b c bs = byte_slice a c bs" if "a \<le> b" "b \<le> c" for a b c
    using join[OF that, of "[]"] by simp
  show ?thesis
    using f[of 12] f[of 40] f[of 44] g[of 16] g[of 24] g[of 32] g[of 48] g[of 56] assms
    by (simp add: as_bytes_def metadata_of_bytes_def join join2 byte_slice_full kv_const)
qed

lemma metadata_of_bytes_wf: "length bs = METADATA_BYTES \<Longrightarrow> metadata_wf (metadata_of_bytes bs)"
  using u32.valid_dec u64.valid_dec
  by (simp add: metadata_wf_def metadata_of_bytes_def length_byte_slice kv_const)

interpretation md: fixed_codec as_bytes metadata_of_bytes METADATA_BYTES metadata_wf
  by unfold_locales
    (simp_all add: length_as_bytes metadata_of_as_bytes as_bytes_of_metadata metadata_of_bytes_wf)

section \<open>Properties\<close>

text \<open>The cast at an aligned address: succeeds exactly on the right length.\<close>

definition aligned_cast :: "bytes \<Rightarrow> metadata option" where
  "aligned_cast bs = (if length bs = METADATA_BYTES then Some (metadata_of_bytes bs) else None)"

lemma pod_cast_aligned: "pod_cast aligned_cast"
  by (simp add: pod_cast_def aligned_cast_def)

text \<open>
  C33. Round trip of the metadata. The bytes of a valid metadata value, cast back, give the same
  value, field by field; and two values with the same bytes are equal.
\<close>

theorem metadata_roundtrip:
  assumes "metadata_wf m" and "metadata_validate m" and "pod_cast tfb" and "tfb (as_bytes m) \<noteq> None"
  shows "from_bytes tfb (as_bytes m) = Some m \<and>
    (\<forall>m'. metadata_wf m' \<and> as_bytes m' = as_bytes m \<longrightarrow> m' = m)"
proof -
  from assms(4) obtain y where y: "tfb (as_bytes m) = Some y" by auto
  with assms(3) have "y = metadata_of_bytes (as_bytes m)" by (simp add: pod_cast_def)
  with y have "tfb (as_bytes m) = Some m" by (simp add: md.dec_enc[OF assms(1)])
  then have "from_bytes tfb (as_bytes m) = Some m"
    using assms(1,2) by (simp add: from_bytes_def md.length_enc)
  moreover have "m' = m" if "metadata_wf m'" "as_bytes m' = as_bytes m" for m'
    using md.enc_inject[OF that(1) assms(1)] that(2) by simp
  ultimately show ?thesis by blast
qed

theorem metadata_roundtrip_witness:
  "from_bytes aligned_cast (as_bytes ((metadata_new 5)\<lparr>m_persistent_size := 4096\<rparr>)) =
     Some ((metadata_new 5)\<lparr>m_persistent_size := 4096\<rparr>)"
proof -
  let ?m = "(metadata_new 5)\<lparr>m_persistent_size := 4096\<rparr>"
  have "metadata_wf ?m"
    by (simp add: metadata_wf_def metadata_new_def SIGNATURE_def kv_const U64_LIM_def)
  moreover have "metadata_validate ?m"
    by (simp add: metadata_validate_def metadata_new_def kv_const)
  moreover have "aligned_cast (as_bytes ?m) \<noteq> None"
    using \<open>metadata_wf ?m\<close> by (simp add: aligned_cast_def md.length_enc)
  ultimately show ?thesis using metadata_roundtrip pod_cast_aligned by blast
qed



end
