(* ===== verification/Ttl_Config.thy ===== *)
theory Ttl_Config
  imports KV_Constants Complex_Main
begin

text \<open>
  The configuration and the handle of the expiry sweeper (src/core/ttl.rs). Durations are in
  nanoseconds; the \<open>f32\<close> threshold is a rational. The thread handle is the flag whether a sweeper
  thread was started.
\<close>

record ttl_config =
  tc_enabled :: bool
  tc_interval :: nat
  tc_max_time_per_run :: nat
  tc_max_iterations :: nat
  tc_expiry_threshold :: rat
  tc_sample_size :: nat

text \<open>\<open>Duration::from_millis\<close>.\<close>

definition from_millis :: "nat \<Rightarrow> nat" where
  "from_millis ms = ms * 1000000"

text \<open>\<open>Default::default()\<close> of the trait, and the inherent \<open>TtlConfig::default()\<close> that hides it.\<close>

definition ttl_config_trait_default :: ttl_config where
  "ttl_config_trait_default =
     \<lparr>tc_enabled = False, tc_interval = from_millis 1000, tc_max_time_per_run = from_millis 1, tc_max_iterations = 16,
      tc_expiry_threshold = 1 / 4, tc_sample_size = 100\<rparr>"

definition ttl_config_default :: ttl_config where
  "ttl_config_default = ttl_config_trait_default\<lparr>tc_enabled := True\<rparr>"

record ttl_sweeper_stats =
  ts_total_sampled :: nat
  ts_total_expired :: nat
  ts_total_runs :: nat
  ts_last_run :: nat

definition ttl_sweeper_stats_new :: ttl_sweeper_stats where
  "ttl_sweeper_stats_new =
     \<lparr>ts_total_sampled = 0, ts_total_expired = 0, ts_total_runs = 0, ts_last_run = 0\<rparr>"

record ttl_sweeper =
  tw_config :: ttl_config
  tw_shutdown :: bool
  tw_handle :: bool
  tw_stats :: ttl_sweeper_stats

definition ttl_sweeper_new :: "ttl_config \<Rightarrow> ttl_sweeper" where
  "ttl_sweeper_new config =
     \<lparr>tw_config = config, tw_shutdown = False, tw_handle = False, tw_stats = ttl_sweeper_stats_new\<rparr>"

definition ttl_start :: "ttl_sweeper \<Rightarrow> ttl_sweeper" where
  "ttl_start tw = (if \<not> tc_enabled (tw_config tw) then tw else tw\<lparr>tw_handle := True\<rparr>)"

text \<open>\<open>stop\<close> sets the flag and joins the thread, which has then ended.\<close>

definition ttl_stop :: "ttl_sweeper \<Rightarrow> ttl_sweeper" where
  "ttl_stop tw = tw\<lparr>tw_shutdown := True, tw_handle := False\<rparr>"

end
