(* ===== verification/Store.thy ===== *)
theory Store
  imports Cache Write_Buffer Metadata Ordered_Map Ttl_Config "HOL-Library.List_Lexorder"
begin

text \<open>
  The store of src/core: its state (src/core/mod.rs) and its operations (src/core/operations.rs,
  src/core/internal.rs, \<open>load_value_from_disk\<close> of src/core/persistence.rs). Records are shared by
  reference between the hash table, the ordered index and the write buffer; they live in the heap
  \<open>fk_heap\<close>, and \<open>fk_next\<close> is the next fresh address. The hash table is a map and the skip list an
  ordered map from keys to addresses. What an operation reads from its surroundings is in an
  \<open>env\<close>: the operating system, \<open>size_of::<Record>()\<close>, the hash of the calling thread, the clock and
  the measured latency. Every operation reads the clock at most once.
\<close>

section \<open>State\<close>

record fun_kv =
  fk_heap :: heap
  fk_next :: addr
  fk_hash_table :: "bytes \<rightharpoonup> addr"
  fk_tree :: "(bytes, addr) omap"
  fk_stats :: statistics
  fk_write_buffer :: "write_buffer option"
  fk_free_space :: free_space_manager
  fk_metadata :: metadata
  fk_persistency :: bool
  fk_enable_caching :: bool
  fk_max_memory :: "nat option"
  fk_cache :: "cache option"
  fk_persistence_size :: nat
  fk_disk_io :: "disk_io option"
  fk_enable_ttl :: bool
  fk_ttl :: "ttl_sweeper option"

record 'w env =
  e_os :: "'w os"
  e_rec_struct :: nat
  e_thread_hash :: nat
  e_now :: nat
  e_latency :: nat

section \<open>Helpers\<close>

definition validate_key :: "bytes \<Rightarrow> unit res" where
  "validate_key key = (if key = [] \<or> MAX_KEY_SIZE < length key then Err InvalidKeySize else Ok ())"

definition validate_key_value :: "bytes \<Rightarrow> bytes \<Rightarrow> unit res" where
  "validate_key_value key value =
     bind_outcome (validate_key key) (\<lambda>_.
       if value = [] \<or> MAX_VALUE_SIZE < length value then Err InvalidValueSize else Ok ())"

definition check_memory_limit :: "nat \<Rightarrow> fun_kv \<Rightarrow> bool res" where
  "check_memory_limit sz s =
     (case fk_max_memory s of
        Some limit \<Rightarrow> bind_outcome (or_panic (checked_add (st_memory_usage (fk_stats s)) sz)) (\<lambda>n. Ok (n \<le> limit))
      | None \<Rightarrow> Ok True)"

definition update_memory_usage :: "nat \<Rightarrow> nat \<Rightarrow> fun_kv \<Rightarrow> fun_kv" where
  "update_memory_usage new_size old_size s =
     s\<lparr>fk_stats := (fk_stats s)\<lparr>st_memory_usage :=
         (if old_size < new_size then wrapping_add (st_memory_usage (fk_stats s)) (new_size - old_size)
          else wrapping_sub (st_memory_usage (fk_stats s)) (old_size - new_size))\<rparr>\<rparr>"

text \<open>\<open>match timestamp { Some(0) | None => self.get_timestamp(), Some(ts) => ts }\<close>.\<close>

definition timestamp_or_now :: "'w env \<Rightarrow> nat option \<Rightarrow> nat" where
  "timestamp_or_now env timestamp =
     (case timestamp of None \<Rightarrow> e_now env | Some t \<Rightarrow> if t = 0 then e_now env else t)"

text \<open>\<open>timestamp + ttl_seconds * SECOND\<close>, overflow-checked.\<close>

definition expiry_at :: "nat \<Rightarrow> nat \<Rightarrow> nat option" where
  "expiry_at timestamp ttl_seconds =
     (case checked_mul ttl_seconds SECOND of None \<Rightarrow> None | Some d \<Rightarrow> checked_add timestamp d)"

text \<open>\<open>Arc::new\<close> and the insertion of the same reference into both indexes.\<close>

definition new_record :: "kv_record \<Rightarrow> fun_kv \<Rightarrow> fun_kv \<times> addr" where
  "new_record r s = (s\<lparr>fk_heap := (fk_heap s)(fk_next s := r), fk_next := fk_next s + 1\<rparr>, fk_next s)"

definition index_put :: "bytes \<Rightarrow> addr \<Rightarrow> fun_kv \<Rightarrow> fun_kv" where
  "index_put key a s =
     s\<lparr>fk_hash_table := (fk_hash_table s)(key \<mapsto> a), fk_tree := om_insert key a (fk_tree s)\<rparr>"

definition upd_stats :: "(statistics \<Rightarrow> statistics) \<Rightarrow> fun_kv \<Rightarrow> fun_kv" where
  "upd_stats f s = s\<lparr>fk_stats := f (fk_stats s)\<rparr>"

text \<open>\<open>if self.enable_caching { if let Some(ref cache) = self.cache { cache.remove(key) } }\<close>.\<close>

definition cache_forget :: "bytes \<Rightarrow> fun_kv \<Rightarrow> fun_kv" where
  "cache_forget key s =
     (if fk_enable_caching s
      then (case fk_cache s of
              Some c \<Rightarrow> (let (c', st) = cache_remove key c (fk_stats s)
                         in s\<lparr>fk_cache := Some c', fk_stats := st\<rparr>)
            | None \<Rightarrow> s)
      else s)"

text \<open>An \<open>add_write\<close> whose error is dropped.\<close>

definition buffer_write :: "'w env \<Rightarrow> operation \<Rightarrow> addr \<Rightarrow> nat \<Rightarrow> fun_kv \<Rightarrow> fun_kv" where
  "buffer_write env op a old_value_len s =
     (case fk_write_buffer s of
        Some wb \<Rightarrow>
          (let ((wb', st), _) = add_write (e_rec_struct env) (e_thread_hash env) op a old_value_len
                                  (fk_heap s) (wb, fk_stats s)
           in s\<lparr>fk_write_buffer := Some wb', fk_stats := st\<rparr>)
      | None \<Rightarrow> s)"

definition persistent_update :: "'w env \<Rightarrow> addr \<Rightarrow> addr \<Rightarrow> bytes \<Rightarrow> nat \<Rightarrow> fun_kv \<Rightarrow> fun_kv" where
  "persistent_update env new_a old_a key value_len s =
     buffer_write env Delete old_a value_len
       (buffer_write env Update new_a value_len (cache_forget key s))"

section \<open>Inserting\<close>

text \<open>A record with an expiry if one is given and the store keeps expiries.\<close>

definition make_record :: "bool \<Rightarrow> bytes \<Rightarrow> bytes \<Rightarrow> nat \<Rightarrow> nat \<Rightarrow> kv_record" where
  "make_record with_ttl key value timestamp ttl =
     (if with_ttl then record_new_with_ttl key value timestamp ttl else record_new key value timestamp)"

definition update_record_with_ttl :: "'w env \<Rightarrow> addr \<Rightarrow> bytes \<Rightarrow> nat \<Rightarrow> nat \<Rightarrow> fun_kv \<Rightarrow> fun_kv \<times> bool res" where
  "update_record_with_ttl env old_a value timestamp ttl s =
     (let old = fk_heap s old_a;
          (s1, new_a) = new_record (make_record (0 < ttl \<and> fk_enable_ttl s) (r_key old) value timestamp ttl) s;
          old_value_len = r_value_len old;
          old_size = calculate_size (e_rec_struct env) old;
          new_size = calculate_record_size (e_rec_struct env) (length (r_key old)) (length value)
      in case fk_hash_table s1 (r_key old) of
           None \<Rightarrow> (s1, Err KeyNotFound)
         | Some old_arc \<Rightarrow>
             (let s2 = update_memory_usage new_size old_size (index_put (r_key old) new_a s1);
                  s3 = (if fk_persistency s2
                        then persistent_update env new_a old_arc (r_key old) old_value_len s2 else s2)
              in (s3, Ok False)))"

definition insert_internal :: "'w env \<Rightarrow> bytes \<Rightarrow> bytes \<Rightarrow> nat option \<Rightarrow> nat \<Rightarrow> fun_kv \<Rightarrow> fun_kv \<times> bool res" where
  "insert_internal env key value timestamp ttl_seconds s =
     try_bind (s, validate_key_value key value) (\<lambda>_ s.
     let is_update = (fk_hash_table s key \<noteq> None);
         timestamp_val = timestamp_or_now env timestamp;
         with_ttl = (0 < ttl_seconds \<and> fk_enable_ttl s)
     in case fk_hash_table s key of
          Some a \<Rightarrow>
            if timestamp_val < r_timestamp (fk_heap s a) then (s, Err OlderTimestamp)
            else try_bind (s, if with_ttl then or_panic (expiry_at timestamp_val ttl_seconds) else Ok 0)
                   (\<lambda>ttl_expiry s. update_record_with_ttl env a value timestamp_val ttl_expiry s)
        | None \<Rightarrow>
            let record_size = calculate_record_size (e_rec_struct env) (length key) (length value)
            in try_bind (s, check_memory_limit record_size s) (\<lambda>fits s.
               if \<not> fits then (s, Err OutOfMemory)
               else try_bind (s, if with_ttl then or_panic (expiry_at timestamp_val ttl_seconds) else Ok 0)
                 (\<lambda>ttl_expiry s.
                    let s1 = (if with_ttl
                              then upd_stats (\<lambda>st. st\<lparr>st_keys_with_ttl := wrapping_add (st_keys_with_ttl st) 1\<rparr>) s
                              else s);
                        (s2, a) = new_record (make_record with_ttl key value timestamp_val ttl_expiry) s1;
                        s3 = upd_stats (\<lambda>st. record_insert (e_latency env) is_update
                               (st\<lparr>st_record_count := wrapping_add32 (st_record_count st) 1,
                                   st_memory_usage := wrapping_add (st_memory_usage st) record_size\<rparr>))
                               (index_put key a s2);
                        s4 = (if fk_persistency s3 then buffer_write env Insert a 0 s3 else s3)
                    in (s4, Ok (\<not> is_update)))))"

definition insert_with_timestamp :: "'w env \<Rightarrow> bytes \<Rightarrow> bytes \<Rightarrow> nat option \<Rightarrow> fun_kv \<Rightarrow> fun_kv \<times> bool res" where
  "insert_with_timestamp env key value timestamp s = insert_internal env key value timestamp 0 s"

definition kv_insert :: "'w env \<Rightarrow> bytes \<Rightarrow> bytes \<Rightarrow> fun_kv \<Rightarrow> fun_kv \<times> bool res" where
  "kv_insert env key value s = insert_with_timestamp env key value None s"

definition insert_with_ttl_and_timestamp ::
  "'w env \<Rightarrow> bytes \<Rightarrow> bytes \<Rightarrow> nat \<Rightarrow> nat option \<Rightarrow> fun_kv \<Rightarrow> fun_kv \<times> bool res" where
  "insert_with_ttl_and_timestamp env key value ttl_seconds timestamp s =
     (if \<not> fk_enable_ttl s then (s, Err TtlNotEnabled)
      else insert_internal env key value (Some (timestamp_or_now env timestamp)) ttl_seconds s)"

definition insert_with_ttl :: "'w env \<Rightarrow> bytes \<Rightarrow> bytes \<Rightarrow> nat \<Rightarrow> fun_kv \<Rightarrow> fun_kv \<times> bool res" where
  "insert_with_ttl env key value ttl_seconds s = insert_with_ttl_and_timestamp env key value ttl_seconds None s"

section \<open>Deleting\<close>

definition delete_with_timestamp :: "'w env \<Rightarrow> bytes \<Rightarrow> nat option \<Rightarrow> fun_kv \<Rightarrow> fun_kv \<times> unit res" where
  "delete_with_timestamp env key timestamp s =
     try_bind (s, validate_key key) (\<lambda>_ s.
     let ts = timestamp_or_now env timestamp in
     case fk_hash_table s key of
       None \<Rightarrow> (s, Err KeyNotFound)
     | Some a \<Rightarrow>
         let s1 = s\<lparr>fk_hash_table := (fk_hash_table s)(key := None)\<rparr>; r = fk_heap s a in
         if ts < r_timestamp r then (s1\<lparr>fk_hash_table := (fk_hash_table s1)(key \<mapsto> a)\<rparr>, Err OlderTimestamp)
         else
           let record_size = calculate_size (e_rec_struct env) r;
               old_value_len = r_value_len r;
               s2 = s1\<lparr>fk_heap := (fk_heap s1)(a := r\<lparr>r_refcount := 0\<rparr>), fk_tree := om_remove key (fk_tree s1)\<rparr>;
               s3 = upd_stats (\<lambda>st. st\<lparr>st_record_count := wrapping_sub32 (st_record_count st) 1,
                                       st_memory_usage := wrapping_sub (st_memory_usage st) record_size\<rparr>) s2;
               s4 = cache_forget key s3;
               s5 = (if fk_persistency s4 then buffer_write env Delete a old_value_len s4 else s4)
           in (upd_stats (record_delete (e_latency env)) s5, Ok ()))"

definition kv_delete :: "'w env \<Rightarrow> bytes \<Rightarrow> fun_kv \<Rightarrow> fun_kv \<times> unit res" where
  "kv_delete env key s = delete_with_timestamp env key None s"

section \<open>Reading\<close>

definition load_value_from_disk :: "'w env \<Rightarrow> kv_record \<Rightarrow> fun_kv \<Rightarrow> 'w \<Rightarrow> 'w \<times> bytes res" where
  "load_value_from_disk env r s w =
     (let sector = r_sector r in
      if \<not> fk_persistency s \<or> sector = 0 then (w, Err InvalidRecord)
      else
        let sectors_needed = div_ceil (total_size (length (r_key r)) (r_value_len r)) BLOCK_SIZE
        in case fk_disk_io s of
             None \<Rightarrow> (w, Err (IoError NotFound))
           | Some d \<Rightarrow>
               try_bind (read_sectors_sync (e_os env) d sector sectors_needed w) (\<lambda>data w.
                 let offset = record_header_size (length (r_key r))
                 in if length data < offset + r_value_len r then (w, Err InvalidRecord)
                    else (w, Ok (byte_slice offset (offset + r_value_len r) data))))"

text \<open>The value of a record from memory or from the device, and whether it was in memory.\<close>

definition fetch_value :: "'w env \<Rightarrow> kv_record \<Rightarrow> fun_kv \<Rightarrow> 'w \<Rightarrow> 'w \<times> (bytes \<times> bool) res" where
  "fetch_value env r s w =
     (case get_value r of
        Some v \<Rightarrow> (w, Ok (v, True))
      | None \<Rightarrow> try_bind (load_value_from_disk env r s w) (\<lambda>v w. (w, Ok (v, False))))"

text \<open>The lookup in the cache.\<close>

definition cached :: "bytes \<Rightarrow> fun_kv \<Rightarrow> fun_kv \<times> bytes option" where
  "cached key s =
     (if fk_enable_caching s
      then (case fk_cache s of
              Some c \<Rightarrow> (let (c', r) = cache_get key c in (s\<lparr>fk_cache := Some c'\<rparr>, r))
            | None \<Rightarrow> (s, None))
      else (s, None))"

definition cache_fill :: "bytes \<Rightarrow> bytes \<Rightarrow> fun_kv \<Rightarrow> fun_kv res option" where
  "cache_fill key value s =
     (if fk_enable_caching s
      then (case fk_cache s of
              Some c \<Rightarrow> map_option (\<lambda>r. bind_outcome r (\<lambda>(c', st). Ok (s\<lparr>fk_cache := Some c', fk_stats := st\<rparr>)))
                          (cache_insert key value c (fk_stats s))
            | None \<Rightarrow> Some (Ok s))
      else Some (Ok s))"

text \<open>\<open>get\<close>; the result is \<open>None\<close> if the eviction it triggers does not return.\<close>

definition kv_get :: "'w env \<Rightarrow> bytes \<Rightarrow> fun_kv \<Rightarrow> 'w \<Rightarrow> ((fun_kv \<times> 'w) \<times> bytes res) option" where
  "kv_get env key s w =
     (case validate_key key of
        Err e \<Rightarrow> Some ((s, w), Err e)
      | Panic \<Rightarrow> Some ((s, w), Panic)
      | Ok _ \<Rightarrow>
          (case cached key s of
             (s1, Some value) \<Rightarrow> Some ((upd_stats (record_get (e_latency env) True) s1, w), Ok value)
           | (s1, None) \<Rightarrow>
               (case fk_hash_table s1 key of
                  None \<Rightarrow> Some ((s1, w), Err KeyNotFound)
                | Some a \<Rightarrow>
                    let r = fk_heap s1 a; expiry = r_ttl_expiry r in
                    if fk_enable_ttl s1 \<and> 0 < expiry \<and> expiry < e_now env
                    then Some ((upd_stats (\<lambda>st. st\<lparr>st_ttl_expired_lazy := wrapping_add (st_ttl_expired_lazy st) 1\<rparr>) s1, w),
                               Err KeyNotFound)
                    else
                      (case fetch_value env r s1 w of
                         (w1, Err e) \<Rightarrow> Some ((s1, w1), Err e)
                       | (w1, Panic) \<Rightarrow> Some ((s1, w1), Panic)
                       | (w1, Ok (value, hit)) \<Rightarrow>
                           (case cache_fill key value s1 of
                              None \<Rightarrow> None
                            | Some (Ok s2) \<Rightarrow> Some ((upd_stats (record_get (e_latency env) hit) s2, w1), Ok value)
                            | Some (Err e) \<Rightarrow> Some ((s1, w1), Err e)
                            | Some Panic \<Rightarrow> Some ((s1, w1), Panic))))))"

definition get_size :: "bytes \<Rightarrow> fun_kv \<Rightarrow> nat res" where
  "get_size key s =
     bind_outcome (validate_key key) (\<lambda>_.
       case fk_hash_table s key of None \<Rightarrow> Err KeyNotFound | Some a \<Rightarrow> Ok (r_value_len (fk_heap s a)))"

text \<open>The loop of \<open>range_query\<close> over the entries in key order; \<open>n\<close> results are still wanted.\<close>

fun range_collect :: "'w env \<Rightarrow> fun_kv \<Rightarrow> nat \<Rightarrow> (bytes \<times> addr) list \<Rightarrow> 'w \<Rightarrow> 'w \<times> (bytes \<times> bytes) list res" where
  "range_collect env s n [] w = (w, Ok [])"
| "range_collect env s n ((k, a) # entries) w =
     (if n = 0 then (w, Ok [])
      else try_bind (fetch_value env (fk_heap s a) s w) (\<lambda>(value, hit) w.
           try_bind (range_collect env s (n - 1) entries w) (\<lambda>rest w. (w, Ok ((k, value) # rest)))))"

definition range_query :: "'w env \<Rightarrow> bytes \<Rightarrow> bytes \<Rightarrow> nat \<Rightarrow> fun_kv \<Rightarrow> 'w \<Rightarrow>
    (fun_kv \<times> 'w) \<times> (bytes \<times> bytes) list res" where
  "range_query env start_key end_key limit s w =
     (case bind_outcome (validate_key start_key) (\<lambda>_. validate_key end_key) of
        Err e \<Rightarrow> ((s, w), Err e)
      | Panic \<Rightarrow> ((s, w), Panic)
      | Ok _ \<Rightarrow>
          (case range_collect env s limit (om_range start_key end_key (fk_tree s)) w of
             (w1, Ok result) \<Rightarrow> ((upd_stats (record_range_query (e_latency env)) s, w1), Ok result)
           | (w1, Err e) \<Rightarrow> ((s, w1), Err e)
           | (w1, Panic) \<Rightarrow> ((s, w1), Panic)))"

definition contains_key :: "bytes \<Rightarrow> fun_kv \<Rightarrow> bool" where
  "contains_key key s \<longleftrightarrow> fk_hash_table s key \<noteq> None"

definition kv_len :: "fun_kv \<Rightarrow> nat" where
  "kv_len s = st_record_count (fk_stats s)"

definition kv_is_empty :: "fun_kv \<Rightarrow> bool" where
  "kv_is_empty s \<longleftrightarrow> kv_len s = 0"

definition memory_usage :: "fun_kv \<Rightarrow> nat" where
  "memory_usage s = st_memory_usage (fk_stats s)"

definition kv_stats :: "(rat \<Rightarrow> rat) \<Rightarrow> fun_kv \<Rightarrow> stats_snapshot res" where
  "kv_stats f64 s = stats_snapshot_of f64 (fk_stats s)"

section \<open>Expiry\<close>

definition get_ttl :: "'w env \<Rightarrow> bytes \<Rightarrow> fun_kv \<Rightarrow> nat option res" where
  "get_ttl env key s =
     (if \<not> fk_enable_ttl s then Err TtlNotEnabled
      else bind_outcome (validate_key key) (\<lambda>_.
        case fk_hash_table s key of
          None \<Rightarrow> Err KeyNotFound
        | Some a \<Rightarrow>
            let expiry = r_ttl_expiry (fk_heap s a); now = e_now env
            in if expiry = 0 then Ok None
               else if expiry \<le> now then Ok (Some 0)
               else Ok (Some ((expiry - now) div SECOND))))"

definition update_ttl :: "'w env \<Rightarrow> bytes \<Rightarrow> nat \<Rightarrow> fun_kv \<Rightarrow> fun_kv \<times> unit res" where
  "update_ttl env key ttl_seconds s =
     (if \<not> fk_enable_ttl s then (s, Err TtlNotEnabled)
      else try_bind (s, validate_key key) (\<lambda>_ s.
        case fk_hash_table s key of
          None \<Rightarrow> (s, Err KeyNotFound)
        | Some a \<Rightarrow>
            try_bind (s, if 0 < ttl_seconds then or_panic (expiry_at (e_now env) ttl_seconds) else Ok 0)
              (\<lambda>new_expiry s. (s\<lparr>fk_heap := (fk_heap s)(a := (fk_heap s a)\<lparr>r_ttl_expiry := new_expiry\<rparr>)\<rparr>, Ok ()))))"

definition persist :: "'w env \<Rightarrow> bytes \<Rightarrow> fun_kv \<Rightarrow> fun_kv \<times> unit res" where
  "persist env key s = (if \<not> fk_enable_ttl s then (s, Err TtlNotEnabled) else update_ttl env key 0 s)"

section \<open>Counters in values\<close>

definition decode_counter :: "bytes \<Rightarrow> int res" where
  "decode_counter value = (if length value = 8 then Ok (i64_from_le_bytes value) else Err InvalidOperation)"

text \<open>The record of an increment carries an expiry whenever one is asked for.\<close>

definition counter_record :: "bytes \<Rightarrow> int \<Rightarrow> nat \<Rightarrow> nat \<Rightarrow> kv_record res" where
  "counter_record key val timestamp ttl_seconds =
     (if 0 < ttl_seconds
      then bind_outcome (or_panic (expiry_at timestamp ttl_seconds))
             (\<lambda>e. Ok (record_new_with_ttl key (i64_to_le_bytes val) timestamp e))
      else Ok (record_new key (i64_to_le_bytes val) timestamp))"

definition increment_occupied :: "'w env \<Rightarrow> bytes \<Rightarrow> int \<Rightarrow> nat option \<Rightarrow> nat \<Rightarrow> addr \<Rightarrow> fun_kv \<Rightarrow> 'w \<Rightarrow>
    (fun_kv \<times> 'w) \<times> int res" where
  "increment_occupied env key delta timestamp ttl_seconds a s w =
     (let old = fk_heap s a; ts = timestamp_or_now env timestamp in
      if ts < r_timestamp old then ((s, w), Err OlderTimestamp)
      else
        let (w1, loaded) = fetch_value env old s w in
        try_bind ((s, w1), bind_outcome loaded (\<lambda>(value, hit). decode_counter value)) (\<lambda>current_val (s, w).
        let new_val = saturating_add_i64 current_val delta in
        try_bind ((s, w), counter_record (r_key old) new_val ts ttl_seconds) (\<lambda>r (s, w).
        let (s1, new_a) = new_record r s;
            old_value_len = r_value_len old;
            old_size = calculate_size (e_rec_struct env) old;
            new_size = calculate_record_size (e_rec_struct env) (r_key_len old) 8;
            s2 = update_memory_usage new_size old_size (index_put key new_a s1);
            s3 = (if fk_persistency s2 then persistent_update env new_a a key old_value_len s2 else s2)
        in ((s3, w), Ok new_val))))"

definition increment_vacant :: "'w env \<Rightarrow> bytes \<Rightarrow> int \<Rightarrow> nat option \<Rightarrow> nat \<Rightarrow> fun_kv \<Rightarrow> 'w \<Rightarrow>
    (fun_kv \<times> 'w) \<times> int res" where
  "increment_vacant env key delta timestamp ttl_seconds s w =
     (let ts = timestamp_or_now env timestamp in
      try_bind ((s, w), counter_record key delta ts ttl_seconds) (\<lambda>r (s, w).
      let (s1, a) = new_record r s;
          s2 = upd_stats (\<lambda>st. st\<lparr>st_record_count := wrapping_add32 (st_record_count st) 1,
                 st_memory_usage := wrapping_add (st_memory_usage st)
                   (calculate_record_size (e_rec_struct env) (length key) 8)\<rparr>) (index_put key a s1);
          s3 = (if fk_persistency s2 then buffer_write env Insert a 0 s2 else s2)
      in ((s3, w), Ok delta)))"

definition atomic_increment_internal :: "'w env \<Rightarrow> bytes \<Rightarrow> int \<Rightarrow> nat option \<Rightarrow> nat \<Rightarrow> fun_kv \<Rightarrow> 'w \<Rightarrow>
    (fun_kv \<times> 'w) \<times> int res" where
  "atomic_increment_internal env key delta timestamp ttl_seconds s w =
     try_bind ((s, w), validate_key key) (\<lambda>_ (s, w).
       case fk_hash_table s key of
         Some a \<Rightarrow> increment_occupied env key delta timestamp ttl_seconds a s w
       | None \<Rightarrow> increment_vacant env key delta timestamp ttl_seconds s w)"

definition atomic_increment_with_timestamp :: "'w env \<Rightarrow> bytes \<Rightarrow> int \<Rightarrow> nat option \<Rightarrow> fun_kv \<Rightarrow> 'w \<Rightarrow>
    (fun_kv \<times> 'w) \<times> int res" where
  "atomic_increment_with_timestamp env key delta timestamp s w =
     atomic_increment_internal env key delta timestamp 0 s w"

definition atomic_increment :: "'w env \<Rightarrow> bytes \<Rightarrow> int \<Rightarrow> fun_kv \<Rightarrow> 'w \<Rightarrow> (fun_kv \<times> 'w) \<times> int res" where
  "atomic_increment env key delta s w = atomic_increment_internal env key delta None 0 s w"

definition atomic_increment_with_timestamp_and_ttl :: "'w env \<Rightarrow> bytes \<Rightarrow> int \<Rightarrow> nat option \<Rightarrow> nat \<Rightarrow>
    fun_kv \<Rightarrow> 'w \<Rightarrow> (fun_kv \<times> 'w) \<times> int res" where
  "atomic_increment_with_timestamp_and_ttl env key delta timestamp ttl_seconds s w =
     (if \<not> fk_enable_ttl s then ((s, w), Err TtlNotEnabled)
      else atomic_increment_internal env key delta timestamp ttl_seconds s w)"

definition atomic_increment_with_ttl :: "'w env \<Rightarrow> bytes \<Rightarrow> int \<Rightarrow> nat \<Rightarrow> fun_kv \<Rightarrow> 'w \<Rightarrow>
    (fun_kv \<times> 'w) \<times> int res" where
  "atomic_increment_with_ttl env key delta ttl_seconds s w =
     (if \<not> fk_enable_ttl s then ((s, w), Err TtlNotEnabled)
      else atomic_increment_with_timestamp_and_ttl env key delta None ttl_seconds s w)"

end
