(* ===== verification/Store_Effects.thy ===== *)
theory Store_Effects
  imports Store "HOL-Library.Multiset"
begin

text \<open>
  What the helpers of the store do to the cache and to the write buffer, in relations that compose:
  \<open>cache_shrinks\<close> says that the cache stays consistent and loses at least the given keys, \<open>queued\<close>
  that the given entries were appended to the shards.
\<close>

section \<open>The cache\<close>

definition cache_shrinks :: "bytes set \<Rightarrow> fun_kv \<Rightarrow> fun_kv \<Rightarrow> bool" where
  "cache_shrinks K s s' \<longleftrightarrow>
     (fk_cache s = None \<longrightarrow> fk_cache s' = None) \<and>
     (\<forall>c. fk_cache s = Some c \<longrightarrow> cache_ok c (fk_stats s) \<longrightarrow>
        (\<exists>c'. fk_cache s' = Some c' \<and> cache_ok c' (fk_stats s') \<and>
           (\<forall>k v. cache_lookup c' k = Some v \<longrightarrow> cache_lookup c k = Some v \<and> k \<notin> K)))"

lemma cache_shrinks_trans:
  assumes "cache_shrinks K s t" "cache_shrinks L t u"
  shows "cache_shrinks (K \<union> L) s u"
proof (cases "fk_cache s")
  case None
  with assms show ?thesis by (simp add: cache_shrinks_def)
next
  case (Some c)
  show ?thesis
  proof (cases "cache_ok c (fk_stats s)")
    case True
    with Some assms(1) obtain c1 where c1: "fk_cache t = Some c1" "cache_ok c1 (fk_stats t)"
      "\<forall>k v. cache_lookup c1 k = Some v \<longrightarrow> cache_lookup c k = Some v \<and> k \<notin> K" by (auto simp: cache_shrinks_def)
    with assms(2) obtain c2 where "fk_cache u = Some c2" "cache_ok c2 (fk_stats u)"
      "\<forall>k v. cache_lookup c2 k = Some v \<longrightarrow> cache_lookup c1 k = Some v \<and> k \<notin> L" by (auto simp: cache_shrinks_def)
    with c1 Some show ?thesis by (auto simp: cache_shrinks_def)
  qed (simp add: cache_shrinks_def Some)
qed

lemma cache_shrinks_mono: "cache_shrinks K s t \<Longrightarrow> L \<subseteq> K \<Longrightarrow> cache_shrinks L s t"
  unfolding cache_shrinks_def by blast

lemma cache_ok_stats: "st_cache_memory st' = st_cache_memory st \<Longrightarrow> cache_ok c st' = cache_ok c st"
  by (simp add: cache_ok_def cache_inv_def)

lemma cache_shrinks_same:
  "fk_cache s' = fk_cache s \<Longrightarrow> st_cache_memory (fk_stats s') = st_cache_memory (fk_stats s) \<Longrightarrow> cache_shrinks {} s s'"
  using cache_ok_stats[of "fk_stats s'" "fk_stats s"] by (simp add: cache_shrinks_def)

lemma cache_shrinks_forget:
  assumes "fk_cache s \<noteq> None \<longrightarrow> fk_enable_caching s"
  shows "cache_shrinks {key} s (cache_forget key s)"
proof (cases "fk_cache s")
  case (Some c)
  obtain c' st where r: "cache_remove key c (fk_stats s) = (c', st)" by fastforce
  from cache_remove_result[OF _ r] Some assms r show ?thesis
    by (auto simp: cache_shrinks_def cache_forget_def split: if_splits)
qed (simp add: cache_shrinks_def cache_forget_def)

section \<open>The write buffer\<close>

definition buffered :: "fun_kv \<Rightarrow> write_entry list" where
  "buffered s = (case fk_write_buffer s of None \<Rightarrow> [] | Some wb \<Rightarrow> concat (map sh_buffer (wb_shards wb)))"

definition shards_ok :: "fun_kv \<Rightarrow> bool" where
  "shards_ok s \<longleftrightarrow> (\<forall>wb. fk_write_buffer s = Some wb \<longrightarrow> wb_shards wb \<noteq> [])"

definition queued :: "write_entry list \<Rightarrow> fun_kv \<Rightarrow> fun_kv \<Rightarrow> bool" where
  "queued es s s' \<longleftrightarrow> mset (buffered s') = mset (buffered s) + mset es \<and> (shards_ok s \<longrightarrow> shards_ok s') \<and>
     (fk_write_buffer s' = None \<longleftrightarrow> fk_write_buffer s = None)"

lemma queued_refl: "fk_write_buffer s' = fk_write_buffer s \<Longrightarrow> queued [] s s'"
  by (simp add: queued_def buffered_def shards_ok_def)

lemma queued_trans: "queued es s t \<Longrightarrow> queued fs t u \<Longrightarrow> queued (es @ fs) s u"
  by (auto simp: queued_def ac_simps)

lemma mset_concat_update:
  "i < length xss \<Longrightarrow> mset (concat (xss[i := xss ! i @ ys])) = mset (concat xss) + mset ys"
proof (induction xss arbitrary: i)
  case (Cons xs xss)
  then show ?case by (cases i) (auto simp: ac_simps)
qed simp

text \<open>\<open>add_write\<close> appends one entry, or none when the buffer is shutting down.\<close>

lemma add_write_buffered:
  assumes "add_write rs th op a n h (wb, st) = ((wb', st'), r)" "wb_shards wb \<noteq> []"
  shows "\<exists>es. mset (concat (map sh_buffer (wb_shards wb'))) = mset (concat (map sh_buffer (wb_shards wb))) + mset es \<and>
    (es = [] \<or> (\<exists>e. es = [e] \<and> we_operation e = op \<and> we_record e = a \<and> we_old_value_len e = n)) \<and> wb_shards wb' \<noteq> [] \<and>
    st_cache_memory st' = st_cache_memory st"
proof (cases "wb_shutdown wb")
  case True
  with assms show ?thesis by (intro exI[of _ "[]"]) (auto simp: add_write_def)
next
  case False
  let ?i = "get_shard_id th wb"
  define e where "e = \<lparr>we_operation = op, we_record = a, we_old_value_len = n, we_work_status = 0, we_retry_count = 0\<rparr>"
  have i: "?i < length (wb_shards wb)" using assms(2) by (simp add: get_shard_id_def)
  have "wb_shards wb' = (wb_shards wb)[?i := add_entry rs h e (wb_shards wb ! ?i)]"
    "st_cache_memory st' = st_cache_memory st"
    using assms(1) False by (auto simp: add_write_def Let_def e_def record_write_buffered_def)
  moreover have "map sh_buffer ((wb_shards wb)[?i := add_entry rs h e (wb_shards wb ! ?i)]) =
      (map sh_buffer (wb_shards wb))[?i := map sh_buffer (wb_shards wb) ! ?i @ [e]]"
    using i by (simp add: map_update add_entry_def Let_def)
  ultimately show ?thesis using i assms(2) mset_concat_update[of ?i "map sh_buffer (wb_shards wb)" "[e]"]
    by (intro exI[of _ "[e]"]) (auto simp: e_def)
qed

definition entry_for :: "operation \<Rightarrow> addr \<Rightarrow> nat \<Rightarrow> write_entry list \<Rightarrow> bool" where
  "entry_for op a n es \<longleftrightarrow> es = [] \<or> (\<exists>e. es = [e] \<and> we_operation e = op \<and> we_record e = a \<and> we_old_value_len e = n)"

lemma buffer_write_queued:
  assumes "shards_ok s"
  shows "\<exists>es. entry_for op a n es \<and> queued es s (buffer_write env op a n s) \<and> cache_shrinks {} s (buffer_write env op a n s)"
proof (cases "fk_write_buffer s")
  case None
  then show ?thesis
    by (intro exI[of _ "[]"]) (simp add: buffer_write_def entry_for_def queued_refl cache_shrinks_same)
next
  case (Some wb)
  obtain wb' st r where w: "add_write (e_rec_struct env) (e_thread_hash env) op a n (fk_heap s) (wb, fk_stats s) = ((wb', st), r)"
    by (metis prod.collapse)
  from add_write_buffered[OF w] assms Some obtain es where
    es: "mset (concat (map sh_buffer (wb_shards wb'))) = mset (concat (map sh_buffer (wb_shards wb))) + mset es"
    "entry_for op a n es" "wb_shards wb' \<noteq> []" "st_cache_memory st = st_cache_memory (fk_stats s)"
    by (auto simp: shards_ok_def entry_for_def)
  then show ?thesis
    using Some w by (intro exI[of _ es]) (simp add: buffer_write_def queued_def buffered_def shards_ok_def cache_shrinks_same)
qed

lemma cache_forget_queued: "queued [] s (cache_forget key s)"
  by (rule queued_refl) (simp add: cache_forget_def split: option.split prod.split)

lemma persistent_update_queued:
  assumes "shards_ok s" "fk_cache s \<noteq> None \<longrightarrow> fk_enable_caching s"
  shows "\<exists>us ds. entry_for Update new_a n us \<and> entry_for Delete old_a n ds \<and>
    queued (us @ ds) s (persistent_update env new_a old_a key n s) \<and>
    cache_shrinks {key} s (persistent_update env new_a old_a key n s)"
proof -
  let ?s1 = "cache_forget key s" and ?s2 = "buffer_write env Update new_a n (cache_forget key s)"
  have q1: "queued [] s ?s1" and c1: "cache_shrinks {key} s ?s1"
    by (rule cache_forget_queued, rule cache_shrinks_forget[OF assms(2)])
  have ok1: "shards_ok ?s1" using q1 assms(1) by (simp add: queued_def)
  obtain us where us: "entry_for Update new_a n us" "queued us ?s1 ?s2" "cache_shrinks {} ?s1 ?s2"
    using buffer_write_queued[OF ok1] by blast
  have ok2: "shards_ok ?s2" using us(2) ok1 by (simp add: queued_def)
  obtain ds where ds: "entry_for Delete old_a n ds" "queued ds ?s2 (buffer_write env Delete old_a n ?s2)"
    "cache_shrinks {} ?s2 (buffer_write env Delete old_a n ?s2)" using buffer_write_queued[OF ok2] by blast
  from queued_trans[OF q1 queued_trans[OF us(2) ds(2)]] cache_shrinks_trans[OF c1 cache_shrinks_trans[OF us(3) ds(3)]] us(1) ds(1)
  show ?thesis by (auto simp: persistent_update_def)
qed

end
