(* ===== verification/Store_Spec.thy ===== *)
theory Store_Spec
  imports Store_Effects
begin

text \<open>
  What the store promises. The abstract state is a map from keys to value, timestamp and expiry;
  \<open>kv_abs\<close> reads it off the hash table, the heap and the content of the device. The invariant
  \<open>store_inv\<close> ties the two indexes, the records and the counters together. The lemmas say what each
  operation does to both.
\<close>

section \<open>Invariant and abstraction\<close>

type_synonym kv_entry = "bytes \<times> nat \<times> nat"

definition entry_of :: "(nat \<Rightarrow> byte) \<Rightarrow> kv_record \<Rightarrow> kv_entry" where
  "entry_of m r = (value_of m r, r_timestamp r, r_ttl_expiry r)"

definition kv_abs :: "(nat \<Rightarrow> byte) \<Rightarrow> fun_kv \<Rightarrow> bytes \<rightharpoonup> kv_entry" where
  "kv_abs m s = (\<lambda>k. map_option (\<lambda>a. entry_of m (fk_heap s a)) (fk_hash_table s k))"

lemma kv_abs_Some: "fk_hash_table s k = Some a \<Longrightarrow>
    kv_abs m s k = Some (value_of m (fk_heap s a), r_timestamp (fk_heap s a), r_ttl_expiry (fk_heap s a))"
  by (simp add: kv_abs_def entry_of_def)

lemma kv_abs_None: "fk_hash_table s k = None \<Longrightarrow> kv_abs m s k = None"
  by (simp add: kv_abs_def)

definition rec_bytes :: "nat \<Rightarrow> fun_kv \<Rightarrow> addr \<Rightarrow> nat" where
  "rec_bytes rs s a = calculate_size rs (fk_heap s a)"

definition record_indexed :: "fun_kv \<Rightarrow> bytes \<Rightarrow> addr \<Rightarrow> bool" where
  "record_indexed s k a \<longleftrightarrow> a < fk_next s \<and> r_key (fk_heap s a) = k \<and> record_wf (fk_heap s a) \<and>
     0 < r_refcount (fk_heap s a) \<and> validate_key k = Ok ()"

definition store_inv :: "nat \<Rightarrow> fun_kv \<Rightarrow> bool" where
  "store_inv rs s \<longleftrightarrow>
     om_inv (fk_tree s) \<and> om_get (fk_tree s) = fk_hash_table s \<and>
     (\<forall>k a. fk_hash_table s k = Some a \<longrightarrow> record_indexed s k a) \<and>
     st_record_count (fk_stats s) = length (fk_tree s) mod 2 ^ 32 \<and>
     st_memory_usage (fk_stats s) = om_sum (rec_bytes rs s) (fk_tree s) mod U64_LIM"

text \<open>Two states with the same indexes, records and index counters.\<close>

definition same_core :: "fun_kv \<Rightarrow> fun_kv \<Rightarrow> bool" where
  "same_core s s' \<longleftrightarrow> fk_heap s' = fk_heap s \<and> fk_next s' = fk_next s \<and>
     fk_hash_table s' = fk_hash_table s \<and> fk_tree s' = fk_tree s \<and>
     st_record_count (fk_stats s') = st_record_count (fk_stats s) \<and>
     st_memory_usage (fk_stats s') = st_memory_usage (fk_stats s) \<and>
     fk_persistency s' = fk_persistency s \<and> fk_enable_ttl s' = fk_enable_ttl s \<and>
     fk_enable_caching s' = fk_enable_caching s \<and> fk_disk_io s' = fk_disk_io s \<and> fk_max_memory s' = fk_max_memory s \<and>
     fk_free_space s' = fk_free_space s"

lemma same_core_refl [simp]: "same_core s s"
  by (simp add: same_core_def)

lemma same_core_trans: "same_core s t \<Longrightarrow> same_core t u \<Longrightarrow> same_core s u"
  by (simp add: same_core_def)

lemma same_core_inv: "same_core s s' \<Longrightarrow> store_inv rs s' = store_inv rs s"
proof -
  assume c: "same_core s s'"
  then have "rec_bytes rs s' = rec_bytes rs s" by (simp add: same_core_def rec_bytes_def fun_eq_iff)
  moreover have "record_indexed s' = record_indexed s"
    using c by (simp add: same_core_def record_indexed_def fun_eq_iff)
  ultimately show ?thesis using c by (simp add: store_inv_def same_core_def)
qed

lemma same_core_abs: "same_core s s' \<Longrightarrow> kv_abs m s' = kv_abs m s"
  by (simp add: same_core_def kv_abs_def)

text \<open>Updates of other counters.\<close>

definition keeps_index_counters :: "(statistics \<Rightarrow> statistics) \<Rightarrow> bool" where
  "keeps_index_counters f \<longleftrightarrow> (\<forall>st. st_record_count (f st) = st_record_count st \<and> st_memory_usage (f st) = st_memory_usage st)"

lemma keeps_simps [simp]:
  "keeps_index_counters (record_get l h)" "keeps_index_counters (record_insert l u)"
  "keeps_index_counters (record_delete l)" "keeps_index_counters (record_range_query l)"
  "keeps_index_counters (\<lambda>st. st\<lparr>st_keys_with_ttl := f st\<rparr>)"
  "keeps_index_counters (\<lambda>st. st\<lparr>st_ttl_expired_lazy := f st\<rparr>)"
  "keeps_index_counters (\<lambda>st. st\<lparr>st_cache_memory := f st\<rparr>)" "keeps_index_counters record_write_buffered"
  by (simp_all add: keeps_index_counters_def record_get_def record_insert_def record_delete_def
      record_range_query_def record_write_buffered_def Let_def)

lemma same_core_upd_stats: "keeps_index_counters f \<Longrightarrow> same_core s (upd_stats f s)"
  by (simp add: same_core_def upd_stats_def keeps_index_counters_def)

lemma cache_remove_stats:
  "cache_remove key c st = (c', st') \<Longrightarrow>
   st_record_count st' = st_record_count st \<and> st_memory_usage st' = st_memory_usage st"
  by (auto simp: cache_remove_def Let_def split: option.splits prod.splits)

lemma same_core_cache_forget: "same_core s (cache_forget key s)"
proof (cases "fk_enable_caching s \<and> fk_cache s \<noteq> None")
  case True
  then obtain c where c: "fk_cache s = Some c" by auto
  obtain c' st where r: "cache_remove key c (fk_stats s) = (c', st)" by fastforce
  from cache_remove_stats[OF r] True c r show ?thesis by (auto simp: cache_forget_def same_core_def)
qed (auto simp: cache_forget_def)

lemma add_write_stats: "snd (fst (add_write rs th op a n h (wb, st))) = st \<or>
    snd (fst (add_write rs th op a n h (wb, st))) = record_write_buffered st"
  by (auto simp: add_write_def Let_def)

lemma same_core_buffer_write: "same_core s (buffer_write env op a n s)"
proof (cases "fk_write_buffer s")
  case (Some wb)
  obtain wb' st r where w: "add_write (e_rec_struct env) (e_thread_hash env) op a n (fk_heap s) (wb, fk_stats s) = ((wb', st), r)"
    by (metis prod.collapse)
  have "st = fk_stats s \<or> st = record_write_buffered (fk_stats s)"
    using add_write_stats[of "e_rec_struct env" "e_thread_hash env" op a n "fk_heap s" wb "fk_stats s"] w by simp
  with Some w show ?thesis by (auto simp: buffer_write_def same_core_def record_write_buffered_def)
qed (simp add: buffer_write_def)

lemma same_core_persistent_update: "same_core s (persistent_update env new_a old_a key n s)"
  unfolding persistent_update_def
  by (rule same_core_trans[OF same_core_trans[OF same_core_cache_forget same_core_buffer_write] same_core_buffer_write])

lemmas same_core_intros = same_core_upd_stats same_core_cache_forget same_core_buffer_write same_core_persistent_update

section \<open>Putting and removing a record\<close>

text \<open>The effect of storing record \<open>r\<close> under \<open>key\<close>, old record replaced or not.\<close>

definition put_effect :: "bytes \<Rightarrow> kv_record \<Rightarrow> fun_kv \<Rightarrow> fun_kv \<Rightarrow> bool" where
  "put_effect key r s s' \<longleftrightarrow> fk_heap s' = (fk_heap s)(fk_next s := r) \<and> fk_next s' = fk_next s + 1 \<and>
     fk_hash_table s' = (fk_hash_table s)(key \<mapsto> fk_next s) \<and> fk_tree s' = om_insert key (fk_next s) (fk_tree s) \<and>
     fk_persistency s' = fk_persistency s \<and> fk_enable_ttl s' = fk_enable_ttl s \<and>
     fk_enable_caching s' = fk_enable_caching s \<and> fk_disk_io s' = fk_disk_io s \<and> fk_max_memory s' = fk_max_memory s \<and>
     fk_free_space s' = fk_free_space s"

lemma put_effect_abs:
  assumes "put_effect key r s s'" "store_inv rs s"
  shows "kv_abs m s' = (kv_abs m s)(key \<mapsto> entry_of m r)"
proof (rule ext)
  fix k
  have "a \<noteq> fk_next s" if "fk_hash_table s k = Some a" for a
    using assms(2) that by (auto simp: store_inv_def record_indexed_def)
  then show "kv_abs m s' k = ((kv_abs m s)(key \<mapsto> entry_of m r)) k"
    using assms(1) by (cases "fk_hash_table s k") (auto simp: put_effect_def kv_abs_def)
qed

lemma put_effect_inv:
  assumes p: "put_effect key r s s'" and inv: "store_inv rs s" and r: "r_key r = key" "record_wf r" "0 < r_refcount r"
    and k: "validate_key key = Ok ()"
    and cnt: "st_record_count (fk_stats s') = (case fk_hash_table s key of None \<Rightarrow> wrapping_add32 (st_record_count (fk_stats s)) 1
        | Some _ \<Rightarrow> st_record_count (fk_stats s))"
    and mem: "st_memory_usage (fk_stats s') = (om_sum (rec_bytes rs s) (fk_tree s) + calculate_size rs r -
        (case fk_hash_table s key of None \<Rightarrow> 0 | Some a \<Rightarrow> rec_bytes rs s a)) mod U64_LIM"
  shows "store_inv rs s'"
proof -
  have I: "om_inv (fk_tree s)" "om_get (fk_tree s) = fk_hash_table s"
    "\<And>k a. fk_hash_table s k = Some a \<Longrightarrow> record_indexed s k a"
    "st_record_count (fk_stats s) = length (fk_tree s) mod 2 ^ 32"
    using inv by (auto simp: store_inv_def)
  have ri: "record_indexed s' k' a" if "fk_hash_table s' k' = Some a" for k' a
    using that p r k I(3)[of k' a] by (auto simp: put_effect_def record_indexed_def split: if_splits)
  have f: "rec_bytes rs s' a = rec_bytes rs s a" if "om_get (fk_tree s) k' = Some a" for k' a
    using that I(2) I(3)[of k' a] p by (auto simp: put_effect_def rec_bytes_def record_indexed_def)
  have new: "rec_bytes rs s' (fk_next s) = calculate_size rs r" using p by (simp add: put_effect_def rec_bytes_def)
  have sum: "om_sum (rec_bytes rs s') (fk_tree s) = om_sum (rec_bytes rs s) (fk_tree s)"
    by (rule om_sum_cong[OF f I(1)])
  have t: "fk_tree s' = om_insert key (fk_next s) (fk_tree s)" using p by (simp add: put_effect_def)
  have "st_record_count (fk_stats s') = length (fk_tree s') mod 2 ^ 32 \<and>
      st_memory_usage (fk_stats s') = om_sum (rec_bytes rs s') (fk_tree s') mod U64_LIM"
  proof (cases "fk_hash_table s key")
    case None
    with I(2) have none: "om_get (fk_tree s) key = None" by simp
    from None cnt mem I(4) om_len_insert_new[OF none] om_sum_insert_new[OF none] show ?thesis
      by (simp add: t sum new wrapping_mod wrapping_mod(3,4)[simplified])
  next
    case (Some a)
    with I(2) have some: "om_get (fk_tree s) key = Some a" by simp
    have "om_sum (rec_bytes rs s') (fk_tree s') + rec_bytes rs s a = om_sum (rec_bytes rs s) (fk_tree s) + calculate_size rs r"
      using om_sum_insert_old[OF I(1) some, of "rec_bytes rs s'" "fk_next s"] f[OF some] by (simp add: t sum new)
    then have "om_sum (rec_bytes rs s') (fk_tree s') =
        om_sum (rec_bytes rs s) (fk_tree s) + calculate_size rs r - rec_bytes rs s a" by linarith
    with Some cnt mem I(4) om_len_insert_old[OF I(1) some] show ?thesis by (simp add: t)
  qed
  moreover have "om_inv (fk_tree s')" "om_get (fk_tree s') = fk_hash_table s'"
    using I(1,2) p by (simp_all add: put_effect_def)
  ultimately show ?thesis using ri by (simp add: store_inv_def)
qed

lemma update_memory_usage_sum:
  assumes "st_memory_usage (fk_stats s) = n mod U64_LIM" "old \<le> n"
  shows "st_memory_usage (fk_stats (update_memory_usage new old s)) = (n + new - old) mod U64_LIM"
proof (cases "old < new")
  case True
  then have "n + (new - old) = n + new - old" by simp
  with True assms show ?thesis by (simp add: update_memory_usage_def wrapping_mod)
next
  case False
  then have "n - (old - new) = n + new - old" using assms(2) by linarith
  with False assms show ?thesis by (simp add: update_memory_usage_def wrapping_mod)
qed

lemma put_effect_same_core: "put_effect key r s t \<Longrightarrow> same_core t u \<Longrightarrow> put_effect key r s u"
  by (simp add: put_effect_def same_core_def)

lemma put_effect_new:
  "new_record r s = (s1, a) \<Longrightarrow> put_effect key r s (index_put key a s1) \<and> fk_stats (index_put key a s1) = fk_stats s"
  by (auto simp: new_record_def index_put_def put_effect_def)

lemma put_effect_stats: "put_effect key r s t \<Longrightarrow> put_effect key r s (t\<lparr>fk_stats := st\<rparr>)"
  by (simp add: put_effect_def)

text \<open>A new record, and a step that stores it: indexes, write buffer and cache.\<close>

definition fresh_record :: "bytes \<Rightarrow> kv_record \<Rightarrow> bool" where
  "fresh_record key r \<longleftrightarrow> r_key r = key \<and> record_wf r \<and> 0 < r_refcount r \<and> r_sector r = 0 \<and> r_value r \<noteq> None"

lemma fresh_recordD: "fresh_record key r \<Longrightarrow> r_key r = key" "fresh_record key r \<Longrightarrow> record_wf r"
    "fresh_record key r \<Longrightarrow> 0 < r_refcount r"
  by (simp_all add: fresh_record_def)

definition wired :: "fun_kv \<Rightarrow> bool" where
  "wired s \<longleftrightarrow> shards_ok s \<and> (fk_cache s \<noteq> None \<longrightarrow> fk_enable_caching s)"

definition put_queue :: "bytes \<Rightarrow> fun_kv \<Rightarrow> write_entry list \<Rightarrow> bool" where
  "put_queue key s es \<longleftrightarrow> (\<exists>ws ds. es = ws @ ds \<and> (\<exists>op n. op \<in> {Insert, Update} \<and> entry_for op (fk_next s) n ws) \<and>
     (ds = [] \<or> (\<exists>a. fk_hash_table s key = Some a \<and> entry_for Delete a (r_value_len (fk_heap s a)) ds)))"

definition stored :: "bytes \<Rightarrow> kv_record \<Rightarrow> fun_kv \<Rightarrow> fun_kv \<Rightarrow> bool" where
  "stored key r s s' \<longleftrightarrow> put_effect key r s s' \<and> fresh_record key r \<and>
     (wired s \<longrightarrow> (\<exists>es. put_queue key s es \<and> (\<not> fk_persistency s \<longrightarrow> es = []) \<and> queued es s s') \<and>
        cache_shrinks (if fk_persistency s \<and> fk_hash_table s key \<noteq> None then {key} else {}) s s')"

lemma storedD: "stored key r s s' \<Longrightarrow> put_effect key r s s'" "stored key r s s' \<Longrightarrow> fresh_record key r"
  by (simp_all add: stored_def)

lemma make_record_props [simp]:
  "r_key (make_record b key v t e) = key" "r_refcount (make_record b key v t e) = 1"
  "r_value_len (make_record b key v t e) = length v" "r_value (make_record b key v t e) = Some v"
  "r_timestamp (make_record b key v t e) = t" "r_ttl_expiry (make_record b key v t e) = (if b then e else 0)"
  by (simp_all add: make_record_def)

lemma make_record_wf:
  "length v < U64_LIM \<Longrightarrow> t < U64_LIM \<Longrightarrow> e < U64_LIM \<Longrightarrow> record_wf (make_record b key v t e)"
  by (simp add: make_record_def record_new_wf record_new_with_ttl_wf)

lemma make_record_fresh:
  "length v < U64_LIM \<Longrightarrow> t < U64_LIM \<Longrightarrow> e < U64_LIM \<Longrightarrow> fresh_record key (make_record b key v t e)"
  using make_record_wf[of v t e b key] by (simp add: fresh_record_def) (simp add: make_record_def)

lemma calculate_size_of: "calculate_size rs r = calculate_record_size rs (length (r_key r)) (r_value_len r)"
  by (simp add: calculate_size_def)

lemma entry_of_make: "entry_of m (make_record b key v t e) = (v, t, if b then e else 0)"
  by (simp add: entry_of_def value_of_def)

lemma inv_indexed: "store_inv rs s \<Longrightarrow> fk_hash_table s key = Some a \<Longrightarrow> record_indexed s key a"
  by (simp add: store_inv_def)

lemma inv_mem: "store_inv rs s \<Longrightarrow> st_memory_usage (fk_stats s) = om_sum (rec_bytes rs s) (fk_tree s) mod U64_LIM"
  by (simp add: store_inv_def)

lemma inv_rec_le:
  assumes "store_inv rs s" "fk_hash_table s key = Some a"
  shows "rec_bytes rs s a \<le> om_sum (rec_bytes rs s) (fk_tree s)"
proof -
  have "om_get (fk_tree s) key = Some a" using assms by (simp add: store_inv_def)
  then show ?thesis using om_sum_ge[of "fk_tree s" key a "rec_bytes rs s"] assms(1) by (simp add: store_inv_def)
qed

section \<open>Insert and update\<close>

text \<open>Replacing the record of a key: what an update and an increment do once they have the new record.\<close>

lemma replace_result:
  assumes inv: "store_inv (e_rec_struct env) s" and a: "fk_hash_table s key = Some a"
    and fr: "fresh_record key r" and new: "new_record r s = (s1, n)"
    and s2: "s2 = update_memory_usage (calculate_size (e_rec_struct env) r) (calculate_size (e_rec_struct env) (fk_heap s a)) (index_put key n s1)"
    and s3: "s3 = (if fk_persistency s2 then persistent_update env n a key (r_value_len (fk_heap s a)) s2 else s2)"
  shows "store_inv (e_rec_struct env) s3" "stored key r s s3"
proof -
  let ?rs = "e_rec_struct env"
  note r = fresh_recordD[OF fr]
  note pe = put_effect_new[OF new, of key]
  have k: "validate_key key = Ok ()" using inv_indexed[OF inv a] by (simp add: record_indexed_def)
  have p2: "put_effect key r s s2" using pe by (simp add: s2 update_memory_usage_def put_effect_stats)
  have mem: "st_memory_usage (fk_stats s2) = (om_sum (rec_bytes ?rs s) (fk_tree s) + calculate_size ?rs r - rec_bytes ?rs s a) mod U64_LIM"
    using update_memory_usage_sum[of "index_put key n s1" "om_sum (rec_bytes ?rs s) (fk_tree s)"] pe inv_mem[OF inv] inv_rec_le[OF inv a]
    by (simp add: s2 rec_bytes_def)
  have "st_record_count (fk_stats s2) = st_record_count (fk_stats s)" using pe by (simp add: s2 update_memory_usage_def)
  with mem a have "store_inv ?rs s2" by (intro put_effect_inv[OF p2 inv r k]) simp_all
  moreover have c: "same_core s2 s3" by (simp add: s3 same_core_persistent_update)
  ultimately show "store_inv ?rs s3" using same_core_inv[OF c] by simp
  have n: "n = fk_next s" using new by (auto simp: new_record_def)
  have same: "fk_write_buffer s2 = fk_write_buffer s" "fk_cache s2 = fk_cache s" "fk_enable_caching s2 = fk_enable_caching s"
    "fk_persistency s2 = fk_persistency s" "st_cache_memory (fk_stats s2) = st_cache_memory (fk_stats s)"
    using new by (auto simp: s2 update_memory_usage_def index_put_def new_record_def)
  have q2: "queued [] s s2" and c2: "cache_shrinks {} s s2" by (simp_all add: queued_refl cache_shrinks_same same)
  have "(\<exists>es. put_queue key s es \<and> (\<not> fk_persistency s \<longrightarrow> es = []) \<and> queued es s s3) \<and>
      cache_shrinks (if fk_persistency s \<and> fk_hash_table s key \<noteq> None then {key} else {}) s s3" if w: "wired s"
  proof (cases "fk_persistency s")
    case True
    have "shards_ok s2" using w q2 by (simp add: wired_def queued_def)
    moreover have "fk_cache s2 \<noteq> None \<longrightarrow> fk_enable_caching s2" using w same by (simp add: wired_def)
    ultimately have "\<exists>us ds. entry_for Update n (r_value_len (fk_heap s a)) us \<and> entry_for Delete a (r_value_len (fk_heap s a)) ds \<and>
        queued (us @ ds) s2 (persistent_update env n a key (r_value_len (fk_heap s a)) s2) \<and>
        cache_shrinks {key} s2 (persistent_update env n a key (r_value_len (fk_heap s a)) s2)"
      by (rule persistent_update_queued)
    then obtain us ds where u: "entry_for Update n (r_value_len (fk_heap s a)) us" "entry_for Delete a (r_value_len (fk_heap s a)) ds"
      "queued (us @ ds) s2 s3" "cache_shrinks {key} s2 s3"
      using True same(4) by (auto simp: s3)
    have "put_queue key s (us @ ds)" using u(1,2) a n by (auto simp: put_queue_def)
    moreover have "queued (us @ ds) s s3" using queued_trans[OF q2 u(3)] by simp
    moreover have "cache_shrinks {key} s s3" using cache_shrinks_trans[OF c2 u(4)] by simp
    ultimately show ?thesis using True a by auto
  next
    case False
    have "put_queue key s []" by (auto simp: put_queue_def entry_for_def)
    with False q2 c2 same show ?thesis by (auto simp: s3)
  qed
  with put_effect_same_core[OF p2 c] fr show "stored key r s s3" by (simp add: stored_def)
qed

lemma update_record_result:
  assumes inv: "store_inv (e_rec_struct env) s" and a: "fk_hash_table s key = Some a"
    and b: "length value < U64_LIM" "t < U64_LIM" "ttl < U64_LIM"
  shows "\<exists>s'. update_record_with_ttl env a value t ttl s = (s', Ok False) \<and> store_inv (e_rec_struct env) s' \<and>
    stored key (make_record (0 < ttl \<and> fk_enable_ttl s) key value t ttl) s s'"
proof -
  let ?rs = "e_rec_struct env" and ?r = "make_record (0 < ttl \<and> fk_enable_ttl s) key value t ttl"
  have key: "r_key (fk_heap s a) = key" using inv_indexed[OF inv a] by (simp add: record_indexed_def)
  obtain s1 n where new: "new_record ?r s = (s1, n)" by fastforce
  have ht: "fk_hash_table s1 key = Some a" using new a by (auto simp: new_record_def)
  define s2 where "s2 = update_memory_usage (calculate_size ?rs ?r) (calculate_size ?rs (fk_heap s a)) (index_put key n s1)"
  define s3 where "s3 = (if fk_persistency s2 then persistent_update env n a key (r_value_len (fk_heap s a)) s2 else s2)"
  have "update_record_with_ttl env a value t ttl s = (s3, Ok False)"
    using new ht by (simp add: update_record_with_ttl_def key s2_def s3_def Let_def calculate_size_of)
  with replace_result[OF inv a _ new s2_def s3_def] b show ?thesis by (simp add: make_record_fresh)
qed

text \<open>The abstract insert. \<open>room\<close> is whether the memory limit admits a new record.\<close>

definition spec_expiry :: "bool \<Rightarrow> nat \<Rightarrow> nat \<Rightarrow> nat res" where
  "spec_expiry ttl_on t ttl_seconds =
     (if 0 < ttl_seconds \<and> ttl_on
      then if t + ttl_seconds * SECOND < U64_LIM then Ok (t + ttl_seconds * SECOND) else Panic
      else Ok 0)"

definition spec_insert :: "bool \<Rightarrow> bool \<Rightarrow> bytes \<Rightarrow> bytes \<Rightarrow> nat \<Rightarrow> nat \<Rightarrow> (bytes \<rightharpoonup> kv_entry) \<Rightarrow>
    (bytes \<rightharpoonup> kv_entry) \<times> bool res" where
  "spec_insert ttl_on room key value t ttl_seconds A =
     (if key = [] \<or> 102400 < length key then (A, Err InvalidKeySize)
      else if value = [] \<or> 4194304 < length value then (A, Err InvalidValueSize)
      else case A key of
        Some (v0, t0, e0) \<Rightarrow>
          if t < t0 then (A, Err OlderTimestamp)
          else (case spec_expiry ttl_on t ttl_seconds of
                  Ok e \<Rightarrow> (A(key \<mapsto> (value, t, e)), Ok False) | _ \<Rightarrow> (A, Panic))
      | None \<Rightarrow>
          if \<not> room then (A, Err OutOfMemory)
          else (case spec_expiry ttl_on t ttl_seconds of
                  Ok e \<Rightarrow> (A(key \<mapsto> (value, t, e)), Ok True) | _ \<Rightarrow> (A, Panic)))"

definition memory_room :: "nat \<Rightarrow> bytes \<Rightarrow> bytes \<Rightarrow> fun_kv \<Rightarrow> bool" where
  "memory_room rs key value s \<longleftrightarrow>
     (case fk_max_memory s of None \<Rightarrow> True | Some limit \<Rightarrow> st_memory_usage (fk_stats s) + calculate_record_size rs (length key) (length value) \<le> limit)"

lemma check_memory_room:
  assumes "st_memory_usage (fk_stats s) + calculate_record_size rs (length key) (length value) < U64_LIM"
  shows "check_memory_limit (calculate_record_size rs (length key) (length value)) s = Ok (memory_room rs key value s)"
  using assms by (simp add: check_memory_limit_def memory_room_def split: option.split)

lemma expiry_spec:
  "(if 0 < ttl \<and> on then or_panic (expiry_at t ttl) else Ok 0) = spec_expiry on t ttl"
  by (auto simp: spec_expiry_def expiry_at_def checked_defs split: option.splits)

lemma spec_expiry_bound: "spec_expiry on t ttl = Ok e \<Longrightarrow> e < U64_LIM \<and> (0 < e \<longrightarrow> 0 < ttl \<and> on)"
  by (auto simp: spec_expiry_def split: if_splits)

lemma insert_new_result:
  assumes inv: "store_inv rs s" and none: "fk_hash_table s key = None" and k: "validate_key key = Ok ()"
    and r: "r_key r = key" "record_wf r" "0 < r_refcount r" and p: "put_effect key r s s'"
    and c: "st_record_count (fk_stats s') = wrapping_add32 (st_record_count (fk_stats s)) 1"
    and m: "st_memory_usage (fk_stats s') = wrapping_add (st_memory_usage (fk_stats s)) (calculate_size rs r)"
  shows "store_inv rs s'"
  by (rule put_effect_inv[OF p inv r k]) (use none c m inv_mem[OF inv] in \<open>simp_all add: wrapping_mod\<close>)

lemma spec_expiry_no_Err [simp]: "spec_expiry on t ttl \<noteq> Err e"
  by (simp add: spec_expiry_def)

text \<open>\<open>insert_internal\<close> on valid arguments, for a present and for an absent key.\<close>

lemma insert_existing_result:
  assumes inv: "store_inv (e_rec_struct env) s" and t: "timestamp_or_now env ts < U64_LIM"
    and valid: "validate_key_value key value = Ok ()" and v: "length value < U64_LIM" and a: "fk_hash_table s key = Some a"
    and run: "insert_internal env key value ts ttl s = (s', r)"
  shows "store_inv (e_rec_struct env) s' \<and> (kv_abs m s', r) =
    (if timestamp_or_now env ts < r_timestamp (fk_heap s a) then (kv_abs m s, Err OlderTimestamp)
     else (case spec_expiry (fk_enable_ttl s) (timestamp_or_now env ts) ttl of
             Ok e \<Rightarrow> ((kv_abs m s)(key \<mapsto> (value, timestamp_or_now env ts, e)), Ok False) | _ \<Rightarrow> (kv_abs m s, Panic))) \<and>
    (s' = s \<or> (\<exists>rec. stored key rec s s'))"
proof (cases "timestamp_or_now env ts < r_timestamp (fk_heap s a) \<or>
    (\<forall>e. spec_expiry (fk_enable_ttl s) (timestamp_or_now env ts) ttl \<noteq> Ok e)")
  case True
  with run inv valid a show ?thesis
    by (cases "spec_expiry (fk_enable_ttl s) (timestamp_or_now env ts) ttl")
      (auto simp: insert_internal_def Let_def expiry_spec split: if_splits)
next
  case False
  let ?t = "timestamp_or_now env ts"
  from False obtain e where e: "spec_expiry (fk_enable_ttl s) ?t ttl = Ok e" by auto
  note eb = spec_expiry_bound[OF e]
  obtain s1 where u: "update_record_with_ttl env a value ?t e s = (s1, Ok False)" "store_inv (e_rec_struct env) s1"
    "stored key (make_record (0 < e \<and> fk_enable_ttl s) key value ?t e) s s1"
    using update_record_result[OF inv a v t, of e] eb by blast
  have "s' = s1" "r = Ok False"
    using run valid a False e u(1) by (simp_all add: insert_internal_def Let_def expiry_spec)
  moreover have "(if 0 < e \<and> fk_enable_ttl s then e else 0) = e" using eb by auto
  ultimately show ?thesis using u(2,3) put_effect_abs[OF storedD(1)[OF u(3)] inv, of m] e False
    by (auto simp: entry_of_make)
qed

text \<open>A record for an absent key: stored, counted and queued.\<close>

lemma fresh_stored:
  assumes p: "put_effect key r s s3" and fr: "fresh_record key r" and none: "fk_hash_table s key = None"
    and same: "fk_write_buffer s3 = fk_write_buffer s" "fk_cache s3 = fk_cache s"
      "st_cache_memory (fk_stats s3) = st_cache_memory (fk_stats s)"
    and s': "s' = (if fk_persistency s3 then buffer_write env Insert (fk_next s) 0 s3 else s3)"
  shows "stored key r s s'" "same_core s3 s'"
proof -
  show c: "same_core s3 s'" by (simp add: s' same_core_buffer_write)
  have pers: "fk_persistency s3 = fk_persistency s" using p by (simp add: put_effect_def)
  have q: "queued [] s s3" and cs: "cache_shrinks {} s s3" by (simp_all add: queued_refl cache_shrinks_same same)
  have "(\<exists>es. put_queue key s es \<and> (\<not> fk_persistency s \<longrightarrow> es = []) \<and> queued es s s') \<and> cache_shrinks {} s s'" if w: "wired s"
  proof (cases "fk_persistency s")
    case True
    have "shards_ok s3" using w q by (simp add: wired_def queued_def)
    then obtain es where es: "entry_for Insert (fk_next s) 0 es" "queued es s3 s'" "cache_shrinks {} s3 s'"
      using buffer_write_queued[of s3 Insert "fk_next s" 0 env] True pers by (auto simp: s')
    have "put_queue key s es" using es(1) by (auto simp: put_queue_def)
    with es queued_trans[OF q es(2)] cache_shrinks_trans[OF cs es(3)] True show ?thesis by auto
  next
    case False
    have "put_queue key s []" by (auto simp: put_queue_def entry_for_def)
    with False q cs pers show ?thesis by (auto simp: s')
  qed
  with put_effect_same_core[OF p c] fr none show "stored key r s s'" by (simp add: stored_def)
qed

lemma insert_fresh_state:
  assumes inv: "store_inv (e_rec_struct env) s" and b: "length value < U64_LIM" "t < U64_LIM" "e < U64_LIM"
    and k: "validate_key key = Ok ()" and none: "fk_hash_table s key = None" and c1: "same_core s s1"
    and new: "new_record (make_record on key value t e) s1 = (s2, a)"
    and s3: "s3 = upd_stats (\<lambda>st. record_insert (e_latency env) False
          (st\<lparr>st_record_count := wrapping_add32 (st_record_count st) 1,
              st_memory_usage := wrapping_add (st_memory_usage st) (calculate_record_size (e_rec_struct env) (length key) (length value))\<rparr>))
          (index_put key a s2)"
  shows "store_inv (e_rec_struct env) s3" "put_effect key (make_record on key value t e) s s3"
proof -
  note pe = put_effect_new[OF new, of key]
  show p3: "put_effect key (make_record on key value t e) s s3"
    using pe c1 by (simp add: s3 upd_stats_def put_effect_def same_core_def)
  show "store_inv (e_rec_struct env) s3"
    by (rule insert_new_result[OF inv none k _ _ _ p3])
      (use pe c1 b in \<open>simp_all add: make_record_wf s3 upd_stats_def record_insert_def same_core_def calculate_size_of\<close>)
qed

lemma insert_fresh_result:
  assumes inv: "store_inv (e_rec_struct env) s" and t: "timestamp_or_now env ts < U64_LIM"
    and valid: "validate_key_value key value = Ok ()" and v: "length value < U64_LIM" and none: "fk_hash_table s key = None"
    and room: "st_memory_usage (fk_stats s) + calculate_record_size (e_rec_struct env) (length key) (length value) < U64_LIM"
    and run: "insert_internal env key value ts ttl s = (s', r)"
  shows "store_inv (e_rec_struct env) s' \<and> (kv_abs m s', r) =
    (if \<not> memory_room (e_rec_struct env) key value s then (kv_abs m s, Err OutOfMemory)
     else (case spec_expiry (fk_enable_ttl s) (timestamp_or_now env ts) ttl of
             Ok e \<Rightarrow> ((kv_abs m s)(key \<mapsto> (value, timestamp_or_now env ts, e)), Ok True) | _ \<Rightarrow> (kv_abs m s, Panic))) \<and>
    (s' = s \<or> (\<exists>rec. stored key rec s s'))"
proof (cases "memory_room (e_rec_struct env) key value s \<and> (\<exists>e. spec_expiry (fk_enable_ttl s) (timestamp_or_now env ts) ttl = Ok e)")
  case False
  with run inv valid none check_memory_room[OF room] show ?thesis
    by (cases "spec_expiry (fk_enable_ttl s) (timestamp_or_now env ts) ttl")
      (auto simp: insert_internal_def Let_def expiry_spec)
next
  case good: True
  let ?t = "timestamp_or_now env ts" and ?on = "0 < ttl \<and> fk_enable_ttl s" and ?rs = "e_rec_struct env"
  have k: "validate_key key = Ok ()" using valid by (auto simp: validate_key_value_def elim: bind_outcome_OkD)
  from good obtain e where e: "spec_expiry (fk_enable_ttl s) ?t ttl = Ok e" by blast
  define s1 where "s1 = (if ?on then upd_stats (\<lambda>st. st\<lparr>st_keys_with_ttl := wrapping_add (st_keys_with_ttl st) 1\<rparr>) s else s)"
  have c1: "same_core s s1" by (simp add: s1_def same_core_upd_stats)
  obtain s2 a where new: "new_record (make_record ?on key value ?t e) s1 = (s2, a)" by fastforce
  define s3 where "s3 = upd_stats (\<lambda>st. record_insert (e_latency env) False
    (st\<lparr>st_record_count := wrapping_add32 (st_record_count st) 1,
        st_memory_usage := wrapping_add (st_memory_usage st) (calculate_record_size ?rs (length key) (length value))\<rparr>))
    (index_put key a s2)"
  note F = insert_fresh_state[OF inv v t _ k none c1 new s3_def, unfolded atomize_conj, OF spec_expiry_bound[OF e, THEN conjunct1]]
  have run3: "s' = (if fk_persistency s3 then buffer_write env Insert a 0 s3 else s3)" "r = Ok True"
    using run valid none good e check_memory_room[OF room] new
    by (auto simp: insert_internal_def Let_def expiry_spec s1_def [symmetric] s3_def)
  have a: "a = fk_next s" using new by (auto simp: new_record_def s1_def upd_stats_def)
  have same: "fk_write_buffer s3 = fk_write_buffer s" "fk_cache s3 = fk_cache s"
    "st_cache_memory (fk_stats s3) = st_cache_memory (fk_stats s)"
    using new by (auto simp: s3_def s1_def upd_stats_def index_put_def new_record_def record_insert_def)
  have fr: "fresh_record key (make_record ?on key value ?t e)"
    using make_record_fresh[OF v t] spec_expiry_bound[OF e] by blast
  note S = fresh_stored[OF F(2) fr none same run3(1)[unfolded a]]
  have "(if ?on then e else 0) = e" using spec_expiry_bound[OF e] by auto
  with F same_core_inv[OF S(2)] put_effect_abs[OF storedD(1)[OF S(1)] inv, of m] e good run3(2) S(1) show ?thesis
    by (auto simp: entry_of_make)
qed

text \<open>\<open>insert_internal\<close> is the abstract insert and keeps the invariant.\<close>

lemma insert_internal_result:
  assumes inv: "store_inv (e_rec_struct env) s" and now: "e_now env < U64_LIM" "\<And>t. ts = Some t \<Longrightarrow> t < U64_LIM"
    and room: "st_memory_usage (fk_stats s) + calculate_record_size (e_rec_struct env) (length key) (length value) < U64_LIM"
    and run: "insert_internal env key value ts ttl s = (s', r)"
  shows "store_inv (e_rec_struct env) s' \<and>
    (kv_abs m s', r) = spec_insert (fk_enable_ttl s) (memory_room (e_rec_struct env) key value s) key value
       (timestamp_or_now env ts) ttl (kv_abs m s) \<and>
    (s' = s \<or> (\<exists>rec. stored key rec s s'))"
proof (cases "validate_key_value key value = Ok ()")
  case False
  with run inv show ?thesis
    by (auto simp: insert_internal_def validate_key_value_def validate_key_def spec_insert_def kv_const split: if_splits)
next
  case True
  have t: "timestamp_or_now env ts < U64_LIM" using now by (auto simp: timestamp_or_now_def split: option.split)
  from True have sz: "key \<noteq> []" "length key \<le> 102400" "value \<noteq> []" "length value \<le> 4194304"
    by (auto simp: validate_key_value_def validate_key_def kv_const split: if_splits)
  then have v: "length value < U64_LIM" by (simp add: U64_LIM_def)
  show ?thesis
  proof (cases "fk_hash_table s key")
    case (Some a)
    then have "kv_abs m s key = Some (value_of m (fk_heap s a), r_timestamp (fk_heap s a), r_ttl_expiry (fk_heap s a))"
      by (rule kv_abs_Some)
    with insert_existing_result[OF inv t True v Some run, of m] sz show ?thesis by (simp add: spec_insert_def)
  next
    case None
    with insert_fresh_result[OF inv t True v None room run, of m] sz kv_abs_None[OF None] show ?thesis
      by (simp add: spec_insert_def)
  qed
qed

section \<open>Delete and expiry\<close>

definition spec_delete :: "bytes \<Rightarrow> nat \<Rightarrow> (bytes \<rightharpoonup> kv_entry) \<Rightarrow> (bytes \<rightharpoonup> kv_entry) \<times> unit res" where
  "spec_delete key t A =
     (if key = [] \<or> 102400 < length key then (A, Err InvalidKeySize)
      else case A key of
             None \<Rightarrow> (A, Err KeyNotFound)
           | Some (v0, t0, e0) \<Rightarrow> if t < t0 then (A, Err OlderTimestamp) else (A(key := None), Ok ()))"

text \<open>Different keys have different records.\<close>

lemma indexed_distinct:
  "store_inv rs s \<Longrightarrow> fk_hash_table s k = Some a \<Longrightarrow> fk_hash_table s k' = Some a \<Longrightarrow> k = k'"
  using inv_indexed[of rs s k a] inv_indexed[of rs s k' a] by (simp add: record_indexed_def)

lemma remove_effect:
  assumes inv: "store_inv rs s" and a: "fk_hash_table s key = Some a"
    and s': "fk_heap s' = (fk_heap s)(a := r)" "fk_next s' = fk_next s" "fk_hash_table s' = (fk_hash_table s)(key := None)"
      "fk_tree s' = om_remove key (fk_tree s)"
    and cnt: "st_record_count (fk_stats s') = wrapping_sub32 (st_record_count (fk_stats s)) 1"
    and mem: "st_memory_usage (fk_stats s') = wrapping_sub (st_memory_usage (fk_stats s)) (rec_bytes rs s a)"
  shows "store_inv rs s'" "kv_abs m s' = (kv_abs m s)(key := None)"
proof -
  have I: "om_inv (fk_tree s)" "om_get (fk_tree s) = fk_hash_table s" using inv by (auto simp: store_inv_def)
  have other: "fk_heap s' b = fk_heap s b" if "fk_hash_table s' k = Some b" for k b
  proof -
    have "fk_hash_table s k = Some b" "k \<noteq> key" using that s'(3) by (auto split: if_splits)
    with indexed_distinct[OF inv a, of k] have "b \<noteq> a" by blast
    then show ?thesis by (simp add: s'(1))
  qed
  have get: "om_get (fk_tree s) key = Some a" using I(2) a by simp
  have ge: "rec_bytes rs s a \<le> om_sum (rec_bytes rs s) (fk_tree s)" by (rule inv_rec_le[OF inv a])
  have "om_sum (rec_bytes rs s') (fk_tree s') = om_sum (rec_bytes rs s) (fk_tree s')"
  proof (rule om_sum_cong)
    fix k b assume "om_get (fk_tree s') k = Some b"
    then have "fk_hash_table s' k = Some b" using s'(3,4) I(2) by simp
    then show "rec_bytes rs s' b = rec_bytes rs s b" by (simp add: rec_bytes_def other)
  qed (use I(1) s'(4) in simp)
  then have sum: "om_sum (rec_bytes rs s) (fk_tree s) - rec_bytes rs s a = om_sum (rec_bytes rs s') (fk_tree s')"
    using om_sum_remove[OF I(1) get, of "rec_bytes rs s"] s'(4) by simp
  have len: "length (fk_tree s) = Suc (length (fk_tree s'))" using om_len_remove[OF I(1) get] s'(4) by simp
  have idx: "record_indexed s' k b" if "fk_hash_table s' k = Some b" for k b
    using that inv_indexed[OF inv, of k b] other[OF that] s'(2,3) by (auto simp: record_indexed_def split: if_splits)
  have "st_record_count (fk_stats s') = length (fk_tree s') mod 2 ^ 32"
    using wrapping_mod(4)[of 1 "length (fk_tree s)"] cnt inv len by (simp add: store_inv_def)
  moreover have "st_memory_usage (fk_stats s') = om_sum (rec_bytes rs s') (fk_tree s') mod U64_LIM"
    using wrapping_mod(2)[OF ge] mem inv_mem[OF inv] sum by simp
  ultimately show "store_inv rs s'" using I idx s'(3,4) by (simp add: store_inv_def)
  show "kv_abs m s' = (kv_abs m s)(key := None)"
  proof (rule ext)
    fix k
    show "kv_abs m s' k = ((kv_abs m s)(key := None)) k"
      using s'(3) other[of k] by (cases "fk_hash_table s k") (auto simp: kv_abs_def)
  qed
qed

definition removed :: "bytes \<Rightarrow> addr \<Rightarrow> fun_kv \<Rightarrow> fun_kv \<Rightarrow> bool" where
  "removed key a s s' \<longleftrightarrow> fk_hash_table s key = Some a \<and>
     fk_heap s' = (fk_heap s)(a := (fk_heap s a)\<lparr>r_refcount := 0\<rparr>) \<and> fk_next s' = fk_next s \<and>
     fk_hash_table s' = (fk_hash_table s)(key := None) \<and> fk_free_space s' = fk_free_space s \<and>
     fk_persistency s' = fk_persistency s \<and> fk_disk_io s' = fk_disk_io s \<and> fk_enable_caching s' = fk_enable_caching s \<and>
     fk_enable_ttl s' = fk_enable_ttl s \<and>
     (wired s \<longrightarrow> (\<exists>es. entry_for Delete a (r_value_len (fk_heap s a)) es \<and> (\<not> fk_persistency s \<longrightarrow> es = []) \<and> queued es s s') \<and>
        cache_shrinks {key} s s')"

lemma delete_result:
  assumes inv: "store_inv (e_rec_struct env) s" and run: "delete_with_timestamp env key ts s = (s', r)"
  shows "store_inv (e_rec_struct env) s' \<and> (kv_abs m s', r) = spec_delete key (timestamp_or_now env ts) (kv_abs m s) \<and>
    (s' = s \<or> (\<exists>a. removed key a s s'))"
proof (cases "validate_key key = Ok () \<and> (\<exists>a. fk_hash_table s key = Some a)")
  case False
  with run inv show ?thesis
    by (auto simp: delete_with_timestamp_def spec_delete_def validate_key_def kv_const kv_abs_None Let_def split: if_splits)
next
  case True
  then obtain a where a: "fk_hash_table s key = Some a" and k: "validate_key key = Ok ()" by blast
  note A = kv_abs_Some[OF a, of m]
  have key: "key \<noteq> []" "length key \<le> 102400" using k by (auto simp: validate_key_def kv_const split: if_splits)
  show ?thesis
  proof (cases "timestamp_or_now env ts < r_timestamp (fk_heap s a)")
    case True
    have "(fk_hash_table s)(key \<mapsto> a) = fk_hash_table s" using a by auto
    with True run a k A key inv show ?thesis by (auto simp: delete_with_timestamp_def spec_delete_def Let_def)
  next
    case False
    define s3 where "s3 = upd_stats (\<lambda>st. st\<lparr>st_record_count := wrapping_sub32 (st_record_count st) 1,
        st_memory_usage := wrapping_sub (st_memory_usage st) (calculate_size (e_rec_struct env) (fk_heap s a))\<rparr>)
      (s\<lparr>fk_hash_table := (fk_hash_table s)(key := None), fk_heap := (fk_heap s)(a := (fk_heap s a)\<lparr>r_refcount := 0\<rparr>),
         fk_tree := om_remove key (fk_tree s)\<rparr>)"
    define s4 where "s4 = cache_forget key s3"
    define s5 where "s5 = (if fk_persistency s4 then buffer_write env Delete a (r_value_len (fk_heap s a)) s4 else s4)"
    have run': "s' = upd_stats (record_delete (e_latency env)) s5" "r = Ok ()"
      using run a k False by (auto simp: delete_with_timestamp_def Let_def s3_def s4_def s5_def)
    have "same_core s3 s4" by (simp add: s4_def same_core_cache_forget)
    moreover have "same_core s4 s5" by (simp add: s5_def same_core_buffer_write)
    moreover have "same_core s5 s'" by (simp add: run'(1) same_core_upd_stats)
    ultimately have c: "same_core s3 s'" by (blast intro: same_core_trans)
    have "store_inv (e_rec_struct env) s3" "kv_abs m s3 = (kv_abs m s)(key := None)"
      by (rule remove_effect[OF inv a]; simp add: s3_def upd_stats_def rec_bytes_def)+
    moreover have "removed key a s s'"
    proof -
      have q3: "queued [] s s3" "cache_shrinks {} s s3"
        by (simp_all add: queued_refl cache_shrinks_same s3_def upd_stats_def)
      have "(\<exists>es. entry_for Delete a (r_value_len (fk_heap s a)) es \<and> (\<not> fk_persistency s \<longrightarrow> es = []) \<and> queued es s s5) \<and>
          cache_shrinks {key} s s5" if w: "wired s"
      proof -
        have c4: "cache_shrinks {key} s3 s4" unfolding s4_def
          by (rule cache_shrinks_forget) (use w in \<open>simp add: wired_def s3_def upd_stats_def\<close>)
        have q4: "queued [] s3 s4" unfolding s4_def by (rule cache_forget_queued)
        have p4: "fk_persistency s4 = fk_persistency s"
          using same_core_cache_forget[of s3 key] by (simp add: same_core_def s4_def s3_def upd_stats_def)
        have "shards_ok s4" using w q3 q4 by (simp add: wired_def queued_def)
        then obtain es where "entry_for Delete a (r_value_len (fk_heap s a)) es" "\<not> fk_persistency s \<longrightarrow> es = []"
          "queued es s4 s5" "cache_shrinks {} s4 s5"
          using buffer_write_queued[of s4 Delete a "r_value_len (fk_heap s a)" env] p4
          by (cases "fk_persistency s") (auto simp: s5_def entry_for_def queued_refl cache_shrinks_same)
        with queued_trans[OF q3(1) queued_trans[OF q4, of es s5]]
          cache_shrinks_trans[OF q3(2) cache_shrinks_trans[OF c4, of "{}" s5]] show ?thesis by auto
      qed
      moreover have "queued [] s5 s'" "cache_shrinks {} s5 s'"
        by (simp_all add: queued_refl cache_shrinks_same run'(1) upd_stats_def record_delete_def)
      ultimately have "(\<exists>es. entry_for Delete a (r_value_len (fk_heap s a)) es \<and> (\<not> fk_persistency s \<longrightarrow> es = []) \<and> queued es s s') \<and>
          cache_shrinks {key} s s'" if "wired s"
        using that queued_trans[of _ s s5 "[]" s'] cache_shrinks_trans[of "{key}" s s5 "{}" s'] by fastforce
      then show ?thesis using c a by (simp add: removed_def same_core_def s3_def upd_stats_def)
    qed
    ultimately show ?thesis
      using same_core_inv[OF c] same_core_abs[OF c, of m] run'(2) A key False by (auto simp: spec_delete_def)
  qed
qed

definition spec_update_ttl :: "bool \<Rightarrow> nat \<Rightarrow> bytes \<Rightarrow> nat \<Rightarrow> (bytes \<rightharpoonup> kv_entry) \<Rightarrow> (bytes \<rightharpoonup> kv_entry) \<times> unit res" where
  "spec_update_ttl ttl_on now key ttl_seconds A =
     (if \<not> ttl_on then (A, Err TtlNotEnabled)
      else if key = [] \<or> 102400 < length key then (A, Err InvalidKeySize)
      else case A key of
             None \<Rightarrow> (A, Err KeyNotFound)
           | Some (v, t, e) \<Rightarrow>
               (case spec_expiry True now ttl_seconds of
                  Ok e' \<Rightarrow> (A(key \<mapsto> (v, t, e')), Ok ()) | _ \<Rightarrow> (A, Panic)))"

lemma value_of_retimed [simp]: "value_of m (r\<lparr>r_ttl_expiry := e\<rparr>) = value_of m r"
  by (simp add: value_of_def value_at_def split: option.split)

lemma retime_effect:
  assumes inv: "store_inv rs s" and a: "fk_hash_table s key = Some a" and e: "e < U64_LIM"
    and s': "s' = s\<lparr>fk_heap := (fk_heap s)(a := (fk_heap s a)\<lparr>r_ttl_expiry := e\<rparr>)\<rparr>"
  shows "store_inv rs s'"
    "kv_abs m s' = (kv_abs m s)(key \<mapsto> (value_of m (fk_heap s a), r_timestamp (fk_heap s a), e))"
proof -
  have "rec_bytes rs s' = rec_bytes rs s" by (rule ext) (simp add: s' rec_bytes_def calculate_size_def)
  moreover have "record_indexed s' k b" if "fk_hash_table s k = Some b" for k b
    using inv_indexed[OF inv that] e by (auto simp: s' record_indexed_def record_wf_def)
  ultimately show "store_inv rs s'" using inv by (simp add: store_inv_def s')
  show "kv_abs m s' = (kv_abs m s)(key \<mapsto> (value_of m (fk_heap s a), r_timestamp (fk_heap s a), e))"
  proof (rule ext)
    fix k
    have "b \<noteq> a" if "fk_hash_table s k = Some b" "k \<noteq> key" for b using indexed_distinct[OF inv a, of k] that by blast
    then show "kv_abs m s' k = ((kv_abs m s)(key \<mapsto> (value_of m (fk_heap s a), r_timestamp (fk_heap s a), e))) k"
      using a by (cases "fk_hash_table s k") (auto simp: s' kv_abs_def entry_of_def)
  qed
qed

lemma update_ttl_result:
  assumes inv: "store_inv rs s" and run: "update_ttl env key ttl s = (s', r)"
  shows "store_inv rs s' \<and> (kv_abs m s', r) = spec_update_ttl (fk_enable_ttl s) (e_now env) key ttl (kv_abs m s) \<and>
    (s' = s \<or> (\<exists>a e. e < U64_LIM \<and> fk_hash_table s key = Some a \<and>
       s' = s\<lparr>fk_heap := (fk_heap s)(a := (fk_heap s a)\<lparr>r_ttl_expiry := e\<rparr>)\<rparr>))"
proof (cases "fk_enable_ttl s \<and> validate_key key = Ok () \<and> (\<exists>a. fk_hash_table s key = Some a)")
  case False
  with run inv show ?thesis
    by (auto simp: update_ttl_def spec_update_ttl_def validate_key_def kv_const kv_abs_None split: if_splits)
next
  case True
  then obtain a where a: "fk_hash_table s key = Some a" and on: "fk_enable_ttl s" and k: "validate_key key = Ok ()" by blast
  have key: "key \<noteq> []" "length key \<le> 102400" using k by (auto simp: validate_key_def kv_const split: if_splits)
  have x: "(if 0 < ttl then or_panic (expiry_at (e_now env) ttl) else Ok 0) = spec_expiry True (e_now env) ttl"
    using expiry_spec[of ttl True] by simp
  show ?thesis
  proof (cases "spec_expiry True (e_now env) ttl")
    case (Ok e)
    have e: "s' = s\<lparr>fk_heap := (fk_heap s)(a := (fk_heap s a)\<lparr>r_ttl_expiry := e\<rparr>)\<rparr>" "r = Ok ()"
      using run a on k x Ok by (auto simp: update_ttl_def)
    have "e < U64_LIM" using spec_expiry_bound[OF Ok] by simp
    with e retime_effect(1)[OF inv a _ e(1)] retime_effect(2)[OF inv a _ e(1), of m] Ok on key kv_abs_Some[OF a, of m] show ?thesis
      using a by (auto simp: spec_update_ttl_def)
  next
    case Panic
    with run a on k x key kv_abs_Some[OF a, of m] inv show ?thesis
      by (auto simp: update_ttl_def spec_update_ttl_def)
  qed simp
qed

end
