(* ===== verification/Store_Reads.thy ===== *)
theory Store_Reads
  imports Store_Spec
begin

text \<open>
  The reading operations of the store: values from memory or from the device, \<open>get\<close> with and without
  the cache, range queries, and the increments, which read a value before they write.
\<close>

section \<open>Values from the device\<close>

text \<open>The errors a transfer can end with.\<close>

fun device_error :: "db_error \<Rightarrow> bool" where
  "device_error AllocationFailed = True"
| "device_error (IoError _) = True"
| "device_error _ = False"

lemma do_pread_error: "do_pread os sz off w = (w', Err e) \<Longrightarrow> device_error e"
  by (auto simp: do_pread_def split: sum.splits prod.splits if_splits)

lemma io_buffer_error:
  assumes "io_buffer os sz = Err e"
  shows "device_error e"
proof (cases "aligned_capacity sz")
  case (Some cap)
  then show ?thesis
    using assms by (cases "sys_memalign (os_mem os) BLOCK_SIZE cap")
      (auto simp: io_buffer_def buffer_new_def allocate_aligned_def buffer_set_len_def split: if_splits)
qed (use assms in \<open>simp add: io_buffer_def buffer_new_def\<close>)

lemma read_sectors_error:
  assumes "read_sectors_sync os d sector cnt w = (w', Err e)"
  shows "device_error e"
proof (cases "cnt * BLOCK_SIZE < U64_LIM \<and> sector * BLOCK_SIZE < U64_LIM")
  case True
  then show ?thesis
    using assms by (cases "io_buffer os (cnt * BLOCK_SIZE)")
      (auto simp: read_sectors_sync_def dest: do_pread_error io_buffer_error split: if_splits)
next
  case False
  with assms show ?thesis by (cases "cnt * BLOCK_SIZE < U64_LIM") (auto simp: read_sectors_sync_def)
qed

text \<open>A record whose value can be found: in memory, or in sectors of the open device.\<close>

definition readable :: "fun_kv \<Rightarrow> kv_record \<Rightarrow> bool" where
  "readable s r \<longleftrightarrow> (r_value r = None \<longrightarrow> fk_persistency s \<and> fk_disk_io s \<noteq> None \<and> r_sector r \<noteq> 0 \<and>
     (r_sector r + rec_sectors r) * BLOCK_SIZE < 2 ^ 63)"

definition values_ok :: "fun_kv \<Rightarrow> bool" where
  "values_ok s \<longleftrightarrow> (\<forall>k a. fk_hash_table s k = Some a \<longrightarrow> readable s (fk_heap s a))"

context block_device
begin

lemma read_sectors_no_panic:
  assumes "(sector + cnt) * BLOCK_SIZE < 2 ^ 63"
  shows "snd (read_sectors_sync os d sector cnt w) \<noteq> Panic"
proof -
  have b: "cnt * BLOCK_SIZE < 2 ^ 63" "sector * BLOCK_SIZE < 2 ^ 63" using assms by (simp_all add: add_mult_distrib)
  then have l: "cnt * BLOCK_SIZE < U64_LIM" "sector * BLOCK_SIZE < U64_LIM" "cnt * BLOCK_SIZE + BLOCK_SIZE < U64_LIM"
    by (simp_all add: U64_LIM_def kv_const)
  have p: "snd (do_pread os (cnt * BLOCK_SIZE) (sector * BLOCK_SIZE) w) \<noteq> Panic"
    using do_pread_result(4)[OF _ b(2)] by (metis prod.collapse)
  show ?thesis
    using l p io_buffer_no_panic[OF l(3), of os]
    by (cases "io_buffer os (cnt * BLOCK_SIZE)") (auto simp: read_sectors_sync_def)
qed

text \<open>A successful load returns the logical value of the record; a failing one is a device error.\<close>

lemma load_value_result:
  assumes "load_value_from_disk env r s w = (w', res)" "e_os env = os" "readable s r" "r_value r = None"
  shows "media w' = media w" "quiet w' = quiet w"
    "(\<exists>e. res = Err e \<and> device_error e) \<or> res = Ok (value_of (media w) r)"
proof -
  from assms(3,4) obtain d where d: "fk_disk_io s = Some d" "fk_persistency s" "r_sector r \<noteq> 0"
    and lim: "(r_sector r + rec_sectors r) * BLOCK_SIZE < 2 ^ 63" by (auto simp: readable_def)
  obtain w1 q where rd: "read_sectors_sync os d (r_sector r) (rec_sectors r) w = (w1, q)" by fastforce
  have off: "r_sector r * BLOCK_SIZE < 2 ^ 63" using lim by (simp add: add_mult_distrib)
  note R = read_sectors_result[OF rd off]
  have run: "try_bind (w1, q) (\<lambda>data w.
      if length data < record_header_size (length (r_key r)) + r_value_len r then (w, Err InvalidRecord)
      else (w, Ok (byte_slice (record_header_size (length (r_key r)))
        (record_header_size (length (r_key r)) + r_value_len r) data))) = (w', res)"
    using assms(1,2) d rd by (simp add: load_value_from_disk_def rec_sectors_def Let_def)
  then have w1: "w1 = w'" by (cases q) (auto split: if_splits)
  with R show "media w' = media w" "quiet w' = quiet w" by auto
  show "(\<exists>e. res = Err e \<and> device_error e) \<or> res = Ok (value_of (media w) r)"
  proof (cases q)
    case (Ok data)
    have data: "data = fetch (r_sector r * BLOCK_SIZE) (rec_sectors r * BLOCK_SIZE) (media w)" using R(3)[OF Ok] .
    have le: "record_header_size (length (r_key r)) + r_value_len r \<le> rec_sectors r * BLOCK_SIZE" by (rule value_in_extent)
    have "byte_slice (record_header_size (length (r_key r))) (record_header_size (length (r_key r)) + r_value_len r) data
        = value_at (media w) r"
      using le by (intro nth_equalityI) (simp_all add: data value_at_def byte_slice_def fetch_def ac_simps)
    with run Ok le data assms(4) show ?thesis by (auto simp: value_of_def split: if_splits)
  next
    case (Err e)
    with run read_sectors_error[of os d "r_sector r" "rec_sectors r" w w1 e] rd show ?thesis by auto
  next
    case Panic
    with rd read_sectors_no_panic[OF lim, of d w] show ?thesis by simp
  qed
qed

lemma fetch_value_result:
  assumes "fetch_value env r s w = (w', res)" "e_os env = os" "readable s r"
  shows "media w' = media w" "quiet w' = quiet w"
    "(\<exists>e. r_value r = None \<and> res = Err e \<and> device_error e) \<or> res = Ok (value_of (media w) r, r_value r \<noteq> None)"
proof -
  have "media w' = media w \<and> quiet w' = quiet w \<and>
    ((\<exists>e. r_value r = None \<and> res = Err e \<and> device_error e) \<or> res = Ok (value_of (media w) r, r_value r \<noteq> None))"
  proof (cases "r_value r")
    case None
    obtain w1 q where l: "load_value_from_disk env r s w = (w1, q)" by fastforce
    have "try_bind (w1, q) (\<lambda>v w. (w, Ok (v, False))) = (w', res)"
      using assms(1) None l by (simp add: fetch_value_def get_value_def)
    with load_value_result[OF l assms(2,3) None] None show ?thesis by (cases q) auto
  next
    case (Some v)
    with assms show ?thesis by (auto simp: fetch_value_def get_value_def value_of_def)
  qed
  then show "media w' = media w" "quiet w' = quiet w"
    "(\<exists>e. r_value r = None \<and> res = Err e \<and> device_error e) \<or> res = Ok (value_of (media w) r, r_value r \<noteq> None)" by auto
qed

end

section \<open>Get\<close>

definition spec_get :: "bool \<Rightarrow> nat \<Rightarrow> bytes \<Rightarrow> (bytes \<rightharpoonup> kv_entry) \<Rightarrow> bytes res" where
  "spec_get ttl_on now key A =
     (if key = [] \<or> 102400 < length key then Err InvalidKeySize
      else case A key of
             None \<Rightarrow> Err KeyNotFound
           | Some (v, t, e) \<Rightarrow> if ttl_on \<and> 0 < e \<and> e < now then Err KeyNotFound else Ok v)"

text \<open>The values of the abstract map, and a cache that agrees with them.\<close>

definition kv_values :: "(nat \<Rightarrow> byte) \<Rightarrow> fun_kv \<Rightarrow> bytes \<rightharpoonup> bytes" where
  "kv_values m s = (\<lambda>k. map_option fst (kv_abs m s k))"

definition cache_coherent :: "(nat \<Rightarrow> byte) \<Rightarrow> fun_kv \<Rightarrow> bool" where
  "cache_coherent m s \<longleftrightarrow> (case fk_cache s of None \<Rightarrow> True
     | Some c \<Rightarrow> cache_ok c (fk_stats s) \<and> cache.coherent (c, fk_stats s) (kv_values m s))"

text \<open>What \<open>get\<close> may return: the abstract answer; a cached value, expired or not; or, for a value
  that is only on the device, the error of the device.\<close>

definition get_outcome :: "(nat \<Rightarrow> byte) \<Rightarrow> nat \<Rightarrow> bytes \<Rightarrow> fun_kv \<Rightarrow> bytes res \<Rightarrow> bool" where
  "get_outcome m now key s r \<longleftrightarrow>
     r = spec_get (fk_enable_ttl s) now key (kv_abs m s) \<or>
     (\<exists>c v. fk_enable_caching s \<and> fk_cache s = Some c \<and> cache_lookup c key = Some v \<and> kv_values m s key = Some v \<and> r = Ok v) \<or>
     (\<exists>a e. fk_hash_table s key = Some a \<and> r_value (fk_heap s a) = None \<and> r = Err e \<and> device_error e)"

lemma cached_result:
  assumes "cached key s = (s', q)" "cache_coherent m s"
  shows "same_core s s'" "cache_coherent m s'" "fk_stats s' = fk_stats s"
    "q = (if fk_enable_caching s then case fk_cache s of None \<Rightarrow> None | Some c \<Rightarrow> cache_lookup c key else None)"
    "map_option cache_lookup (fk_cache s') = map_option cache_lookup (fk_cache s)"
proof -
  have "same_core s s' \<and> cache_coherent m s' \<and> fk_stats s' = fk_stats s \<and>
    (q = (if fk_enable_caching s then case fk_cache s of None \<Rightarrow> None | Some c \<Rightarrow> cache_lookup c key else None)) \<and>
    map_option cache_lookup (fk_cache s') = map_option cache_lookup (fk_cache s)"
  proof (cases "fk_enable_caching s \<and> fk_cache s \<noteq> None")
    case True
    then obtain c where c: "fk_cache s = Some c" by auto
    have ok: "cache_ok c (fk_stats s)" and coh: "cache.coherent (c, fk_stats s) (kv_values m s)"
      using assms(2) c by (simp_all add: cache_coherent_def)
    obtain c' r where g: "cache_get key c = (c', r)" by fastforce
    note G = cache_get_result[OF ok g]
    have core: "same_core s (s\<lparr>fk_cache := Some c'\<rparr>)" by (simp add: same_core_def)
    have "cache.coherent (c', fk_stats s) (kv_values m (s\<lparr>fk_cache := Some c'\<rparr>))"
      using coh G by (simp add: cache.coherent_def kv_values_def same_core_abs[OF core])
    with True c g G assms(1) core show ?thesis by (auto simp: cached_def cache_coherent_def)
  next
    case False
    with assms show ?thesis by (cases "fk_cache s") (auto simp: cached_def split: if_splits)
  qed
  then show "same_core s s'" "cache_coherent m s'" "fk_stats s' = fk_stats s"
    "q = (if fk_enable_caching s then case fk_cache s of None \<Rightarrow> None | Some c \<Rightarrow> cache_lookup c key else None)"
    "map_option cache_lookup (fk_cache s') = map_option cache_lookup (fk_cache s)" by auto
qed

lemma cache_insert_fill:
  assumes "cache_ok c st0"
  shows "\<exists>c' st. cache_insert key v c st0 = Some (Ok (c', st)) \<and> (c', st) = fill_cache key v (c, st0) \<and>
    st_record_count st = st_record_count st0 \<and> st_memory_usage st = st_memory_usage st0"
proof -
  obtain c' st where i: "cache_insert key v c st0 = Some (Ok (c', st))"
    using cache_insert_result[OF assms, of key v] cache_insert_reject[of key v c st0] by blast
  from cache_insert_counters[OF i] have "st_record_count st = st_record_count st0" "st_memory_usage st = st_memory_usage st0"
    by (auto simp: cache_counters_def)
  with i show ?thesis by (simp add: fill_cache_def)
qed

text \<open>Filling the cache always returns and keeps it coherent.\<close>

lemma cache_fill_result:
  assumes coh: "cache_coherent m s" and v: "kv_values m s key = Some v"
    and miss: "\<And>c. fk_enable_caching s \<Longrightarrow> fk_cache s = Some c \<Longrightarrow> cache_lookup c key = None"
  shows "\<exists>s'. cache_fill key v s = Some (Ok s') \<and> same_core s s' \<and> cache_coherent m s'"
proof (cases "fk_enable_caching s \<and> fk_cache s \<noteq> None")
  case True
  then obtain c where c: "fk_cache s = Some c" by auto
  have ok: "cache_ok c (fk_stats s)" and coh': "cache.coherent (c, fk_stats s) (kv_values m s)"
    using coh c by (simp_all add: cache_coherent_def)
  have "\<exists>c' st. cache_insert key v c (fk_stats s) = Some (Ok (c', st)) \<and>
      (c', st) = fill_cache key v (c, fk_stats s) \<and>
      st_record_count st = st_record_count (fk_stats s) \<and> st_memory_usage st = st_memory_usage (fk_stats s)"
    by (rule cache_insert_fill[OF ok])
  then obtain c' st where I: "cache_insert key v c (fk_stats s) = Some (Ok (c', st))"
    "(c', st) = fill_cache key v (c, fk_stats s)"
    "st_record_count st = st_record_count (fk_stats s)" "st_memory_usage st = st_memory_usage (fk_stats s)" by blast
  let ?s = "s\<lparr>fk_cache := Some c', fk_stats := st\<rparr>"
  have core: "same_core s ?s" using I by (simp add: same_core_def)
  have "cache.coherent (fill_cache key v (c, fk_stats s)) (kv_values m s)"
    by (rule cache.coherent_fill) (use ok coh' v miss[OF _ c] True in simp_all)
  moreover have "cache_ok c' st" using cache.fill_ok[of "(c, fk_stats s)" key v] ok I(2) by (metis fst_conv snd_conv)
  ultimately have "cache_coherent m ?s"
    using I(2) by (simp add: cache_coherent_def kv_values_def same_core_abs[OF core])
  with I(1) c True core show ?thesis by (auto simp: cache_fill_def)
next
  case False
  with coh show ?thesis by (cases "fk_cache s") (auto simp: cache_fill_def)
qed

text \<open>Counting does not disturb the cache.\<close>

definition keeps_cache_counter :: "(statistics \<Rightarrow> statistics) \<Rightarrow> bool" where
  "keeps_cache_counter f \<longleftrightarrow> (\<forall>st. st_cache_memory (f st) = st_cache_memory st)"

lemma keeps_cache_simps [simp]:
  "keeps_cache_counter (record_get l h)" "keeps_cache_counter (record_range_query l)"
  "keeps_cache_counter (\<lambda>st. st\<lparr>st_ttl_expired_lazy := f st\<rparr>)"
  by (simp_all add: keeps_cache_counter_def record_get_def record_range_query_def Let_def)

lemma coherent_same_core:
  assumes "same_core s s'" "fk_cache s' = fk_cache s" "st_cache_memory (fk_stats s') = st_cache_memory (fk_stats s)"
  shows "cache_coherent m s' = cache_coherent m s"
  using assms cache_ok_stats[OF assms(3)] same_core_abs[OF assms(1), of m]
  by (simp add: cache_coherent_def cache.coherent_def kv_values_def split: option.split)

lemma coherent_upd_stats:
  "keeps_index_counters f \<Longrightarrow> keeps_cache_counter f \<Longrightarrow> cache_coherent m (upd_stats f s) = cache_coherent m s"
  by (rule coherent_same_core) (simp_all add: same_core_upd_stats, simp_all add: upd_stats_def keeps_cache_counter_def)

lemma same_core_count: "same_core s t \<Longrightarrow> keeps_index_counters f \<Longrightarrow> same_core s (upd_stats f t)"
  by (erule same_core_trans) (rule same_core_upd_stats)

lemma readable_same_core: "same_core s s' \<Longrightarrow> readable s' r = readable s r"
  by (simp add: readable_def same_core_def)

lemma values_ok_same_core: "same_core s s' \<Longrightarrow> values_ok s' = values_ok s"
  by (simp add: values_ok_def readable_same_core) (simp add: same_core_def)

lemma spec_get_indexed:
  assumes "validate_key key = Ok ()" "fk_hash_table s key = Some a"
  shows "spec_get ttl_on now key (kv_abs m s) =
    (if ttl_on \<and> 0 < r_ttl_expiry (fk_heap s a) \<and> r_ttl_expiry (fk_heap s a) < now then Err KeyNotFound
     else Ok (value_of m (fk_heap s a)))"
  using assms by (simp add: spec_get_def kv_abs_Some validate_key_def kv_const split: if_splits)

context block_device
begin

text \<open>\<open>get\<close> returns, changes nothing but counters and the cache, and answers as specified.\<close>

lemma get_result:
  assumes os: "e_os env = os" and vals: "values_ok s" and coh: "cache_coherent (media w) s"
  shows "\<exists>s' w' r. kv_get env key s w = Some ((s', w'), r) \<and> same_core s s' \<and> media w' = media w \<and>
    quiet w' = quiet w \<and> cache_coherent (media w) s' \<and> get_outcome (media w) (e_now env) key s r"
proof (cases "validate_key key = Ok ()")
  case False
  then have "validate_key key = Err InvalidKeySize" "spec_get (fk_enable_ttl s) (e_now env) key (kv_abs (media w) s) = Err InvalidKeySize"
    by (auto simp: validate_key_def spec_get_def kv_const split: if_splits)
  with coh show ?thesis by (simp add: kv_get_def get_outcome_def)
next
  case True
  have finish: ?thesis if "kv_get env key s w = Some ((s', w'), r)" "same_core s s'" "media w' = media w"
    "quiet w' = quiet w" "cache_coherent (media w) s'" "get_outcome (media w) (e_now env) key s r" for s' w' r
    using that by blast
  obtain s1 q where c: "cached key s = (s1, q)" by fastforce
  note C = cached_result[OF c coh]
  show ?thesis
  proof (cases q)
    case (Some v)
    then obtain ca where ca: "fk_enable_caching s" "fk_cache s = Some ca" "cache_lookup ca key = Some v"
      using C(4) by (auto split: if_splits option.splits)
    have "kv_values (media w) s key = Some v" using coh ca by (simp add: cache_coherent_def cache.coherent_def)
    with ca have "get_outcome (media w) (e_now env) key s (Ok v)" by (auto simp: get_outcome_def)
    moreover have "same_core s (upd_stats (record_get (e_latency env) True) s1)"
      by (rule same_core_count[OF C(1)]) simp
    ultimately show ?thesis using True c Some C(2) by (simp add: kv_get_def coherent_upd_stats)
  next
    case None
    show ?thesis
    proof (cases "fk_hash_table s key")
      case none: None
      then have "spec_get (fk_enable_ttl s) (e_now env) key (kv_abs (media w) s) = Err KeyNotFound"
        using True by (simp add: spec_get_def kv_abs_None validate_key_def kv_const split: if_splits)
      moreover have "fk_hash_table s1 key = None" using none C(1) by (simp add: same_core_def)
      ultimately show ?thesis using True c None C by (simp add: kv_get_def get_outcome_def)
    next
      case a: (Some a)
      have a1: "fk_hash_table s1 key = Some a" "fk_heap s1 = fk_heap s" "fk_enable_ttl s1 = fk_enable_ttl s"
        using a C(1) by (simp_all add: same_core_def)
      note S = spec_get_indexed[OF True a, of "fk_enable_ttl s" "e_now env" "media w"]
      show ?thesis
      proof (cases "fk_enable_ttl s \<and> 0 < r_ttl_expiry (fk_heap s a) \<and> r_ttl_expiry (fk_heap s a) < e_now env")
        case expired: True
        let ?s = "upd_stats (\<lambda>st. st\<lparr>st_ttl_expired_lazy := wrapping_add (st_ttl_expired_lazy st) 1\<rparr>) s1"
        have "kv_get env key s w = Some ((?s, w), Err KeyNotFound)"
          using expired True c None a1 by (simp add: kv_get_def Let_def)
        moreover have "same_core s ?s" by (rule same_core_count[OF C(1)]) simp
        moreover have "cache_coherent (media w) ?s" using C(2) by (simp add: coherent_upd_stats)
        ultimately show ?thesis using S expired by (intro finish[of ?s w "Err KeyNotFound"]) (simp_all add: get_outcome_def)
      next
        case live: False
        have rd: "readable s1 (fk_heap s a)" using vals a C(1) by (simp add: values_ok_def readable_same_core)
        obtain w1 res where f: "fetch_value env (fk_heap s a) s1 w = (w1, res)" by fastforce
        note F = fetch_value_result[OF f os rd]
        show ?thesis
        proof (cases res)
          case (Ok p)
          let ?v = "value_of (media w) (fk_heap s a)" and ?hit = "r_value (fk_heap s a) \<noteq> None"
          have p: "p = (?v, ?hit)" using F(3) Ok by simp
          have "kv_values (media w) s1 key = Some ?v" using a1 by (simp add: kv_values_def kv_abs_Some)
          moreover have "cache_lookup ca key = None" if "fk_enable_caching s1" "fk_cache s1 = Some ca" for ca
            using that C(1,4,5) None by (cases "fk_cache s") (auto simp: same_core_def)
          ultimately obtain s2 where s2: "cache_fill key ?v s1 = Some (Ok s2)"
            "same_core s1 s2" "cache_coherent (media w) s2" using cache_fill_result[OF C(2)] by blast
          let ?s = "upd_stats (record_get (e_latency env) ?hit) s2"
          have "same_core s ?s" by (rule same_core_count[OF same_core_trans[OF C(1) s2(2)]]) simp
          moreover have "cache_coherent (media w) ?s" using s2(3) by (simp add: coherent_upd_stats)
          moreover have "kv_get env key s w = Some ((?s, w1), Ok ?v)"
            using True c None a1 live f Ok p s2(1) by (simp add: kv_get_def Let_def)
          ultimately show ?thesis using F(1,2) S live by (intro finish[of ?s w1 "Ok ?v"]) (simp_all add: get_outcome_def)
        next
          case (Err e)
          with F have "device_error e" "r_value (fk_heap s a) = None" by auto
          with a have "get_outcome (media w) (e_now env) key s (Err e)" by (simp add: get_outcome_def)
          moreover have "kv_get env key s w = Some ((s1, w1), Err e)"
            using Err True c None a1 live f by (simp add: kv_get_def Let_def) auto
          ultimately show ?thesis using F(1,2) C(1,2) by (intro finish[of s1 w1 "Err e"]) simp_all
        next
          case Panic
          with F(3) show ?thesis by simp
        qed
      qed
    qed
  qed
qed

end

lemma cached_frame:
  "cached key s = (s', q) \<Longrightarrow> fk_write_buffer s' = fk_write_buffer s \<and> (fk_cache s' = None \<longleftrightarrow> fk_cache s = None)"
  by (auto simp: cached_def split: if_splits option.splits prod.splits)

lemma cache_fill_frame:
  assumes "cache_fill key v s = Some (Ok s')"
  shows "fk_write_buffer s' = fk_write_buffer s \<and> (fk_cache s' = None \<longleftrightarrow> fk_cache s = None)"
proof (cases "fk_enable_caching s \<and> fk_cache s \<noteq> None")
  case True
  then obtain c where c: "fk_cache s = Some c" by blast
  with assms True obtain r where "cache_insert key v c (fk_stats s) = Some r"
    "bind_outcome r (\<lambda>(c', st). Ok (s\<lparr>fk_cache := Some c', fk_stats := st\<rparr>)) = Ok s'" by (auto simp: cache_fill_def)
  with c show ?thesis by (cases r) auto
qed (use assms in \<open>auto simp: cache_fill_def split: option.splits if_splits\<close>)

lemma get_frame:
  assumes "kv_get env key s w = Some ((s', w'), r)"
  shows "fk_write_buffer s' = fk_write_buffer s \<and> (fk_cache s' = None \<longleftrightarrow> fk_cache s = None)"
proof -
  obtain s1 q where c: "cached key s = (s1, q)" by fastforce
  have "s' = s1 \<or> s' = s \<or> fk_write_buffer s' = fk_write_buffer s1 \<and> (fk_cache s' = None \<longleftrightarrow> fk_cache s1 = None)"
    using assms c by (auto simp: kv_get_def Let_def upd_stats_def dest: cache_fill_frame
        split: outcome.splits option.splits prod.splits if_splits)
  with cached_frame[OF c] show ?thesis by auto
qed
section \<open>Range queries\<close>

text \<open>The entries a range query returns: those of the range in key order, up to the limit.\<close>

definition range_answer :: "(bytes \<rightharpoonup> bytes) \<Rightarrow> bytes \<Rightarrow> bytes \<Rightarrow> nat \<Rightarrow> (bytes \<times> bytes) list \<Rightarrow> bool" where
  "range_answer V lo hi limit xs \<longleftrightarrow>
     sorted_wrt (<) (map fst xs) \<and> length xs \<le> limit \<and>
     (\<forall>(k, v)\<in>set xs. lo \<le> k \<and> k \<le> hi \<and> V k = Some v) \<and>
     (\<forall>k v. lo \<le> k \<longrightarrow> k \<le> hi \<longrightarrow> V k = Some v \<longrightarrow> (k, v) \<notin> set xs \<longrightarrow>
        length xs = limit \<and> (\<forall>x\<in>set xs. fst x < k))"

lemma sorted_take_answer:
  assumes "sorted_wrt (<) (map fst ys)" and "\<And>k v. (k, v) \<in> set ys \<longleftrightarrow> lo \<le> k \<and> k \<le> hi \<and> V k = Some v"
  shows "range_answer V lo hi n (take n ys)"
proof -
  have s: "sorted_wrt (<) (map fst (take n ys))" using assms(1) by (simp add: take_map [symmetric] sorted_wrt_take)
  have rest: "length (take n ys) = n \<and> (\<forall>x\<in>set (take n ys). fst x < k)"
    if "(k, v) \<in> set ys" "(k, v) \<notin> set (take n ys)" for k v
  proof -
    have "sorted_wrt (<) (map fst (take n ys @ drop n ys))" using assms(1) by simp
    then have "\<forall>x\<in>set (take n ys). \<forall>y\<in>set (drop n ys). fst x < fst y" by (simp add: sorted_wrt_append del: append_take_drop_id)
    moreover have "(k, v) \<in> set (drop n ys)" using that by (metis Un_iff append_take_drop_id set_append)
    ultimately show ?thesis by (cases "n \<le> length ys") (fastforce, simp)
  qed
  show ?thesis
    unfolding range_answer_def using s rest assms(2) by (auto dest: in_set_takeD)
qed

lemma om_range_entries:
  assumes "om_inv t"
  shows "sorted_wrt (<) (map fst (om_range lo hi t))"
    "(k, a) \<in> set (om_range lo hi t) \<longleftrightarrow> lo \<le> k \<and> k \<le> hi \<and> om_get t k = Some a"
  using assms by (auto simp: om_range_def om_inv_def om.entry_iff [symmetric] sorted_wrt_map sorted_wrt_filter)

context block_device
begin

lemma range_collect_result:
  assumes "range_collect env s n es w = (w', res)" "e_os env = os" "\<forall>(k, a)\<in>set es. readable s (fk_heap s a)"
  shows "media w' = media w \<and> quiet w' = quiet w \<and>
    ((\<exists>e. res = Err e \<and> device_error e) \<or>
     res = Ok (take n (map (\<lambda>(k, a). (k, value_of (media w) (fk_heap s a))) es)))"
  using assms
proof (induction env s n es w arbitrary: w' res rule: range_collect.induct)
  case (2 env s n k a es w)
  show ?case
  proof (cases n)
    case (Suc m)
    obtain w1 q where f: "fetch_value env (fk_heap s a) s w = (w1, q)" by fastforce
    have rd: "readable s (fk_heap s a)" using 2(4) by simp
    note F = fetch_value_result[OF f 2(3) rd]
    show ?thesis
    proof (cases q)
      case (Ok p)
      then have p: "p = (value_of (media w) (fk_heap s a), r_value (fk_heap s a) \<noteq> None)" using F(3) by simp
      obtain w2 q2 where c: "range_collect env s m es w1 = (w2, q2)" by fastforce
      have IH: "media w2 = media w1 \<and> quiet w2 = quiet w1 \<and> ((\<exists>e. q2 = Err e \<and> device_error e) \<or>
          q2 = Ok (take m (map (\<lambda>(k, a). (k, value_of (media w1) (fk_heap s a))) es)))"
        using 2(1)[of w1 w2 q2] 2(3,4) Suc c by simp
      show ?thesis using 2(2) Suc f Ok p c IH F(1,2) by (cases q2) auto
    next
      case (Err e)
      with 2(2) Suc f F show ?thesis by auto
    next
      case Panic
      with F(3) show ?thesis by simp
    qed
  qed (use 2 in auto)
qed auto

lemma range_query_result:
  assumes os: "e_os env = os" and inv: "store_inv rs s" and vals: "values_ok s"
    and run: "range_query env lo hi limit s w = ((s', w'), r)"
  shows "same_core s s'" "media w' = media w" "quiet w' = quiet w" "fk_cache s' = fk_cache s"
    "st_cache_memory (fk_stats s') = st_cache_memory (fk_stats s)"
    "(validate_key lo \<noteq> Ok () \<or> validate_key hi \<noteq> Ok ()) \<and> r = Err InvalidKeySize \<or>
     (\<exists>e. r = Err e \<and> device_error e) \<or>
     (\<exists>xs. r = Ok xs \<and> range_answer (kv_values (media w) s) lo hi limit xs)"
proof -
  let ?V = "kv_values (media w) s" and ?f = "\<lambda>(k, a). (k, value_of (media w) (fk_heap s a))"
  have I: "om_inv (fk_tree s)" "om_get (fk_tree s) = fk_hash_table s" using inv by (auto simp: store_inv_def)
  note E = om_range_entries[OF I(1)]
  obtain w1 q where c: "range_collect env s limit (om_range lo hi (fk_tree s)) w = (w1, q)" by fastforce
  have "\<forall>(k, a)\<in>set (om_range lo hi (fk_tree s)). readable s (fk_heap s a)"
    using vals I(2) E(2) by (auto simp: values_ok_def)
  note R = range_collect_result[OF c os this]
  have ans: "range_answer ?V lo hi limit (take limit (map ?f (om_range lo hi (fk_tree s))))"
  proof (rule sorted_take_answer)
    have "map fst (map ?f (om_range lo hi (fk_tree s))) = map fst (om_range lo hi (fk_tree s))" by auto
    then show "sorted_wrt (<) (map fst (map ?f (om_range lo hi (fk_tree s))))" using E(1) by metis
    show "(k, v) \<in> set (map ?f (om_range lo hi (fk_tree s))) \<longleftrightarrow> lo \<le> k \<and> k \<le> hi \<and> ?V k = Some v" for k v
      using E(2)[of k _ lo hi] I(2) by (auto simp: kv_values_def kv_abs_def entry_of_def image_iff split: prod.splits)
  qed
  have "same_core s s' \<and> media w' = media w \<and> quiet w' = quiet w \<and> fk_cache s' = fk_cache s \<and>
    st_cache_memory (fk_stats s') = st_cache_memory (fk_stats s) \<and>
    ((validate_key lo \<noteq> Ok () \<or> validate_key hi \<noteq> Ok ()) \<and> r = Err InvalidKeySize \<or>
     (\<exists>e. r = Err e \<and> device_error e) \<or> (\<exists>xs. r = Ok xs \<and> range_answer ?V lo hi limit xs))"
  proof (cases "validate_key lo = Ok () \<and> validate_key hi = Ok ()")
    case True
    have "same_core s (upd_stats (record_range_query (e_latency env)) s)" by (rule same_core_upd_stats) simp
    then show ?thesis using run True c R ans
      by (cases q) (auto simp: range_query_def upd_stats_def record_range_query_def)
  next
    case False
    then show ?thesis using run by (auto simp: range_query_def validate_key_def split: if_splits)
  qed
  then show "same_core s s'" "media w' = media w" "quiet w' = quiet w" "fk_cache s' = fk_cache s"
    "st_cache_memory (fk_stats s') = st_cache_memory (fk_stats s)"
    "(validate_key lo \<noteq> Ok () \<or> validate_key hi \<noteq> Ok ()) \<and> r = Err InvalidKeySize \<or>
     (\<exists>e. r = Err e \<and> device_error e) \<or>
     (\<exists>xs. r = Ok xs \<and> range_answer (kv_values (media w) s) lo hi limit xs)" by auto
qed

end

section \<open>Increments\<close>

definition spec_increment :: "bytes \<Rightarrow> int \<Rightarrow> nat \<Rightarrow> nat \<Rightarrow> (bytes \<rightharpoonup> kv_entry) \<Rightarrow> (bytes \<rightharpoonup> kv_entry) \<times> int res" where
  "spec_increment key delta t ttl_seconds A =
     (if key = [] \<or> 102400 < length key then (A, Err InvalidKeySize)
      else case A key of
        None \<Rightarrow> (case spec_expiry True t ttl_seconds of
                   Ok e \<Rightarrow> (A(key \<mapsto> (i64_to_le_bytes delta, t, e)), Ok delta) | _ \<Rightarrow> (A, Panic))
      | Some (v, t0, e0) \<Rightarrow>
          if t < t0 then (A, Err OlderTimestamp)
          else if length v \<noteq> 8 then (A, Err InvalidOperation)
          else let n = saturating_add_i64 (i64_from_le_bytes v) delta
               in case spec_expiry True t ttl_seconds of
                    Ok e \<Rightarrow> (A(key \<mapsto> (i64_to_le_bytes n, t, e)), Ok n) | _ \<Rightarrow> (A, Panic))"

lemma counter_record_spec:
  "counter_record key val t ttl =
     (case spec_expiry True t ttl of Ok e \<Rightarrow> Ok (make_record (0 < ttl) key (i64_to_le_bytes val) t e) | Err x \<Rightarrow> Err x | Panic \<Rightarrow> Panic)"
proof (cases "0 < ttl")
  case True
  then have "or_panic (expiry_at t ttl) = spec_expiry True t ttl" using expiry_spec[of ttl True t] by simp
  with True show ?thesis by (cases "spec_expiry True t ttl") (simp_all add: counter_record_def make_record_def)
qed (simp add: counter_record_def make_record_def spec_expiry_def)

lemma length_i64 [simp]: "length (i64_to_le_bytes n) = 8"
  by (simp add: i64_to_le_bytes_def)

lemma counter_record_props:
  assumes "counter_record key val t ttl = Ok r" "t < U64_LIM"
  shows "fresh_record key r" "r_value_len r = 8"
    "\<exists>e. spec_expiry True t ttl = Ok e \<and> entry_of m r = (i64_to_le_bytes val, t, e)"
proof -
  from assms(1) obtain e where e: "spec_expiry True t ttl = Ok e" "r = make_record (0 < ttl) key (i64_to_le_bytes val) t e"
    by (auto simp: counter_record_spec split: outcome.splits)
  note b = spec_expiry_bound[OF e(1)]
  show "r_value_len r = 8" by (simp add: e(2))
  show "fresh_record key r" using b assms(2) by (simp add: e(2) make_record_fresh U64_LIM_def)
  have "(if 0 < ttl then e else 0) = e" using b by auto
  then show "\<exists>e. spec_expiry True t ttl = Ok e \<and> entry_of m r = (i64_to_le_bytes val, t, e)"
    using e by (simp add: entry_of_make)
qed

lemma increment_vacant_result:
  assumes inv: "store_inv (e_rec_struct env) s" and none: "fk_hash_table s key = None" and k: "validate_key key = Ok ()"
    and t: "timestamp_or_now env ts < U64_LIM"
    and run: "increment_vacant env key delta ts ttl s w = ((s', w'), r)"
  shows "store_inv (e_rec_struct env) s' \<and> w' = w \<and> (kv_abs m s', r) =
    (case spec_expiry True (timestamp_or_now env ts) ttl of
       Ok e \<Rightarrow> ((kv_abs m s)(key \<mapsto> (i64_to_le_bytes delta, timestamp_or_now env ts, e)), Ok delta) | _ \<Rightarrow> (kv_abs m s, Panic)) \<and>
    (s' = s \<or> (\<exists>rec. stored key rec s s'))"
proof (cases "counter_record key delta (timestamp_or_now env ts) ttl")
  case (Ok rec)
  let ?rs = "e_rec_struct env" and ?t = "timestamp_or_now env ts"
  note R = counter_record_props[OF Ok t]
  obtain s1 a where new: "new_record rec s = (s1, a)" by fastforce
  note pe = put_effect_new[OF new, of key]
  define s2 where "s2 = upd_stats (\<lambda>st. st\<lparr>st_record_count := wrapping_add32 (st_record_count st) 1,
     st_memory_usage := wrapping_add (st_memory_usage st) (calculate_record_size ?rs (length key) 8)\<rparr>) (index_put key a s1)"
  have run2: "s' = (if fk_persistency s2 then buffer_write env Insert a 0 s2 else s2)" "r = Ok delta" "w' = w"
    using run Ok new by (auto simp: increment_vacant_def Let_def s2_def)
  have p2: "put_effect key rec s s2" using pe by (simp add: s2_def upd_stats_def put_effect_stats)
  have i2: "store_inv ?rs s2"
    by (rule insert_new_result[OF inv none k fresh_recordD[OF R(1)] p2])
      (use pe R(2) fresh_recordD(1)[OF R(1)] in \<open>simp_all add: s2_def upd_stats_def calculate_size_of\<close>)
  have a: "a = fk_next s" using new by (auto simp: new_record_def)
  have same: "fk_write_buffer s2 = fk_write_buffer s" "fk_cache s2 = fk_cache s"
    "st_cache_memory (fk_stats s2) = st_cache_memory (fk_stats s)"
    using new by (auto simp: s2_def upd_stats_def index_put_def new_record_def)
  note S = fresh_stored[OF p2 R(1) none same run2(1)[unfolded a]]
  from R(3)[of m] obtain e where e: "spec_expiry True ?t ttl = Ok e" "entry_of m rec = (i64_to_le_bytes delta, ?t, e)" by blast
  show ?thesis using i2 same_core_inv[OF S(2)] put_effect_abs[OF storedD(1)[OF S(1)] inv, of m] e run2(2,3) S(1) by auto
next
  case (Err x)
  then show ?thesis by (auto simp: counter_record_spec split: outcome.splits)
next
  case Panic
  with run inv show ?thesis by (auto simp: increment_vacant_def counter_record_spec split: outcome.splits)
qed

context block_device
begin

lemma increment_occupied_result:
  assumes os: "e_os env = os" and inv: "store_inv (e_rec_struct env) s" and a: "fk_hash_table s key = Some a"
    and rd: "readable s (fk_heap s a)" and t: "timestamp_or_now env ts < U64_LIM" and key: "length key < 2 ^ 16"
    and run: "increment_occupied env key delta ts ttl a s w = ((s', w'), r)"
  shows "store_inv (e_rec_struct env) s' \<and> media w' = media w \<and> quiet w' = quiet w \<and>
    ((kv_abs m s', r) =
       (if timestamp_or_now env ts < r_timestamp (fk_heap s a) then (kv_abs m s, Err OlderTimestamp)
        else if length (value_of (media w) (fk_heap s a)) \<noteq> 8 then (kv_abs m s, Err InvalidOperation)
        else let n = saturating_add_i64 (i64_from_le_bytes (value_of (media w) (fk_heap s a))) delta
             in case spec_expiry True (timestamp_or_now env ts) ttl of
                  Ok e \<Rightarrow> ((kv_abs m s)(key \<mapsto> (i64_to_le_bytes n, timestamp_or_now env ts, e)), Ok n) | _ \<Rightarrow> (kv_abs m s, Panic)) \<and>
       (s' = s \<or> (\<exists>rec. stored key rec s s')) \<or>
     s' = s \<and> r_value (fk_heap s a) = None \<and> (\<exists>e. r = Err e \<and> device_error e))"
proof (cases "timestamp_or_now env ts < r_timestamp (fk_heap s a)")
  case True
  with run inv show ?thesis by (auto simp: increment_occupied_def Let_def)
next
  case False
  let ?t = "timestamp_or_now env ts" and ?old = "fk_heap s a" and ?rs = "e_rec_struct env"
  obtain w1 q where f: "fetch_value env ?old s w = (w1, q)" by fastforce
  note F = fetch_value_result[OF f os rd]
  have ri: "record_indexed s key a" by (rule inv_indexed[OF inv a])
  have kl: "r_key ?old = key" "r_key_len ?old = length key"
    using ri key by (simp_all add: record_indexed_def record_wf_def)
  show ?thesis
  proof (cases q)
    case (Ok p)
    let ?v = "value_of (media w) ?old"
    have p: "p = (?v, r_value ?old \<noteq> None)" using F(3) Ok by simp
    show ?thesis
    proof (cases "length ?v = 8")
      case len: True
      let ?n = "saturating_add_i64 (i64_from_le_bytes ?v) delta"
      show ?thesis
      proof (cases "counter_record key ?n ?t ttl")
        case rec: (Ok rec)
        note R = counter_record_props[OF rec t]
        obtain s1 n where new: "new_record rec s = (s1, n)" by fastforce
        define s2 where "s2 = update_memory_usage (calculate_size ?rs rec) (calculate_size ?rs ?old) (index_put key n s1)"
        define s3 where "s3 = (if fk_persistency s2 then persistent_update env n a key (r_value_len ?old) s2 else s2)"
        have "s' = s3" "r = Ok ?n" "w' = w1"
          using run False f Ok p len rec new kl R(2) fresh_recordD(1)[OF R(1)]
          by (auto simp: increment_occupied_def Let_def decode_counter_def s2_def s3_def calculate_size_of)
        moreover note replace_result[OF inv a R(1) new s2_def s3_def]
        moreover from R(3)[of m] obtain e where "spec_expiry True ?t ttl = Ok e" "entry_of m rec = (i64_to_le_bytes ?n, ?t, e)" by blast
        ultimately show ?thesis using put_effect_abs[OF storedD(1), of key rec s s3 ?rs m] inv False len F(1,2)
          by (auto simp: Let_def)
      next
        case (Err x)
        then show ?thesis by (auto simp: counter_record_spec split: outcome.splits)
      next
        case Panic
        then have "spec_expiry True ?t ttl = Panic" by (auto simp: counter_record_spec split: outcome.splits)
        with Panic run False f Ok p len inv kl F(1,2) show ?thesis
          by (auto simp: increment_occupied_def Let_def decode_counter_def)
      qed
    next
      case len: False
      with run False f Ok p inv F(1,2) show ?thesis by (auto simp: increment_occupied_def Let_def decode_counter_def)
    qed
  next
    case (Err e)
    with F(3) have "device_error e" "r_value ?old = None" by auto
    with run False f Err inv F(1,2) show ?thesis by (auto simp: increment_occupied_def Let_def)
  next
    case Panic
    with F(3) show ?thesis by simp
  qed
qed

lemma increment_result:
  assumes os: "e_os env = os" and inv: "store_inv (e_rec_struct env) s" and vals: "values_ok s"
    and t: "timestamp_or_now env ts < U64_LIM" and key: "length key < 2 ^ 16"
    and run: "atomic_increment_internal env key delta ts ttl s w = ((s', w'), r)"
  shows "store_inv (e_rec_struct env) s' \<and> media w' = media w \<and> quiet w' = quiet w \<and>
    ((kv_abs (media w) s', r) = spec_increment key delta (timestamp_or_now env ts) ttl (kv_abs (media w) s) \<and>
       (s' = s \<or> (\<exists>rec. stored key rec s s')) \<or>
     s' = s \<and> (\<exists>a e. fk_hash_table s key = Some a \<and> r_value (fk_heap s a) = None \<and> r = Err e \<and> device_error e))"
proof (cases "validate_key key = Ok ()")
  case False
  then have "validate_key key = Err InvalidKeySize" "spec_increment key delta (timestamp_or_now env ts) ttl (kv_abs (media w) s) = (kv_abs (media w) s, Err InvalidKeySize)"
    by (auto simp: validate_key_def spec_increment_def kv_const split: if_splits)
  with run inv show ?thesis by (simp add: atomic_increment_internal_def)
next
  case True
  then have k: "key \<noteq> []" "length key \<le> 102400" by (auto simp: validate_key_def kv_const split: if_splits)
  show ?thesis
  proof (cases "fk_hash_table s key")
    case None
    with run True have "increment_vacant env key delta ts ttl s w = ((s', w'), r)" by (simp add: atomic_increment_internal_def)
    from increment_vacant_result[OF inv None True t this, of "media w"] k None show ?thesis
      by (simp add: spec_increment_def kv_abs_None)
  next
    case (Some a)
    with run True have io: "increment_occupied env key delta ts ttl a s w = ((s', w'), r)" by (simp add: atomic_increment_internal_def)
    have rd: "readable s (fk_heap s a)" using vals Some by (simp add: values_ok_def)
    from increment_occupied_result[OF os inv Some rd t key io, of "media w"] k Some show ?thesis
      by (auto simp: spec_increment_def kv_abs_Some)
  qed
qed

end

end
