(* ===== verification/Persistence.thy ===== *)
theory Persistence
  imports Store_Reads
begin

text \<open>
  Opening, flushing and closing a store: src/core/persistence.rs, and the rebuilding of the indexes
  from the device, src/core/recovery.rs. The calls on the file that the device layer does not make
  (opening, length, truncation, the probing read) are the record \<open>fs\<close> of functions on the state of
  the system. The cast of \<open>bytemuck\<close> is the argument \<open>tfb\<close>, as in the metadata.
\<close>

section \<open>Flushing\<close>

text \<open>The part of the store that the workers of the write buffer share.\<close>

definition shared :: "fun_kv \<Rightarrow> 'w \<Rightarrow> 'w wctx" where
  "shared s w = \<lparr>x_heap = fk_heap s, x_free_space = fk_free_space s, x_stats = fk_stats s, x_world = w\<rparr>"

definition put_shared :: "write_buffer \<Rightarrow> 'w wctx \<Rightarrow> fun_kv \<Rightarrow> fun_kv" where
  "put_shared wb x s =
     s\<lparr>fk_write_buffer := Some wb, fk_heap := x_heap x, fk_free_space := x_free_space x, fk_stats := x_stats x\<rparr>"

text \<open>\<open>get_time_now\<close> in seconds.\<close>

definition now_secs :: "'w env \<Rightarrow> nat" where
  "now_secs env = e_now env div SECOND"

text \<open>The update of the metadata and its two writes, whose errors are dropped.\<close>

definition stamp_metadata :: "'w env \<Rightarrow> fun_kv \<Rightarrow> metadata" where
  "stamp_metadata env s =
     metadata_update (now_secs env)
       ((fk_metadata s)\<lparr>m_total_records := st_record_count (fk_stats s),
          m_total_size := st_disk_usage (fk_stats s),
          m_fragmentation := get_fragmentation_percent (fk_free_space s)\<rparr>)"

definition save_metadata :: "'w env \<Rightarrow> disk_io \<Rightarrow> fun_kv \<Rightarrow> 'w \<Rightarrow> fun_kv \<times> 'w" where
  "save_metadata env d s w =
     (let m = stamp_metadata env s;
          w1 = fst (write_metadata (e_os env) d (as_bytes m) w);
          w2 = fst (disk_flush (e_os env) w1)
      in (s\<lparr>fk_metadata := m\<rparr>, w2))"

text \<open>\<open>order\<close> is the order in which the workers serve the flush.\<close>

definition flush_buffer :: "'w env \<Rightarrow> nat list \<Rightarrow> fun_kv \<Rightarrow> 'w \<Rightarrow> fun_kv \<times> 'w" where
  "flush_buffer env order s w =
     (case (fk_write_buffer s, fk_disk_io s) of
        (Some wb, Some d) \<Rightarrow>
          (let ((wb', x), r) = force_flush (e_os env) d order (wb, shared s w)
           in (put_shared wb' x s, x_world x))
      | _ \<Rightarrow> (s, w))"

definition flush_all :: "'w env \<Rightarrow> nat list \<Rightarrow> fun_kv \<Rightarrow> 'w \<Rightarrow> fun_kv \<times> 'w" where
  "flush_all env order s w =
     (if fk_persistency s
      then
        let (s1, w1) = flush_buffer env order s w
        in case fk_disk_io s1 of
             Some d \<Rightarrow> save_metadata env d s1 w1
           | None \<Rightarrow> (s1, w1)
      else (s, w))"

definition kv_flush :: "'w env \<Rightarrow> nat list \<Rightarrow> fun_kv \<Rightarrow> 'w \<Rightarrow> fun_kv \<times> 'w" where
  "kv_flush env order s w = flush_all env order s w"

text \<open>One worker serving one request, seen from the store.\<close>

definition run_worker :: "'w env \<Rightarrow> nat \<Rightarrow> fun_kv \<Rightarrow> 'w \<Rightarrow> (fun_kv \<times> 'w) \<times> unit res" where
  "run_worker env i s w =
     (case (fk_write_buffer s, fk_disk_io s) of
        (Some wb, Some d) \<Rightarrow>
          (let ((wb', x), r) = worker_serve (e_os env) d i (wb, shared s w) in ((put_shared wb' x s, x_world x), r))
      | _ \<Rightarrow> ((s, w), Ok ()))"

section \<open>Closing\<close>

text \<open>
  \<open>Drop\<close>: stop the sweeper, forbid new writes, write the metadata, then let the workers drain their
  shards (in \<open>order\<close>) and shut the ring down.
\<close>

definition kv_drop :: "'w env \<Rightarrow> nat list \<Rightarrow> fun_kv \<Rightarrow> 'w \<Rightarrow> fun_kv \<times> 'w" where
  "kv_drop env order s w =
     (let s1 = s\<lparr>fk_ttl := None, fk_write_buffer := map_option initiate_shutdown (fk_write_buffer s)\<rparr>;
          (s2, w2) = (case fk_disk_io s1 of
                        Some d \<Rightarrow> if fk_persistency s1 then save_metadata env d s1 w else (s1, w)
                      | None \<Rightarrow> (s1, w));
          (s3, w3) = (case (fk_write_buffer s2, fk_disk_io s2) of
                        (Some wb, Some d) \<Rightarrow>
                          (let (wb', x) = complete_shutdown (e_os env) d order (wb, shared s2 w2)
                           in ((put_shared wb' x s2)\<lparr>fk_write_buffer := None\<rparr>, x_world x))
                      | _ \<Rightarrow> (s2\<lparr>fk_write_buffer := None\<rparr>, w2))
      in case fk_disk_io s3 of
           Some d \<Rightarrow> (let (w4, d') = disk_shutdown (e_os env) d w3 in (s3\<lparr>fk_disk_io := Some d'\<rparr>, w4))
         | None \<Rightarrow> (s3, w3))"

section \<open>Opening\<close>

record 'w fs =
  fs_dockerenv :: "'w \<Rightarrow> bool"
  fs_open_direct :: "string \<Rightarrow> 'w \<Rightarrow> 'w \<times> io_error option"
  fs_open :: "string \<Rightarrow> 'w \<Rightarrow> 'w \<times> io_error option"
  fs_len :: "'w \<Rightarrow> io_error + nat"
  fs_set_len :: "nat \<Rightarrow> 'w \<Rightarrow> 'w \<times> io_error option"
  fs_try_clone :: "'w \<Rightarrow> io_error option"
  fs_read_start :: "nat \<Rightarrow> 'w \<Rightarrow> bytes"
  fs_ring :: "bool \<times> bool"

definition io_result :: "io_error option \<Rightarrow> unit res" where
  "io_result e = (case e of None \<Rightarrow> Ok () | Some x \<Rightarrow> Err (IoError x))"

definition regular_open :: "'w fs \<Rightarrow> string \<Rightarrow> 'w \<Rightarrow> 'w \<times> unit res" where
  "regular_open fs path w = (case fs_open fs path w of (w', e) \<Rightarrow> (w', io_result e))"

text \<open>Open with \<open>O_DIRECT\<close> outside a container, else or on failure without; the flag is \<open>use_direct_io\<close>.\<close>

definition open_file :: "'w fs \<Rightarrow> string \<Rightarrow> 'w \<Rightarrow> 'w \<times> bool res" where
  "open_file fs path w =
     (if fs_dockerenv fs w then try_bind (regular_open fs path w) (\<lambda>_ w. (w, Ok False))
      else case fs_open_direct fs path w of
             (w1, None) \<Rightarrow> (w1, Ok True)
           | (w1, Some _) \<Rightarrow> try_bind (regular_open fs path w1) (\<lambda>_ w. (w, Ok False)))"

text \<open>\<open>fs_read_start n\<close> is the zeroed buffer of \<open>n\<close> bytes after a read at offset 0 that may have failed.\<close>

definition is_empty_file :: "'w fs \<Rightarrow> 'w \<Rightarrow> bool" where
  "is_empty_file fs w =
     (case fs_len fs w of
        Inl _ \<Rightarrow> False
      | Inr n \<Rightarrow> if 0 < n then \<forall>b\<in>set (fs_read_start fs (min READ_BUFFER_SIZE n) w). b = 0 else False)"

definition open_device :: "'w env \<Rightarrow> 'w fs \<Rightarrow> (bytes \<Rightarrow> metadata option) \<Rightarrow> string option \<Rightarrow> nat option \<Rightarrow>
    fun_kv \<times> 'w \<Rightarrow> (fun_kv \<times> 'w) \<times> unit res" where
  "open_device env fs tfb file_path file_size sw =
     (case file_path of
        None \<Rightarrow> (sw, Ok ())
      | Some path \<Rightarrow>
          (let (s, w) = sw; (w0, opened) = open_file fs path w in
          try_bind ((s, w0), opened) (\<lambda>use_direct_io (s, w).
          try_bind ((s, w), case fs_len fs w of Inl e \<Rightarrow> Err (IoError e) | Inr n \<Rightarrow> Ok n) (\<lambda>len (s, w).
          let s1 = s\<lparr>fk_persistence_size := len\<rparr>; was_newly_created = (len = 0) in
          try_bind
            (if was_newly_created
             then
               let target_size = (case file_size of Some n \<Rightarrow> n | None \<Rightarrow> DEFAULT_PERSISTENT_SIZE);
                   (w1, e) = fs_set_len fs target_size w
               in try_bind ((s1, w1), io_result e) (\<lambda>_ (s, w).
                    let s2 = s\<lparr>fk_persistence_size := target_size\<rparr>;
                        (f, r) = initialize (fk_free_space s2) target_size
                    in try_bind ((s2\<lparr>fk_free_space := f\<rparr>, w), r) (\<lambda>_ (s, w).
                         ((s\<lparr>fk_metadata := metadata_update (now_secs env)
                              ((fk_metadata s)\<lparr>m_persistent_size := target_size\<rparr>)\<rparr>, w), Ok ())))
             else try_bind ((s1, w), io_result (fs_try_clone fs w)) (\<lambda>_ (s, w).
                    if is_empty_file fs w
                    then let (f, r) = initialize (fk_free_space s) (fk_persistence_size s)
                         in ((s\<lparr>fk_free_space := f\<rparr>, w), r)
                    else ((s\<lparr>fk_free_space := set_persistence_size (fk_free_space s) (fk_persistence_size s)\<rparr>, w), Ok ())))
            (\<lambda>_ (s, w).
          try_bind ((s, w), io_result (fs_try_clone fs w)) (\<lambda>_ (s, w).
          let d = disk_io_new (fst (fs_ring fs)) (snd (fs_ring fs)) use_direct_io;
              s3 = s\<lparr>fk_disk_io := Some d\<rparr>
          in if was_newly_created then ((s3, w), Ok ())
             else case read_metadata (e_os env) d w of
                    (w2, Ok bs) \<Rightarrow>
                      (case from_bytes tfb bs of
                         Some m \<Rightarrow> ((upd_stats (\<lambda>st. st\<lparr>st_disk_usage := m_total_size m\<rparr>) (s3\<lparr>fk_metadata := m\<rparr>), w2), Ok ())
                       | None \<Rightarrow> ((s3, w2), Ok ()))
                  | (w2, Err _) \<Rightarrow> ((s3, w2), Ok ())
                  | (w2, Panic) \<Rightarrow> ((s3, w2), Panic)))))))"

section \<open>Recovery\<close>

definition recovered_record :: "bytes \<Rightarrow> nat \<Rightarrow> nat \<Rightarrow> nat \<Rightarrow> nat \<Rightarrow> kv_record" where
  "recovered_record key value_len timestamp expiry sector =
     clear_value ((record_new key [] timestamp)\<lparr>r_sector := sector, r_value_len := value_len, r_ttl_expiry := expiry\<rparr>)"

text \<open>
  What the scan does with one block: the number of sectors to advance and the sectors taken. The
  sums and the product are overflow-checked because the length comes from the device.
\<close>

definition scan_block :: "'w env \<Rightarrow> nat \<Rightarrow> bytes \<Rightarrow> fun_kv \<Rightarrow> fun_kv \<times> (nat \<times> nat list) res" where
  "scan_block env sector data s =
     (if length data < SECTOR_HEADER_SIZE then (s, Ok (1, []))
      else if 8 \<le> length data \<and> take 8 data = DELETED_MARKER then (s, Ok (1, []))
      else if from_le_bytes (byte_slice 0 2 data) \<noteq> SECTOR_MARKER \<or> from_le_bytes (byte_slice 2 4 data) \<noteq> 0
        then (s, Ok (1, []))
      else if length data < SECTOR_HEADER_SIZE + 2 then (s, Ok (1, []))
      else case parse_record data of
        None \<Rightarrow> (s, Ok (1, []))
      | Some (key, value_len, timestamp, expiry) \<Rightarrow>
          if key = [] \<or> MAX_KEY_SIZE < length key then (s, Ok (1, []))
          else try_bind (s, or_panic (checked_add (record_header_size (length key)) value_len)) (\<lambda>total s.
            let sectors_needed = div_ceil total BLOCK_SIZE;
                record = recovered_record key value_len timestamp expiry sector
            in if fk_enable_ttl s \<and> 0 < expiry \<and> expiry < e_now env then (s, Ok (sectors_needed, []))
               else
                 let (s1, a) = new_record record s;
                     s2 = upd_stats (\<lambda>st. st\<lparr>st_record_count := wrapping_add32 (st_record_count st) 1\<rparr>) (index_put key a s1)
                 in try_bind (s2, or_panic (checked_add (e_rec_struct env + length key) value_len)) (\<lambda>record_size s.
                    let s3 = upd_stats (\<lambda>st. st\<lparr>st_memory_usage := wrapping_add (st_memory_usage st) record_size\<rparr>) s
                    in try_bind (s3, or_panic (checked_mul sectors_needed BLOCK_SIZE)) (\<lambda>disk_size s.
                       (upd_stats (\<lambda>st. st\<lparr>st_disk_usage := wrapping_add (st_disk_usage st) disk_size\<rparr>) s,
                        Ok (sectors_needed, [sector..<sector + sectors_needed]))))))"

lemma scan_block_advances: "scan_block env sector data s = (s', Ok (n, occ)) \<Longrightarrow> 0 < n"
  by (auto simp: scan_block_def Let_def record_header_size_def kv_const checked_add_def checked_mul_def
      split: if_splits option.splits prod.splits intro!: div_ceil_pos)

function scan_sectors :: "'w env \<Rightarrow> disk_io \<Rightarrow> nat \<Rightarrow> nat \<Rightarrow> fun_kv \<times> 'w \<Rightarrow> (fun_kv \<times> 'w) \<times> nat list res" where
  "scan_sectors env d total_sectors sector sw =
     (if sector < total_sectors
      then
        case read_sectors_sync (e_os env) d sector 1 (snd sw) of
          (w1, Err _) \<Rightarrow> scan_sectors env d total_sectors (sector + 1) (fst sw, w1)
        | (w1, Panic) \<Rightarrow> ((fst sw, w1), Panic)
        | (w1, Ok data) \<Rightarrow>
            (case scan_block env sector data (fst sw) of
               (s1, Ok (n, occ)) \<Rightarrow>
                 try_bind (scan_sectors env d total_sectors (sector + n) (s1, w1)) (\<lambda>rest sw. (sw, Ok (occ @ rest)))
             | (s1, Err e) \<Rightarrow> ((s1, w1), Err e)
             | (s1, Panic) \<Rightarrow> ((s1, w1), Panic))
      else (sw, Ok []))"
  by pat_completeness auto
termination
  by (relation "measure (\<lambda>(env, d, total_sectors, sector, sw). total_sectors - sector)")
    (auto dest!: sym[of _ "scan_block _ _ _ _"] scan_block_advances)

declare scan_sectors.simps [simp del]

text \<open>The gaps between the occupied sectors go to the free-space manager.\<close>

fun release_gaps :: "nat list \<Rightarrow> nat \<Rightarrow> free_space_manager \<Rightarrow> free_space_manager \<times> nat res" where
  "release_gaps [] last_end f = (f, Ok last_end)"
| "release_gaps (occupied_start # rest) last_end f =
     try_bind (if last_end < occupied_start then release_sectors f last_end (occupied_start - last_end) else (f, Ok ()))
       (\<lambda>_ f. release_gaps rest (occupied_start + 1) f)"

definition rebuild_free_space :: "nat \<Rightarrow> nat list \<Rightarrow> free_space_manager \<Rightarrow> free_space_manager \<times> unit res" where
  "rebuild_free_space total_sectors occupied f =
     try_bind (release_gaps (sort occupied) DATA_START_BLOCK f) (\<lambda>last_end f.
       if last_end < total_sectors then release_sectors f last_end (total_sectors - last_end) else (f, Ok ()))"

definition scan_and_rebuild_indexes :: "'w env \<Rightarrow> fun_kv \<times> 'w \<Rightarrow> (fun_kv \<times> 'w) \<times> unit res" where
  "scan_and_rebuild_indexes env sw =
     (let (s, w) = sw in
      if \<not> fk_persistency s \<or> fk_persistence_size s = 0 then (sw, Ok ())
      else case fk_disk_io s of
        None \<Rightarrow> (sw, Err NoDevice)
      | Some d \<Rightarrow>
          (let total_sectors = fk_persistence_size s div BLOCK_SIZE in
           try_bind (scan_sectors env d total_sectors 1 sw) (\<lambda>occupied (s, w).
             let (f, r) = rebuild_free_space total_sectors occupied (fk_free_space s)
             in ((s\<lparr>fk_free_space := f\<rparr>, w), r))))"

definition load_indexes :: "'w env \<Rightarrow> (bytes \<Rightarrow> metadata option) \<Rightarrow> fun_kv \<times> 'w \<Rightarrow> (fun_kv \<times> 'w) \<times> unit res" where
  "load_indexes env tfb sw =
     (let (s, w) = sw in
      if \<not> fk_persistency s then (sw, Ok ())
      else case fk_disk_io s of
        None \<Rightarrow> (sw, Ok ())
      | Some d \<Rightarrow>
          (let (w1, r) = read_metadata (e_os env) d w in
           try_bind ((s, w1), r) (\<lambda>bs (s, w).
             if SIGNATURE_SIZE \<le> length bs \<and> take SIGNATURE_SIZE bs = SIGNATURE
             then
               let s1 = (case from_bytes tfb bs of Some m \<Rightarrow> s\<lparr>fk_metadata := m\<rparr> | None \<Rightarrow> s)
               in scan_and_rebuild_indexes env (s1, w)
             else ((s, w), Ok ()))))"

end
