(* ===== verification/Store_Disk.thy ===== *)
theory Store_Disk
  imports Persistence
begin

text \<open>
  The invariant of a store with its device: every record that an index or a buffered entry refers to
  is in memory or in sectors of its own, each record is queued at most once for writing and once for
  erasure, and the cache agrees with the indexes. Every operation and every flush keeps it.
\<close>

section \<open>Invariant\<close>

definition live :: "fun_kv \<Rightarrow> addr set" where
  "live s = ran (fk_hash_table s) \<union> we_record ` set (buffered s)"

definition is_delete :: "write_entry \<Rightarrow> bool" where
  "is_delete e \<longleftrightarrow> we_operation e = Delete"

definition queue_inv :: "fun_kv \<Rightarrow> bool" where
  "queue_inv s \<longleftrightarrow>
     distinct (map we_record (filter is_write (buffered s))) \<and> distinct (map we_record (filter is_delete (buffered s))) \<and>
     (\<forall>e\<in>set (buffered s). (is_write e \<or> is_delete e) \<and>
        (is_write e \<longrightarrow> r_sector (fk_heap s (we_record e)) = 0) \<and>
        (is_delete e \<longrightarrow> we_record e \<notin> ran (fk_hash_table s) \<and> we_old_value_len e \<le> r_value_len (fk_heap s (we_record e))))"

definition disk_inv :: "fun_kv \<Rightarrow> bool" where
  "disk_inv s \<longleftrightarrow>
     (\<forall>a\<in>live s. a < fk_next s) \<and> disk_ok (fk_free_space s) (fk_heap s) (live s) \<and> queue_inv s \<and>
     (\<not> fk_persistency s \<longrightarrow> buffered s = [] \<and> (\<forall>a\<in>ran (fk_hash_table s). r_sector (fk_heap s a) = 0))"

definition device_inv :: "fun_kv \<Rightarrow> bool" where
  "device_inv s \<longleftrightarrow> (fk_persistency s \<longrightarrow> fk_disk_io s \<noteq> None \<and> fsm_inv (fk_free_space s) \<and>
     device_sectors (fk_free_space s) * BLOCK_SIZE < 2 ^ 63)"

text \<open>A cache is only safe in front of a persistent store: the others do not invalidate it.\<close>

definition kv_ok :: "nat \<Rightarrow> (nat \<Rightarrow> byte) \<Rightarrow> fun_kv \<Rightarrow> bool" where
  "kv_ok rs m s \<longleftrightarrow> store_inv rs s \<and> wired s \<and> disk_inv s \<and> device_inv s \<and> cache_coherent m s \<and>
     (fk_cache s \<noteq> None \<longrightarrow> fk_persistency s)"

lemma kv_okD:
  assumes "kv_ok rs m s"
  shows "store_inv rs s" "wired s" "disk_inv s" "device_inv s" "cache_coherent m s" "fk_cache s \<noteq> None \<longrightarrow> fk_persistency s"
  using assms by (simp_all add: kv_ok_def)

lemma indexed_live: "fk_hash_table s k = Some a \<Longrightarrow> a \<in> live s"
  by (auto simp: live_def intro: ranI)

text \<open>Under the invariant every value can be read.\<close>

lemma kv_ok_values:
  assumes "disk_inv s" "device_inv s"
  shows "values_ok s"
  unfolding values_ok_def readable_def
proof (intro allI impI)
  fix k a assume a: "fk_hash_table s k = Some a" and none: "r_value (fk_heap s a) = None"
  have l: "a \<in> live s" by (rule indexed_live[OF a])
  have D: "disk_ok (fk_free_space s) (fk_heap s) (live s)" using assms(1) by (simp add: disk_inv_def)
  have on: "r_sector (fk_heap s a) \<noteq> 0" using disk_okD(2)[OF D l] none by auto
  have "a \<in> ran (fk_hash_table s)" using a by (rule ranI)
  with on have p: "fk_persistency s" using assms(1) by (auto simp: disk_inv_def)
  have "(r_sector (fk_heap s a) + rec_sectors (fk_heap s a)) * BLOCK_SIZE \<le> device_sectors (fk_free_space s) * BLOCK_SIZE"
    using disk_okD(4)[OF D l on] by (intro mult_le_mono1)
  also have "\<dots> < 2 ^ 63" using p assms(2) by (simp add: device_inv_def)
  finally show "fk_persistency s \<and> fk_disk_io s \<noteq> None \<and> r_sector (fk_heap s a) \<noteq> 0 \<and>
      (r_sector (fk_heap s a) + rec_sectors (fk_heap s a)) * BLOCK_SIZE < 2 ^ 63"
    using on p assms(2) by (simp add: device_inv_def)
qed

lemma disk_ok_subset: "disk_ok fs h A \<Longrightarrow> B \<subseteq> A \<Longrightarrow> disk_ok fs h B"
  unfolding disk_ok_def by blast

text \<open>The layout on disk depends on few fields of the records.\<close>

lemma disk_ok_heap:
  assumes D: "disk_ok fs h A"
    and eq: "\<And>a. a \<in> A \<Longrightarrow> record_wf (h' a) \<and> r_sector (h' a) = r_sector (h a) \<and> r_value (h' a) = r_value (h a) \<and>
      r_key (h' a) = r_key (h a) \<and> r_value_len (h' a) = r_value_len (h a)"
  shows "disk_ok fs h' A"
proof -
  have "rec_extent (h' a) = rec_extent (h a)" "rec_sectors (h' a) = rec_sectors (h a)" if "a \<in> A" for a
    using eq[OF that] by (simp_all add: rec_extent_def rec_sectors_def)
  with D eq show ?thesis unfolding disk_ok_def by simp
qed

lemma disk_ok_add:
  assumes "disk_ok fs h A" "n \<notin> A" "record_wf r" "r_sector r = 0" "r_value r \<noteq> None"
  shows "disk_ok fs (h(n := r)) (insert n A)"
proof -
  have "(h(n := r)) a = h a" if "a \<in> A" for a using that assms(2) by auto
  with assms show ?thesis unfolding disk_ok_def by auto
qed

section \<open>Operations\<close>

lemma queued_set: "queued es s s' \<Longrightarrow> set (buffered s') = set (buffered s) \<union> set es"
  unfolding queued_def by (metis set_mset_mset set_mset_union)

lemma queued_distinct:
  assumes "queued es s s'" "distinct (map f (filter P (buffered s)))" "distinct (map f (filter P es))"
    and "f ` {e \<in> set es. P e} \<inter> f ` {e \<in> set (buffered s). P e} = {}"
  shows "distinct (map f (filter P (buffered s')))"
proof -
  have "mset (map f (filter P (buffered s'))) = mset (map f (filter P (buffered s @ es)))"
    using assms(1) by (simp add: queued_def)
  then have "distinct (map f (filter P (buffered s'))) \<longleftrightarrow> distinct (map f (filter P (buffered s @ es)))"
    by (rule mset_eq_imp_distinct_iff)
  with assms(2-4) show ?thesis by (auto simp: image_iff)
qed

lemma queued_wired:
  "queued es s s' \<Longrightarrow> wired s \<Longrightarrow> fk_enable_caching s' = fk_enable_caching s \<Longrightarrow> cache_shrinks K s s' \<Longrightarrow> 
   cache_ok (the (fk_cache s)) (fk_stats s) \<or> fk_cache s = None \<Longrightarrow> wired s'"
  by (auto simp: wired_def queued_def cache_shrinks_def)

lemma coherent_shrinks:
  assumes "cache_coherent m s" "cache_shrinks K s s'" and "\<And>k. k \<notin> K \<Longrightarrow> fk_cache s \<noteq> None \<Longrightarrow>
    kv_values m s k \<noteq> None \<Longrightarrow> kv_values m' s' k = kv_values m s k"
  shows "cache_coherent m' s'"
proof (cases "fk_cache s")
  case None
  with assms(2) show ?thesis by (simp add: cache_shrinks_def cache_coherent_def)
next
  case (Some c)
  then have ok: "cache_ok c (fk_stats s)" and coh: "\<And>k v. cache_lookup c k = Some v \<Longrightarrow> kv_values m s k = Some v"
    using assms(1) by (auto simp: cache_coherent_def cache.coherent_def)
  from assms(2) Some ok obtain c' where c': "fk_cache s' = Some c'" "cache_ok c' (fk_stats s')"
    "\<And>k v. cache_lookup c' k = Some v \<Longrightarrow> cache_lookup c k = Some v \<and> k \<notin> K" by (auto simp: cache_shrinks_def)
  have "kv_values m' s' k = Some v" if "cache_lookup c' k = Some v" for k v
    using c'(3)[OF that] coh assms(3)[of k] Some by auto
  with c' show ?thesis by (simp add: cache_coherent_def cache.coherent_def)
qed

lemma stored_queue_inv:
  assumes D: "disk_inv s" and inv: "store_inv rs s" and p: "put_effect key r s s'" and fr: "fresh_record key r"
    and pq: "put_queue key s es" and q: "queued es s s'"
  shows "queue_inv s'"
proof -
  let ?n = "fk_next s"
  from pq obtain ws ds where es: "es = ws @ ds" and ws: "\<exists>op n. op \<in> {Insert, Update} \<and> entry_for op ?n n ws"
    and ds: "ds = [] \<or> (\<exists>a. fk_hash_table s key = Some a \<and> entry_for Delete a (r_value_len (fk_heap s a)) ds)"
    by (auto simp: put_queue_def)
  have old: "a < ?n" if "a \<in> live s" for a using D that by (simp add: disk_inv_def)
  have Q: "queue_inv s" using D by (simp add: disk_inv_def)
  have heap: "fk_heap s' = (fk_heap s)(?n := r)" and ht: "fk_hash_table s' = (fk_hash_table s)(key \<mapsto> ?n)"
    using p by (simp_all add: put_effect_def)
  have bl: "we_record e < ?n" if "e \<in> set (buffered s)" for e using old[of "we_record e"] that by (simp add: live_def)
  have w: "is_write e \<and> \<not> is_delete e \<and> we_record e = ?n" if "e \<in> set ws" for e
    using ws that by (auto simp: entry_for_def is_write_def is_delete_def)
  have wl: "length ws \<le> 1" "length ds \<le> 1" using ws ds by (auto simp: entry_for_def)
  have d: "is_delete e \<and> \<not> is_write e \<and> fk_hash_table s key = Some (we_record e) \<and>
      we_old_value_len e = r_value_len (fk_heap s (we_record e))" if "e \<in> set ds" for e
    using ds that by (auto simp: entry_for_def is_write_def is_delete_def)
  have fw: "filter is_write es = ws" "filter is_delete es = ds"
    using w d by (auto simp: es filter_id_conv filter_empty_conv)
  have dl: "we_record e \<in> live s" "we_record e \<in> ran (fk_hash_table s)" if "e \<in> set ds" for e
    using d[OF that] by (auto intro: indexed_live ranI)
  have "distinct (map we_record (filter is_write (buffered s')))"
  proof (rule queued_distinct[OF q])
    show "distinct (map we_record (filter is_write (buffered s)))" using Q by (simp add: queue_inv_def)
    show "distinct (map we_record (filter is_write es))" unfolding fw using wl by (cases ws) auto
    have "we_record ` {e \<in> set es. is_write e} \<subseteq> {?n}" using w d by (auto simp: es)
    then show "we_record ` {e \<in> set es. is_write e} \<inter> we_record ` {e \<in> set (buffered s). is_write e} = {}"
      using bl by fastforce
  qed
  moreover have "distinct (map we_record (filter is_delete (buffered s')))"
  proof (rule queued_distinct[OF q])
    show "distinct (map we_record (filter is_delete (buffered s)))" using Q by (simp add: queue_inv_def)
    show "distinct (map we_record (filter is_delete es))" unfolding fw using wl by (cases ds) auto
    have "we_record ` {e \<in> set es. is_delete e} \<subseteq> ran (fk_hash_table s)" using w dl by (auto simp: es)
    then show "we_record ` {e \<in> set es. is_delete e} \<inter> we_record ` {e \<in> set (buffered s). is_delete e} = {}"
      using Q by (fastforce simp: queue_inv_def)
  qed
  moreover have "(is_write e \<or> is_delete e) \<and> (is_write e \<longrightarrow> r_sector (fk_heap s' (we_record e)) = 0) \<and>
      (is_delete e \<longrightarrow> we_record e \<notin> ran (fk_hash_table s') \<and> we_old_value_len e \<le> r_value_len (fk_heap s' (we_record e)))"
    if e: "e \<in> set (buffered s')" for e
  proof -
    consider "e \<in> set (buffered s)" | "e \<in> set ws" | "e \<in> set ds" using e queued_set[OF q] by (auto simp: es)
    then show ?thesis
    proof cases
      case 1
      have "we_record e \<notin> ran (fk_hash_table s')" if "is_delete e"
      proof -
        have "we_record e \<notin> ran (fk_hash_table s)" using Q 1 that by (simp add: queue_inv_def)
        with bl[OF 1] show ?thesis by (auto simp: ht ran_def)
      qed
      with 1 bl[OF 1] Q show ?thesis by (auto simp: heap queue_inv_def)
    next
      case 2
      with w[OF 2] fr show ?thesis by (simp add: heap fresh_record_def)
    next
      case 3
      have "we_record e \<noteq> ?n" using old[OF dl(1)[OF 3]] by simp
      moreover have "fk_hash_table s k \<noteq> Some (we_record e)" if "k \<noteq> key" for k
        using indexed_distinct[OF inv, of key "we_record e" k] d[OF 3] that by auto
      ultimately show ?thesis using d[OF 3] by (auto simp: heap ht ran_def split: if_splits)
    qed
  qed
  ultimately show ?thesis by (simp add: queue_inv_def)
qed

text \<open>What an operation with one of the three effects keeps.\<close>

lemma put_values:
  assumes "put_effect key r s s'" "store_inv rs s" "k \<noteq> key"
  shows "kv_values m s' k = kv_values m s k"
  using put_effect_abs[OF assms(1,2), of m] assms(3) by (simp add: kv_values_def)

lemma kv_ok_put:
  assumes ok: "kv_ok rs m s" and st: "stored key r s s'" and inv': "store_inv rs s'"
  shows "kv_ok rs m s'"
proof -
  note K = kv_okD[OF ok] and p = storedD(1)[OF st] and fr = storedD(2)[OF st]
  from st K(2) obtain es where pq: "put_queue key s es" and q: "queued es s s'" and np: "\<not> fk_persistency s \<longrightarrow> es = []"
    and cs: "cache_shrinks (if fk_persistency s \<and> fk_hash_table s key \<noteq> None then {key} else {}) s s'"
    unfolding stored_def by blast
  have P: "fk_heap s' = (fk_heap s)(fk_next s := r)" "fk_next s' = fk_next s + 1" "fk_hash_table s' = (fk_hash_table s)(key \<mapsto> fk_next s)"
    "fk_free_space s' = fk_free_space s" "fk_persistency s' = fk_persistency s" "fk_disk_io s' = fk_disk_io s"
    "fk_enable_caching s' = fk_enable_caching s" using p by (simp_all add: put_effect_def)
  have D: "\<forall>a\<in>live s. a < fk_next s" "disk_ok (fk_free_space s) (fk_heap s) (live s)"
    "\<not> fk_persistency s \<longrightarrow> buffered s = [] \<and> (\<forall>a\<in>ran (fk_hash_table s). r_sector (fk_heap s a) = 0)"
    using K(3) by (auto simp: disk_inv_def)
  have "we_record e = fk_next s \<or> we_record e \<in> live s" if "e \<in> set es" for e
    using pq that by (auto simp: put_queue_def entry_for_def intro: indexed_live)
  moreover have "ran (fk_hash_table s') \<subseteq> insert (fk_next s) (ran (fk_hash_table s))" by (auto simp: P ran_def)
  ultimately have sub: "live s' \<subseteq> insert (fk_next s) (live s)" using queued_set[OF q] by (auto simp: live_def)
  have "disk_ok (fk_free_space s') (fk_heap s') (insert (fk_next s) (live s))"
    unfolding P using disk_ok_add[OF D(2)] D(1) fr by (auto simp: fresh_record_def)
  then have "disk_ok (fk_free_space s') (fk_heap s') (live s')" using sub by (rule disk_ok_subset)
  moreover have "\<forall>a\<in>live s'. a < fk_next s'" using sub D(1) P(2) by fastforce
  moreover have "queue_inv s'" by (rule stored_queue_inv[OF K(3,1) p fr pq q])
  moreover have "buffered s' = [] \<and> (\<forall>a\<in>ran (fk_hash_table s'). r_sector (fk_heap s' a) = 0)" if "\<not> fk_persistency s'"
  proof -
    have e: "\<not> fk_persistency s" using that P by simp
    have "buffered s' = []" using q np D(3) e by (simp add: queued_def)
    moreover have "r_sector (fk_heap s' a) = 0" if "a \<in> ran (fk_hash_table s')" for a
      using that D(3) e fr by (auto simp: P ran_def fresh_record_def split: if_splits)
    ultimately show ?thesis by blast
  qed
  ultimately have "disk_inv s'" by (simp add: disk_inv_def)
  moreover have cok: "cache_ok (the (fk_cache s)) (fk_stats s) \<or> fk_cache s = None"
    using K(5) by (auto simp: cache_coherent_def split: option.splits)
  have "wired s'" by (rule queued_wired[OF q K(2) P(7) cs cok])
  moreover have "cache_coherent m s'"
  proof (rule coherent_shrinks[OF K(5) cs])
    fix k assume k: "k \<notin> (if fk_persistency s \<and> fk_hash_table s key \<noteq> None then {key} else {})"
      "fk_cache s \<noteq> None" "kv_values m s k \<noteq> None"
    have "k \<noteq> key" using k K(6) by (auto simp: kv_values_def kv_abs_def split: if_splits)
    then show "kv_values m s' k = kv_values m s k" by (rule put_values[OF p K(1)])
  qed
  moreover have "fk_cache s' \<noteq> None \<longrightarrow> fk_persistency s'" using cs K(6) P(5) by (auto simp: cache_shrinks_def)
  ultimately show ?thesis using inv' K(4) P by (simp add: kv_ok_def device_inv_def)
qed

lemma kv_ok_remove:
  assumes ok: "kv_ok rs m s" and rm: "removed key a s s'" and inv': "store_inv rs s'"
    and abs: "kv_abs m s' = (kv_abs m s)(key := None)"
  shows "kv_ok rs m s'"
proof -
  note K = kv_okD[OF ok]
  have P: "fk_hash_table s key = Some a" "fk_heap s' = (fk_heap s)(a := (fk_heap s a)\<lparr>r_refcount := 0\<rparr>)" "fk_next s' = fk_next s"
    "fk_hash_table s' = (fk_hash_table s)(key := None)" "fk_free_space s' = fk_free_space s" "fk_persistency s' = fk_persistency s"
    "fk_disk_io s' = fk_disk_io s" "fk_enable_caching s' = fk_enable_caching s"
    using rm by (simp_all add: removed_def)
  from rm K(2) obtain es where en: "entry_for Delete a (r_value_len (fk_heap s a)) es" and q: "queued es s s'"
    and np: "\<not> fk_persistency s \<longrightarrow> es = []" and cs: "cache_shrinks {key} s s'" unfolding removed_def by blast
  have D: "\<forall>a\<in>live s. a < fk_next s" "disk_ok (fk_free_space s) (fk_heap s) (live s)" "queue_inv s"
    "\<not> fk_persistency s \<longrightarrow> buffered s = [] \<and> (\<forall>a\<in>ran (fk_hash_table s). r_sector (fk_heap s a) = 0)"
    using K(3) by (auto simp: disk_inv_def)
  have e: "is_delete e \<and> \<not> is_write e \<and> we_record e = a \<and> we_old_value_len e = r_value_len (fk_heap s a)" if "e \<in> set es" for e
    using en that by (auto simp: entry_for_def is_delete_def is_write_def)
  have rsub: "ran (fk_hash_table s') \<subseteq> ran (fk_hash_table s)" by (auto simp: P(4) ran_def)
  have arn: "a \<in> ran (fk_hash_table s)" using P(1) by (rule ranI)
  have sub: "live s' \<subseteq> live s" using queued_set[OF q] e arn rsub by (auto simp: live_def)
  have "disk_ok (fk_free_space s) (fk_heap s') (live s)"
    by (rule disk_ok_heap[OF D(2)]) (use disk_okD(1)[OF D(2)] in \<open>auto simp: P(2) record_wf_def\<close>)
  then have "disk_ok (fk_free_space s') (fk_heap s') (live s')" using sub P(5) disk_ok_subset by metis
  moreover have "queue_inv s'"
  proof -
    have "distinct (map we_record (filter is_write (buffered s')))"
      by (rule queued_distinct[OF q]) (use D(3) e in \<open>auto simp: queue_inv_def filter_empty_conv intro!: distinct_map_filter\<close>)
    moreover have "distinct (map we_record (filter is_delete (buffered s')))"
    proof (rule queued_distinct[OF q])
      show "distinct (map we_record (filter is_delete (buffered s)))" using D(3) by (simp add: queue_inv_def)
      show "distinct (map we_record (filter is_delete es))" using en by (auto simp: entry_for_def)
      show "we_record ` {e \<in> set es. is_delete e} \<inter> we_record ` {e \<in> set (buffered s). is_delete e} = {}"
        using D(3) e arn by (fastforce simp: queue_inv_def)
    qed
    moreover have "a \<notin> ran (fk_hash_table s')" using indexed_distinct[OF K(1) P(1)] by (auto simp: P(4) ran_def split: if_splits)
    then have "(is_write x \<or> is_delete x) \<and> (is_write x \<longrightarrow> r_sector (fk_heap s' (we_record x)) = 0) \<and>
      (is_delete x \<longrightarrow> we_record x \<notin> ran (fk_hash_table s') \<and> we_old_value_len x \<le> r_value_len (fk_heap s' (we_record x)))"
      if "x \<in> set (buffered s')" for x
    proof -
      have f: "r_sector (fk_heap s' b) = r_sector (fk_heap s b)" "r_value_len (fk_heap s' b) = r_value_len (fk_heap s b)" for b
        by (simp_all add: P(2))
      show ?thesis
      proof (cases "x \<in> set es")
        case True
        with e[OF True] \<open>a \<notin> ran (fk_hash_table s')\<close> show ?thesis by (simp add: f)
      next
        case False
        with that queued_set[OF q] have "x \<in> set (buffered s)" by blast
        with D(3) rsub show ?thesis unfolding queue_inv_def f by blast
      qed
    qed
    ultimately show ?thesis by (simp add: queue_inv_def)
  qed
  moreover have "buffered s' = [] \<and> (\<forall>b\<in>ran (fk_hash_table s'). r_sector (fk_heap s' b) = 0)" if "\<not> fk_persistency s'"
    using q np D(4) that rsub by (auto simp: queued_def P(2,6))
  ultimately have "disk_inv s'" using sub D(1) P(3) by (auto simp: disk_inv_def)
  moreover have cok: "cache_ok (the (fk_cache s)) (fk_stats s) \<or> fk_cache s = None"
    using K(5) by (auto simp: cache_coherent_def split: option.splits)
  have "wired s'" by (rule queued_wired[OF q K(2) P(8) cs cok])
  moreover have "cache_coherent m s'"
    by (rule coherent_shrinks[OF K(5) cs]) (simp add: kv_values_def abs)
  moreover have "fk_cache s' \<noteq> None \<longrightarrow> fk_persistency s'" using cs K(6) P(6) by (auto simp: cache_shrinks_def)
  ultimately show ?thesis using inv' K(4) P by (simp add: kv_ok_def device_inv_def)
qed

lemma kv_ok_retime:
  assumes ok: "kv_ok rs m s" and a: "fk_hash_table s key = Some a" and e: "e < U64_LIM"
    and s': "s' = s\<lparr>fk_heap := (fk_heap s)(a := (fk_heap s a)\<lparr>r_ttl_expiry := e\<rparr>)\<rparr>"
  shows "kv_ok rs m s'"
proof -
  note K = kv_okD[OF ok]
  note R = retime_effect(1)[OF K(1) a e s'] retime_effect(2)[OF K(1) a e s', of m]
  have same: "live s' = live s" "buffered s' = buffered s" by (simp_all add: s' live_def buffered_def)
  have "disk_ok (fk_free_space s) (fk_heap s') (live s)"
    by (rule disk_ok_heap) (use K(3) e disk_okD(1) in \<open>auto simp: s' record_wf_def disk_inv_def\<close>)
  moreover have f: "r_sector (fk_heap s' b) = r_sector (fk_heap s b)" "r_value_len (fk_heap s' b) = r_value_len (fk_heap s b)" for b
    by (simp_all add: s')
  have g: "fk_hash_table s' = fk_hash_table s" "fk_next s' = fk_next s" "fk_free_space s' = fk_free_space s"
    "fk_persistency s' = fk_persistency s" by (simp_all add: s')
  ultimately have "disk_inv s'" using K(3) unfolding disk_inv_def queue_inv_def same f g by simp
  moreover have "cache_coherent m s'"
    by (rule coherent_shrinks[OF K(5) cache_shrinks_same]) (simp_all add: s'[symmetric] R(2) kv_values_def kv_abs_Some[OF a], simp_all add: s')
  ultimately show ?thesis using R(1) K by (simp add: kv_ok_def s' wired_def shards_ok_def device_inv_def)
qed

section \<open>Reading\<close>

lemma kv_ok_same_core:
  assumes ok: "kv_ok rs m s" and c: "same_core s s'" and wb: "fk_write_buffer s' = fk_write_buffer s"
    and coh: "cache_coherent m s'" and ca: "fk_cache s' = None \<longleftrightarrow> fk_cache s = None"
  shows "kv_ok rs m s'"
proof -
  note K = kv_okD[OF ok]
  have b: "buffered s' = buffered s" "shards_ok s' = shards_ok s" using wb by (simp_all add: buffered_def shards_ok_def)
  have "fk_heap s' = fk_heap s" "fk_hash_table s' = fk_hash_table s" "fk_next s' = fk_next s" "fk_free_space s' = fk_free_space s"
    "fk_persistency s' = fk_persistency s" "fk_disk_io s' = fk_disk_io s" "fk_enable_caching s' = fk_enable_caching s"
    using c by (simp_all add: same_core_def)
  with K b ca coh same_core_inv[OF c, of rs] show ?thesis
    by (auto simp: kv_ok_def wired_def disk_inv_def device_inv_def queue_inv_def live_def)
qed

section \<open>Flushing\<close>

lemma mset_concat_drain:
  "i < length xss \<Longrightarrow> mset (concat xss) = mset (xss ! i) + mset (concat (xss[i := []]))"
proof (induction xss arbitrary: i)
  case (Cons xs xss)
  then show ?case by (cases i) (auto simp: ac_simps)
qed simp

text \<open>The entries of one shard and the rest.\<close>

lemma shard_split:
  assumes "distinct (map f (filter P xs))" "mset xs = mset es + mset ys"
  shows "distinct (map f (filter P es))" "distinct (map f (filter P ys))"
    "e \<in> set es \<Longrightarrow> P e \<Longrightarrow> y \<in> set ys \<Longrightarrow> P y \<Longrightarrow> f e \<noteq> f y"
proof -
  have "mset (map f (filter P xs)) = mset (map f (filter P (es @ ys)))" using assms(2) by simp
  then have "distinct (map f (filter P (es @ ys)))" using assms(1) mset_eq_imp_distinct_iff by blast
  then show "distinct (map f (filter P es))" "distinct (map f (filter P ys))"
    "e \<in> set es \<Longrightarrow> P e \<Longrightarrow> y \<in> set ys \<Longrightarrow> P y \<Longrightarrow> f e \<noteq> f y" by auto
qed

lemma queue_entries_ok:
  assumes Q: "queue_inv s" and m: "mset (buffered s) = mset es + mset ys"
  shows "entries_ok (fk_heap s) es (live s)"
proof -
  have es: "set es \<subseteq> set (buffered s)" using m by (metis le_add1 mset_subset_eqD set_mset_mset subsetI mset_subset_eq_add_left)
  have "distinct (map we_record (filter is_write es))" "distinct (map we_record (filter is_delete es))"
    using shard_split(1)[OF _ m] Q by (auto simp: queue_inv_def)
  moreover have "filter (erasing (fk_heap s)) es = filter (erasing (fk_heap s)) (filter is_delete es)"
    by (induction es) (auto simp: erasing_def is_delete_def)
  ultimately have "distinct (map we_record (filter (erasing (fk_heap s)) es))" by (metis distinct_map_filter)
  with \<open>distinct (map we_record (filter is_write es))\<close> es Q show ?thesis
    by (auto simp: entries_ok_def live_def queue_inv_def erasing_def is_delete_def)
qed

context block_device
begin

text \<open>A batch of one shard, seen from the store.\<close>

lemma batch_kv_ok:
  assumes ok: "kv_ok rs (media w) s" and d: "fk_disk_io s = Some d" "fk_persistency s"
    and w: "quiet w" "steady d" and bud: "fsm_budget (2 * length es + k) (fk_free_space s)"
    and run: "process_write_batch os d es (shared s w) = (x, r)"
    and m: "mset (buffered s) = mset es + mset (buffered s')"
    and s': "fk_heap s' = x_heap x" "fk_free_space s' = x_free_space x" "batch_counters (x_stats x) (fk_stats s')"
      "fk_next s' = fk_next s" "fk_hash_table s' = fk_hash_table s" "fk_tree s' = fk_tree s" "fk_persistency s' = fk_persistency s"
      "fk_disk_io s' = fk_disk_io s" "fk_cache s' = fk_cache s" "wired s'"
  shows "kv_ok rs (media (x_world x)) s'" "kv_abs (media (x_world x)) s' = kv_abs (media w) s" "quiet (x_world x)"
    "fsm_budget k (fk_free_space s')"
proof -
  note K = kv_okD[OF ok]
  have D: "\<forall>a\<in>live s. a < fk_next s" "disk_ok (fk_free_space s) (fk_heap s) (live s)" and Q: "queue_inv s"
    using K(3) by (simp_all add: disk_inv_def)
  have dev: "fsm_inv (fk_free_space s)" "device_sectors (fk_free_space s) * BLOCK_SIZE < 2 ^ 63"
    using K(4) d(2) by (simp_all add: device_inv_def)
  have E: "entries_ok (fk_heap s) es (live s)" by (rule queue_entries_ok[OF Q m])
  have sh: "x_heap (shared s w) = fk_heap s" "x_free_space (shared s w) = fk_free_space s" "x_world (shared s w) = w"
    "x_stats (shared s w) = fk_stats s" by (simp_all add: shared_def)
  note P = process_batch_keeps[OF run, unfolded sh, OF w dev(1) bud dev(2) D(2) E]
  from P(5) obtain cl where cl: "x_heap x = fold settle cl (fk_heap s)" by blast
  note F = fold_settle_other_fields[of cl "fk_heap s", folded cl]
  have sub: "set es \<subseteq> set (buffered s)" "set (buffered s') \<subseteq> set (buffered s)"
    using arg_cong[OF m, of set_mset] by auto
  have er: "\<exists>e\<in>set es. is_delete e \<and> r_sector (fk_heap s a) \<noteq> 0 \<and> a = we_record e" if "a \<in> erased (fk_heap s) es" for a
    using that by (auto simp: erased_def erasing_def is_delete_def)
  have dels: "distinct (map we_record (filter is_delete (buffered s)))" "distinct (map we_record (filter is_write (buffered s)))"
    using Q by (simp_all add: queue_inv_def)
  have ent: "(is_write e \<or> is_delete e) \<and> (is_write e \<longrightarrow> r_sector (fk_heap s (we_record e)) = 0) \<and>
      (is_delete e \<longrightarrow> we_record e \<notin> ran (fk_hash_table s) \<and> we_old_value_len e \<le> r_value_len (fk_heap s (we_record e)))"
    if "e \<in> set (buffered s)" for e using Q that by (simp add: queue_inv_def)
  have sub_live: "live s' \<subseteq> live s - erased (fk_heap s) es"
  proof
    fix a assume a: "a \<in> live s'"
    then have "a \<in> live s" using sub(2) by (auto simp: live_def s')
    moreover have "a \<notin> erased (fk_heap s) es"
    proof
      assume "a \<in> erased (fk_heap s) es"
      then obtain e where e: "e \<in> set es" "is_delete e" "r_sector (fk_heap s a) \<noteq> 0" "a = we_record e" using er by blast
      have "a \<notin> ran (fk_hash_table s)" using ent[of e] e sub(1) by blast
      with a obtain y where y: "y \<in> set (buffered s')" "we_record y = a" by (auto simp: live_def s')
      have "is_delete y" using ent[of y] y sub(2) e(3) by auto
      with shard_split(3)[OF dels(1) m e(1,2) y(1)] y(2) e(4) show False by simp
    qed
    ultimately show "a \<in> live s - erased (fk_heap s) es" by blast
  qed
  have val: "value_of (media (x_world x)) (fk_heap s' a) = value_of (media w) (fk_heap s a)" if "a \<in> live s'" for a
    using P(4) sub_live that s'(1) by auto
  have dok: "disk_ok (fk_free_space s') (fk_heap s') (live s')" using P(3) sub_live unfolding s' by (rule disk_ok_subset)
  have hf: "r_key (fk_heap s' a) = r_key (fk_heap s a)" "r_timestamp (fk_heap s' a) = r_timestamp (fk_heap s a)"
    "r_ttl_expiry (fk_heap s' a) = r_ttl_expiry (fk_heap s a)" "r_value_len (fk_heap s' a) = r_value_len (fk_heap s a)"
    "r_refcount (fk_heap s' a) = r_refcount (fk_heap s a)" for a using F[of a] by (simp_all add: s')
  have idx: "a \<in> live s'" if "fk_hash_table s k = Some a" for k a using that s'(5) by (auto simp: live_def intro: ranI)
  show abs: "kv_abs (media (x_world x)) s' = kv_abs (media w) s"
  proof (rule ext)
    fix k show "kv_abs (media (x_world x)) s' k = kv_abs (media w) s k"
      using val idx[of k] hf s'(5) by (cases "fk_hash_table s k") (auto simp: kv_abs_def entry_of_def)
  qed
  have keep: "fk_heap s' (we_record y) = fk_heap s (we_record y)" if "y \<in> set (buffered s')" "is_write y" for y
    unfolding s'(1)
  proof (rule P(7))
    show "we_record y \<notin> we_record ` {e \<in> set es. pending (fk_heap s) e}"
      using shard_split(3)[OF dels(2) m _ _ that] by (fastforce simp: pending_def)
  qed
  have "queue_inv s'"
    unfolding queue_inv_def
  proof (intro conjI ballI impI)
    show "distinct (map we_record (filter is_write (buffered s')))" "distinct (map we_record (filter is_delete (buffered s')))"
      using shard_split(2)[OF dels(2) m] shard_split(2)[OF dels(1) m] .
    fix y assume y: "y \<in> set (buffered s')"
    with ent[of y] sub(2) have q: "(is_write y \<or> is_delete y) \<and> (is_write y \<longrightarrow> r_sector (fk_heap s (we_record y)) = 0) \<and>
      (is_delete y \<longrightarrow> we_record y \<notin> ran (fk_hash_table s) \<and> we_old_value_len y \<le> r_value_len (fk_heap s (we_record y)))" by blast
    then show "is_write y \<or> is_delete y" by blast
    show "is_write y \<Longrightarrow> r_sector (fk_heap s' (we_record y)) = 0" using q keep[OF y] by simp
    show "is_delete y \<Longrightarrow> we_record y \<notin> ran (fk_hash_table s')" "is_delete y \<Longrightarrow> we_old_value_len y \<le> r_value_len (fk_heap s' (we_record y))"
      using q hf(4) s'(5) by simp_all
  qed
  with dok D(1) sub_live have dinv: "disk_inv s'" using d(2) by (auto simp: disk_inv_def s'(4,7))
  have bc: "batch_counters (fk_stats s) (fk_stats s')"
    using process_batch_counters[OF run] s'(3) by (simp add: sh batch_counters_def)
  have "rec_bytes rs s' = rec_bytes rs s" by (rule ext) (simp add: rec_bytes_def calculate_size_of hf)
  moreover have "record_indexed s' k a" if "fk_hash_table s k = Some a" for k a
    using inv_indexed[OF K(1) that] disk_okD(1)[OF dok idx[OF that]] by (simp add: record_indexed_def hf s'(4))
  ultimately have sinv: "store_inv rs s'" using K(1) bc by (simp add: store_inv_def s' batch_counters_def)
  have "cache_coherent (media (x_world x)) s'"
    by (rule coherent_shrinks[OF K(5) cache_shrinks_same]) (use s' bc in \<open>simp_all add: batch_counters_def kv_values_def abs\<close>)
  moreover have "device_inv s'" using K(4) P(2,6) by (simp add: device_inv_def s')
  ultimately show "kv_ok rs (media (x_world x)) s'" using sinv dinv s'(7,9,10) K(6) by (simp add: kv_ok_def)
  show "quiet (x_world x)" "fsm_budget k (fk_free_space s')" using P(1,8) by (simp_all add: s'(2))
qed

end

section \<open>Metadata and workers\<close>

text \<open>The reserved blocks hold no record.\<close>

lemma kv_ok_media:
  assumes ok: "kv_ok rs m s" and eq: "\<And>i. METADATA_BLOCK_SIZE * BLOCK_SIZE \<le> i \<Longrightarrow> m' i = m i"
  shows "kv_ok rs m' s" "kv_abs m' s = kv_abs m s"
proof -
  note K = kv_okD[OF ok]
  have D: "disk_ok (fk_free_space s) (fk_heap s) (live s)" using K(3) by (simp add: disk_inv_def)
  have v: "value_of m' (fk_heap s a) = value_of m (fk_heap s a)" if a: "a \<in> live s" for a
  proof (cases "r_value (fk_heap s a)")
    case None
    have on: "r_sector (fk_heap s a) \<noteq> 0" using disk_okD(2)[OF D a] None by auto
    have "METADATA_BLOCK_SIZE * BLOCK_SIZE \<le> r_sector (fk_heap s a) * BLOCK_SIZE"
      using disk_okD(3)[OF D a on] by (rule mult_le_mono1)
    then have "value_at m' (fk_heap s a) = value_at m (fk_heap s a)" by (intro value_at_cong eq) linarith
    with None show ?thesis by (simp add: value_of_def)
  qed (simp add: value_of_def)
  show abs: "kv_abs m' s = kv_abs m s"
  proof (rule ext)
    fix k show "kv_abs m' s k = kv_abs m s k"
      using v indexed_live[of s k] by (cases "fk_hash_table s k") (auto simp: kv_abs_def entry_of_def)
  qed
  from ok show "kv_ok rs m' s" by (simp add: kv_ok_def cache_coherent_def kv_values_def abs split: option.splits)
qed

text \<open>Only the indexes, the records, the queues, the cache and the allocator matter.\<close>

lemma kv_ok_metadata: "kv_ok rs m (s\<lparr>fk_metadata := md\<rparr>) = kv_ok rs m s" "kv_abs m (s\<lparr>fk_metadata := md\<rparr>) = kv_abs m s"
proof -
  let ?s = "s\<lparr>fk_metadata := md\<rparr>"
  have c: "same_core s ?s" by (simp add: same_core_def)
  show "kv_abs m ?s = kv_abs m s" by (rule same_core_abs[OF c])
  have "cache_coherent m ?s = cache_coherent m s" by (rule coherent_same_core[OF c]) simp_all
  moreover have "buffered ?s = buffered s" "shards_ok ?s = shards_ok s" by (simp_all add: buffered_def shards_ok_def)
  ultimately show "kv_ok rs m ?s = kv_ok rs m s"
    using same_core_inv[OF c, of rs] by (simp add: kv_ok_def wired_def disk_inv_def device_inv_def queue_inv_def live_def)
qed

context block_device
begin

lemma write_metadata_frame:
  assumes "write_metadata os d bs w = (w', r)"
  shows "quiet w' = quiet w" "BLOCK_SIZE \<le> i \<Longrightarrow> media w' i = media w i"
proof -
  have "quiet w' = quiet w \<and> (\<forall>i. BLOCK_SIZE \<le> i \<longrightarrow> media w' i = media w i)"
  proof (cases "BLOCK_SIZE < length bs")
    case False
    let ?b = "bs @ replicate (BLOCK_SIZE - length bs) 0"
    obtain w1 q where w1: "write_sectors_sync os d METADATA_BLOCK ?b w = (w1, q)" by fastforce
    have z: "METADATA_BLOCK * BLOCK_SIZE < 2 ^ 63" by (simp add: kv_const)
    note W = write_sectors_result[OF w1 z]
    have len: "length ?b = BLOCK_SIZE" using False by simp
    have W3: "\<forall>i. BLOCK_SIZE \<le> i \<longrightarrow> media w1 i = media w i" using W(3) len by (simp add: kv_const)
    have run: "try_bind (w1, q) (\<lambda>u w. disk_flush os w) = (w', r)" using assms False w1 by (simp add: write_metadata_def Let_def)
    show ?thesis
    proof (cases q)
      case (Ok u)
      with run disk_flush_result[of w1 w' r] W(1) W3 show ?thesis by simp
    qed (use run W(1) W3 in simp_all)
  qed (use assms in \<open>simp add: write_metadata_def\<close>)
  then show "quiet w' = quiet w" "BLOCK_SIZE \<le> i \<Longrightarrow> media w' i = media w i" by simp_all
qed

lemma save_metadata_kv_ok:
  assumes ok: "kv_ok rs (media w) s" and os: "e_os env = os" and run: "save_metadata env d s w = (s', w')"
  shows "kv_ok rs (media w') s'" "kv_abs (media w') s' = kv_abs (media w) s" "quiet w' = quiet w"
proof -
  define md where "md = stamp_metadata env s"
  obtain w1 r1 where w1: "write_metadata os d (as_bytes md) w = (w1, r1)" by fastforce
  obtain w2 r2 where w2: "disk_flush os w1 = (w2, r2)" by fastforce
  have eq: "s' = s\<lparr>fk_metadata := md\<rparr>" "w' = w2" using run os w1 w2 by (auto simp: save_metadata_def md_def Let_def)
  note W = write_metadata_frame[OF w1] and F = disk_flush_result[OF w2]
  have "media w' i = media w i" if "METADATA_BLOCK_SIZE * BLOCK_SIZE \<le> i" for i
    using W(2)[of i] F(1) that by (simp add: eq kv_const)
  from kv_ok_media[OF ok this] show "kv_ok rs (media w') s'" "kv_abs (media w') s' = kv_abs (media w) s"
    by (simp_all add: eq(1) kv_ok_metadata)
  show "quiet w' = quiet w" using W(1) F(2) eq by simp
qed

text \<open>Draining a shard and processing its entries, whatever comes of it.\<close>

lemma drain_shard_kv_ok:
  assumes ok: "kv_ok rs (media w) s" and p: "fk_persistency s" and w: "quiet w" "steady d"
    and bud: "fsm_budget (2 * length (buffered s) + k) (fk_free_space s)"
    and wb: "fk_write_buffer s = Some wb" "fk_disk_io s = Some d" "i < length (wb_shards wb)"
      "map sh_buffer (wb_shards wb1) = (map sh_buffer (wb_shards wb))[i := []]"
    and run: "process_write_batch os d (sh_buffer (wb_shards wb ! i)) (shared s w) = (x1, r)"
    and x: "x_heap x = x_heap x1" "x_free_space x = x_free_space x1" "x_world x = x_world x1" "batch_counters (x_stats x1) (x_stats x)"
    and s': "s' = put_shared wb1 x s"
  shows "kv_ok rs (media (x_world x)) s'" "kv_abs (media (x_world x)) s' = kv_abs (media w) s" "quiet (x_world x)"
    "fsm_budget (2 * length (buffered s') + k) (fk_free_space s')"
proof -
  let ?es = "sh_buffer (wb_shards wb ! i)"
  have m: "mset (buffered s) = mset ?es + mset (buffered s')"
    using mset_concat_drain[of i "map sh_buffer (wb_shards wb)"] wb by (simp add: buffered_def s' put_shared_def)
  have "length (buffered s) = length ?es + length (buffered s')" using arg_cong[OF m, of size] by simp
  then have bud': "fsm_budget (2 * length ?es + (2 * length (buffered s') + k)) (fk_free_space s)"
    using bud by (simp add: algebra_simps)
  have "wb_shards wb1 \<noteq> []" using arg_cong[OF wb(4), of length] wb(3) by auto
  then have "wired s'" using kv_okD(2)[OF ok] by (simp add: wired_def shards_ok_def s' put_shared_def)
  with batch_kv_ok[OF ok wb(2) p w bud' run m] x
  show "kv_ok rs (media (x_world x)) s'" "kv_abs (media (x_world x)) s' = kv_abs (media w) s" "quiet (x_world x)"
    "fsm_budget (2 * length (buffered s') + k) (fk_free_space s')"
    by (simp_all add: s' put_shared_def)
qed

text \<open>One worker serving one request; the flush may fail.\<close>

lemma run_worker_kv_ok:
  assumes ok: "kv_ok rs (media w) s" and os: "e_os env = os" and p: "fk_persistency s"
    and w: "quiet w" "\<And>d. fk_disk_io s = Some d \<Longrightarrow> steady d"
    and bud: "fsm_budget (2 * length (buffered s) + k) (fk_free_space s)"
    and run: "run_worker env i s w = ((s', w'), r)"
  shows "kv_ok rs (media w') s'" "kv_abs (media w') s' = kv_abs (media w) s" "quiet w'"
    "fk_persistency s'" "fk_disk_io s' = fk_disk_io s" "fsm_budget (2 * length (buffered s') + k) (fk_free_space s')"
proof -
  have "kv_ok rs (media w') s' \<and> kv_abs (media w') s' = kv_abs (media w) s \<and> quiet w' \<and> fk_persistency s' \<and> fk_disk_io s' = fk_disk_io s \<and>
      fsm_budget (2 * length (buffered s') + k) (fk_free_space s')"
  proof (cases "fk_write_buffer s")
    case None
    with run ok w(1) p bud show ?thesis by (auto simp: run_worker_def split: option.splits)
  next
    case (Some wb)
    from kv_okD(4)[OF ok] p obtain d where d: "fk_disk_io s = Some d" by (auto simp: device_inv_def)
    obtain wb' x r' where ws: "worker_serve os d i (wb, shared s w) = ((wb', x), r')" by (metis prod.collapse)
    have eq: "s' = put_shared wb' x s" "w' = x_world x" using run Some d ws os by (auto simp: run_worker_def)
    show ?thesis
    proof (cases "i < length (wb_shards wb)")
      case False
      then have "wb' = wb" "x = shared s w" using ws by (simp_all add: worker_serve_def)
      then have "s' = s" "w' = w" using eq Some by (simp_all add: put_shared_def shared_def)
      with ok w(1) p bud show ?thesis by simp
    next
      case True
      let ?es = "sh_buffer (wb_shards wb ! i)"
      obtain x1 r1 where pb: "process_write_batch os d ?es (shared s w) = (x1, r1)" by fastforce
      have wb': "map sh_buffer (wb_shards wb') = (map sh_buffer (wb_shards wb))[i := []]" and x: "x = (if ?es = [] then x1 else count_flush x1)"
        using ws True pb by (auto simp: worker_serve_def drain_entries_def Let_def map_update split: if_splits)
      have "x_heap x = x_heap x1" "x_free_space x = x_free_space x1" "x_world x = x_world x1" "batch_counters (x_stats x1) (x_stats x)"
        by (simp_all add: x count_flush_def batch_counters_def)
      from drain_shard_kv_ok[OF ok p w(1) w(2)[OF d] bud Some d True wb' pb this eq(1)] eq p show ?thesis
        by (simp add: put_shared_def)
    qed
  qed
  then show "kv_ok rs (media w') s'" "kv_abs (media w') s' = kv_abs (media w) s" "quiet w'"
    "fk_persistency s'" "fk_disk_io s' = fk_disk_io s" "fsm_budget (2 * length (buffered s') + k) (fk_free_space s')" by auto
qed

text \<open>A forced flush: every worker in turn.\<close>

lemma serve_all_kv_ok:
  fixes env :: "'w env"
  assumes "kv_ok rs (media w) s" "fk_persistency s" "quiet w" "fsm_budget (2 * length (buffered s) + k) (fk_free_space s)"
    and "fk_write_buffer s = Some wb" "fk_disk_io s = Some d" and os: "e_os env = os" and st: "steady d"
    and "serve_all os d order (wb, shared s w) = ((wb', x), answers)"
  shows "kv_ok rs (media (x_world x)) (put_shared wb' x s) \<and> kv_abs (media (x_world x)) (put_shared wb' x s) = kv_abs (media w) s \<and>
    quiet (x_world x)"
  using assms(1-6,9)
proof (induction order arbitrary: s w wb answers)
  case Nil
  then have "put_shared wb' x s = s" "x_world x = w" by (auto simp: put_shared_def shared_def)
  with Nil.prems show ?case by simp
next
  case (Cons i order)
  obtain wb1 x1 r where ws: "worker_serve os d i (wb, shared s w) = ((wb1, x1), r)" by (metis prod.collapse)
  obtain answers' where rest: "serve_all os d order (wb1, x1) = ((wb', x), answers')"
    using Cons.prems(7) ws by (auto split: prod.splits)
  let ?s = "put_shared wb1 x1 s" and ?w = "x_world x1"
  have run: "run_worker env i s w = ((?s, ?w), r)" using Cons.prems(5,6) ws os by (simp add: run_worker_def)
  have "steady y" if "fk_disk_io s = Some y" for y using that st Cons.prems(6) by simp
  note R = run_worker_kv_ok[OF Cons.prems(1) os Cons.prems(2,3) this Cons.prems(4) run]
  have "shared ?s ?w = x1" "put_shared wb' x ?s = put_shared wb' x s" "fk_write_buffer ?s = Some wb1"
    by (simp_all add: shared_def put_shared_def)
  with Cons.IH[OF R(1,4,3,6), of wb1 answers'] R(2,5) Cons.prems(6) rest show ?case by simp
qed

lemma flush_all_kv_ok:
  assumes ok: "kv_ok rs (media w) s" and os: "e_os env = os" and w: "quiet w" "\<And>d. fk_disk_io s = Some d \<Longrightarrow> steady d"
    and bud: "fk_persistency s \<Longrightarrow> fsm_budget (2 * length (buffered s)) (fk_free_space s)"
    and run: "flush_all env order s w = (s', w')"
  shows "kv_ok rs (media w') s'" "kv_abs (media w') s' = kv_abs (media w) s" "quiet w'" "fk_disk_io s' = fk_disk_io s"
proof -
  obtain s1 w1 where b: "flush_buffer env order s w = (s1, w1)" by fastforce
  have "kv_ok rs (media w') s' \<and> kv_abs (media w') s' = kv_abs (media w) s \<and> quiet w' \<and> fk_disk_io s' = fk_disk_io s"
  proof (cases "fk_persistency s")
    case False
    with run ok w(1) show ?thesis by (simp add: flush_all_def)
  next
    case p: True
    from kv_okD(4)[OF ok] p obtain d where d: "fk_disk_io s = Some d" by (auto simp: device_inv_def)
    have F: "kv_ok rs (media w1) s1 \<and> kv_abs (media w1) s1 = kv_abs (media w) s \<and> quiet w1 \<and> fk_disk_io s1 = Some d"
    proof (cases "fk_write_buffer s")
      case None
      with b ok w(1) d show ?thesis by (simp add: flush_buffer_def)
    next
      case (Some wb)
      obtain wb' x answers where sa: "serve_all os d order (wb, shared s w) = ((wb', x), answers)" by (metis prod.collapse)
      have s1: "s1 = put_shared wb' x s" "w1 = x_world x"
        using b Some d sa os by (simp_all add: flush_buffer_def force_flush_def Let_def)
      have "fsm_budget (2 * length (buffered s) + 0) (fk_free_space s)" using bud[OF p] by simp
      from serve_all_kv_ok[OF ok p w(1) this Some d os w(2)[OF d] sa] s1 d show ?thesis by (simp add: put_shared_def)
    qed
    have sv: "save_metadata env d s1 w1 = (s', w')" using run p b F by (simp add: flush_all_def)
    have "fk_disk_io s' = fk_disk_io s1" using sv by (auto simp: save_metadata_def Let_def)
    with save_metadata_kv_ok[of rs w1 s1 env d s' w'] sv F os d show ?thesis by simp
  qed
  then show "kv_ok rs (media w') s'" "kv_abs (media w') s' = kv_abs (media w) s" "quiet w'" "fk_disk_io s' = fk_disk_io s" by auto
qed

text \<open>Closing: the last drain of each worker, then the buffer and the ring go away.\<close>

lemma finish_kv_ok:
  assumes "kv_ok rs (media w) s" "fk_persistency s" "quiet w" "fsm_budget (2 * length (buffered s) + k) (fk_free_space s)"
    and "fk_write_buffer s = Some wb" "fk_disk_io s = Some d" "wb_shutdown wb" and st: "steady d"
    and "fold (worker_finish os d) order (wb, shared s w) = (wb', x)"
  shows "kv_ok rs (media (x_world x)) (put_shared wb' x s) \<and> kv_abs (media (x_world x)) (put_shared wb' x s) = kv_abs (media w) s \<and>
    quiet (x_world x)"
  using assms(1-7,9)
proof (induction order arbitrary: s w wb)
  case Nil
  then have "put_shared wb' x s = s" "x_world x = w" by (auto simp: put_shared_def shared_def)
  with Nil.prems show ?case by simp
next
  case (Cons i order)
  obtain wb1 x1 where f: "worker_finish os d i (wb, shared s w) = (wb1, x1)" by fastforce
  have rest: "fold (worker_finish os d) order (wb1, x1) = (wb', x)" using Cons.prems(8) f by simp
  let ?s = "put_shared wb1 x1 s" and ?w = "x_world x1"
  have sd: "wb_shutdown wb1"
    using f Cons.prems(7) by (auto simp: worker_finish_def drain_entries_def Let_def split: if_splits)
  have "kv_ok rs (media ?w) ?s \<and> kv_abs (media ?w) ?s = kv_abs (media w) s \<and> quiet ?w \<and>
    fsm_budget (2 * length (buffered ?s) + k) (fk_free_space ?s)"
  proof (cases "i < length (wb_shards wb)")
    case False
    then have "?s = s" "?w = w" using f Cons.prems(5) by (auto simp: worker_finish_def put_shared_def shared_def)
    with Cons.prems show ?thesis by simp
  next
    case True
    obtain x2 r where pb: "process_write_batch os d (sh_buffer (wb_shards wb ! i)) (shared s w) = (x2, r)" by fastforce
    have wb1: "map sh_buffer (wb_shards wb1) = (map sh_buffer (wb_shards wb))[i := []]" and x: "x1 = x2"
      using f True pb Cons.prems(7) by (auto simp: worker_finish_def drain_entries_def Let_def map_update split: if_splits)
    from drain_shard_kv_ok[OF Cons.prems(1-3) st Cons.prems(4-6) True wb1 pb, of x1] show ?thesis
      by (simp add: x batch_counters_def)
  qed
  moreover have "shared ?s ?w = x1" "put_shared wb' x ?s = put_shared wb' x s" "fk_write_buffer ?s = Some wb1"
    "fk_persistency ?s" "fk_disk_io ?s = Some d" using Cons.prems(2,6) by (simp_all add: shared_def put_shared_def)
  ultimately show ?case using Cons.IH[of ?w ?s wb1] sd rest by simp
qed

end

text \<open>Without its queue a store keeps what it holds; so it does when a flag of the buffer changes.\<close>

lemma kv_ok_unbuffered:
  assumes ok: "kv_ok rs m s"
  shows "kv_ok rs m (s\<lparr>fk_write_buffer := None\<rparr>)" "kv_abs m (s\<lparr>fk_write_buffer := None\<rparr>) = kv_abs m s"
proof -
  let ?s = "s\<lparr>fk_write_buffer := None\<rparr>"
  note K = kv_okD[OF ok]
  have c: "same_core s ?s" by (simp add: same_core_def)
  show "kv_abs m ?s = kv_abs m s" by (rule same_core_abs[OF c])
  have "live ?s \<subseteq> live s" by (auto simp: live_def buffered_def)
  with K(3) have "disk_inv ?s" using disk_ok_subset[of "fk_free_space s" "fk_heap s" "live s" "live ?s"]
    by (auto simp: disk_inv_def queue_inv_def buffered_def)
  moreover have "cache_coherent m ?s" using K(5) coherent_same_core[OF c, of m] by simp
  ultimately show "kv_ok rs m ?s" using K same_core_inv[OF c, of rs] by (simp add: kv_ok_def wired_def device_inv_def shards_ok_def)
qed

lemma kv_ok_device:
  assumes "fk_disk_io s \<noteq> None"
  shows "kv_ok rs m (s\<lparr>fk_disk_io := Some d\<rparr>) = kv_ok rs m s" "kv_abs m (s\<lparr>fk_disk_io := Some d\<rparr>) = kv_abs m s"
proof -
  let ?s = "s\<lparr>fk_disk_io := Some d\<rparr>"
  show a: "kv_abs m ?s = kv_abs m s" by (rule ext) (simp add: kv_abs_def)
  have "store_inv rs ?s = store_inv rs s" by (simp add: store_inv_def record_indexed_def rec_bytes_def[abs_def] cong: option.case_cong)
  moreover have "kv_values m ?s = kv_values m s" by (simp add: kv_values_def a)
  then have "cache_coherent m ?s = cache_coherent m s" by (simp add: cache_coherent_def split: option.split)
  ultimately show "kv_ok rs m ?s = kv_ok rs m s" using assms
    by (simp add: kv_ok_def wired_def shards_ok_def disk_inv_def device_inv_def queue_inv_def live_def buffered_def)
qed

lemma kv_ok_flag:
  assumes "map sh_buffer (wb_shards wb1) = map sh_buffer (wb_shards wb)" "fk_write_buffer s = Some wb"
  shows "kv_ok rs m (s\<lparr>fk_ttl := t, fk_write_buffer := Some wb1\<rparr>) = kv_ok rs m s"
    "kv_abs m (s\<lparr>fk_ttl := t, fk_write_buffer := Some wb1\<rparr>) = kv_abs m s"
    "buffered (s\<lparr>fk_ttl := t, fk_write_buffer := Some wb1\<rparr>) = buffered s"
proof -
  let ?s = "s\<lparr>fk_ttl := t, fk_write_buffer := Some wb1\<rparr>"
  have c: "same_core s ?s" by (simp add: same_core_def)
  show "kv_abs m ?s = kv_abs m s" by (rule same_core_abs[OF c])
  show b: "buffered ?s = buffered s" using assms by (simp add: buffered_def)
  have "wb_shards wb1 = [] \<longleftrightarrow> wb_shards wb = []" using assms(1) by (metis list.map_disc_iff)
  then have "shards_ok ?s = shards_ok s" using assms(2) by (simp add: shards_ok_def)
  moreover have "cache_coherent m ?s = cache_coherent m s" by (rule coherent_same_core[OF c]) simp_all
  ultimately show "kv_ok rs m ?s = kv_ok rs m s" using same_core_inv[OF c, of rs] b
    by (simp add: kv_ok_def wired_def disk_inv_def device_inv_def queue_inv_def live_def)
qed

context block_device
begin

lemma drop_kv_ok:
  assumes ok: "kv_ok rs (media w) s" and os: "e_os env = os" and p: "fk_persistency s"
    and wb: "fk_write_buffer s = Some wb" "fk_disk_io s = Some d" and w: "quiet w" "steady d"
    and bud: "fsm_budget (2 * length (buffered s)) (fk_free_space s)"
    and run: "kv_drop env order s w = (s', w')"
  shows "kv_ok rs (media w') s'" "kv_abs (media w') s' = kv_abs (media w) s" "fk_write_buffer s' = None"
proof -
  let ?wb = "initiate_shutdown wb"
  let ?s1 = "s\<lparr>fk_ttl := None, fk_write_buffer := Some ?wb\<rparr>"
  have fl: "map sh_buffer (wb_shards ?wb) = map sh_buffer (wb_shards wb)" by (simp add: initiate_shutdown_def)
  obtain s2 w2 where sv: "save_metadata env d ?s1 w = (s2, w2)" by fastforce
  have s2: "s2 = ?s1\<lparr>fk_metadata := stamp_metadata env ?s1\<rparr>" using sv by (simp add: save_metadata_def Let_def)
  have ok1: "kv_ok rs (media w) ?s1" using ok by (simp add: kv_ok_flag(1)[OF fl wb(1)])
  note S = save_metadata_kv_ok[OF ok1 os sv]
  have q2: "quiet w2" using S w(1) by simp
  have b2: "fsm_budget (2 * length (buffered s2) + 0) (fk_free_space s2)"
    using bud kv_ok_flag(3)[OF fl wb(1), of None] by (simp add: s2 buffered_def)
  have f2: "fk_write_buffer s2 = Some ?wb" "fk_disk_io s2 = Some d" "fk_persistency s2" using p wb by (simp_all add: s2)
  obtain wb' x where fin: "fold (worker_finish os d) order (?wb, shared s2 w2) = (wb', x)" by fastforce
  have sd: "wb_shutdown ?wb" "?wb\<lparr>wb_shutdown := True\<rparr> = ?wb" by (simp_all add: initiate_shutdown_def)
  note F = finish_kv_ok[OF S(1) f2(3) q2 b2 f2(1,2) sd(1) w(2) fin]
  obtain w4 d' where sh: "disk_shutdown os d (x_world x) = (w4, d')" by fastforce
  have m4: "media w4 = media (x_world x)" using disk_shutdown_media[OF sh] F by simp
  let ?s3 = "(put_shared wb' x s2)\<lparr>fk_write_buffer := None\<rparr>"
  have "s' = ?s3\<lparr>fk_disk_io := Some d'\<rparr>" "w' = w4"
    using run wb p sv f2 fin sd sh os by (auto simp: kv_drop_def complete_shutdown_def Let_def put_shared_def)
  moreover have "kv_ok rs (media w4) ?s3" "kv_abs (media w4) ?s3 = kv_abs (media w) s"
    using kv_ok_unbuffered[of rs "media (x_world x)" "put_shared wb' x s2"] F S(2) kv_ok_flag(2)[OF fl wb(1), of "media w" None]
    by (simp_all add: m4)
  ultimately show "kv_ok rs (media w') s'" "kv_abs (media w') s' = kv_abs (media w) s" "fk_write_buffer s' = None"
    using kv_ok_device[where s = ?s3 and m = "media w4" and d = d'] by (simp_all add: f2 put_shared_def)
qed

end

end
