(* ===== verification/Store_Run.thy ===== *)
theory Store_Run
  imports Store_Disk
begin

text \<open>
  Runs of a store: any sequence of calls of its operations, of workers serving the write buffer,
  whose flushes may fail, of forced flushes and of metadata writes. Beside the state a run carries
  the map of the abstract specification, and the two stay in step.
\<close>

section \<open>Steps\<close>

definition env_ok :: "'w os \<Rightarrow> nat \<Rightarrow> 'w env \<Rightarrow> nat option \<Rightarrow> bool" where
  "env_ok os rs env ts \<longleftrightarrow> e_os env = os \<and> e_rec_struct env = rs \<and> e_now env < U64_LIM \<and> (\<forall>t. ts = Some t \<longrightarrow> t < U64_LIM)"

type_synonym 'w kv_state = "fun_kv \<times> 'w \<times> (bytes \<rightharpoonup> kv_entry)"

inductive kv_step :: "'w os \<Rightarrow> nat \<Rightarrow> 'w kv_state \<Rightarrow> 'w kv_state \<Rightarrow> bool" for os rs where
  insert: "env_ok os rs env ts \<Longrightarrow>
    st_memory_usage (fk_stats s) + calculate_record_size rs (length key) (length value) < U64_LIM \<Longrightarrow>
    insert_internal env key value ts ttl s = (s', r) \<Longrightarrow>
    kv_step os rs (s, w, A) (s', w, fst (spec_insert (fk_enable_ttl s) (memory_room rs key value s) key value (timestamp_or_now env ts) ttl A))"
| delete: "env_ok os rs env ts \<Longrightarrow> delete_with_timestamp env key ts s = (s', r) \<Longrightarrow>
    kv_step os rs (s, w, A) (s', w, fst (spec_delete key (timestamp_or_now env ts) A))"
| retime: "env_ok os rs env None \<Longrightarrow> update_ttl env key ttl s = (s', r) \<Longrightarrow>
    kv_step os rs (s, w, A) (s', w, fst (spec_update_ttl (fk_enable_ttl s) (e_now env) key ttl A))"
| increment: "env_ok os rs env ts \<Longrightarrow> length key < 2 ^ 16 \<Longrightarrow>
    atomic_increment_internal env key delta ts ttl s w = ((s', w'), r) \<Longrightarrow>
    kv_step os rs (s, w, A)
      (s', w', if (\<exists>e. r = Err e \<and> device_error e) then A else fst (spec_increment key delta (timestamp_or_now env ts) ttl A))"
| read: "env_ok os rs env None \<Longrightarrow> kv_get env key s w = Some ((s', w'), r) \<Longrightarrow> kv_step os rs (s, w, A) (s', w', A)"
| range: "env_ok os rs env None \<Longrightarrow> range_query env lo hi limit s w = ((s', w'), r) \<Longrightarrow> kv_step os rs (s, w, A) (s', w', A)"
| worker: "env_ok os rs env None \<Longrightarrow> fk_persistency s \<Longrightarrow> fsm_budget (2 * length (buffered s)) (fk_free_space s) \<Longrightarrow>
    run_worker env i s w = ((s', w'), r) \<Longrightarrow> kv_step os rs (s, w, A) (s', w', A)"
| flush: "env_ok os rs env None \<Longrightarrow> (fk_persistency s \<Longrightarrow> fsm_budget (2 * length (buffered s)) (fk_free_space s)) \<Longrightarrow>
    flush_all env order s w = (s', w') \<Longrightarrow> kv_step os rs (s, w, A) (s', w', A)"
| metadata: "env_ok os rs env None \<Longrightarrow> fk_disk_io s = Some d \<Longrightarrow> save_metadata env d s w = (s', w') \<Longrightarrow>
    kv_step os rs (s, w, A) (s', w', A)"

definition kv_run :: "'w os \<Rightarrow> nat \<Rightarrow> 'w kv_state \<Rightarrow> 'w kv_state \<Rightarrow> bool" where
  "kv_run os rs = (kv_step os rs)\<^sup>*\<^sup>*"

lemma timestamp_bound: "env_ok os rs env ts \<Longrightarrow> timestamp_or_now env ts < U64_LIM"
  by (auto simp: env_ok_def timestamp_or_now_def split: option.split)

lemma spec_increment_no_device_error:
  "snd (spec_increment key delta t ttl A) = Err e \<Longrightarrow> \<not> device_error e"
  by (auto simp: spec_increment_def Let_def split: if_splits option.splits outcome.splits prod.splits)

lemma range_query_frame:
  "range_query env lo hi limit s w = ((s', w'), r) \<Longrightarrow> fk_write_buffer s' = fk_write_buffer s"
  by (auto simp: range_query_def upd_stats_def split: outcome.splits prod.splits)

context block_device
begin

text \<open>One step keeps the invariant and moves the abstract map with it.\<close>

definition in_step :: "nat \<Rightarrow> disk_io option \<Rightarrow> 'w kv_state \<Rightarrow> bool" where
  "in_step rs d q \<longleftrightarrow> (case q of (s, w, A) \<Rightarrow> kv_ok rs (media w) s \<and> kv_abs (media w) s = A \<and> quiet w \<and> fk_disk_io s = d)"

lemma kv_step_in_step:
  assumes st: "kv_step os rs q q'" and ok: "in_step rs d q" and dev: "\<And>x. d = Some x \<Longrightarrow> steady x"
  shows "in_step rs d q'"
  using st
proof cases
  case (insert env ts s key "value" ttl s' r w A)
  have K: "kv_ok rs (media w) s" "kv_abs (media w) s = A" "quiet w" "fk_disk_io s = d" using ok insert(1) by (simp_all add: in_step_def)
  have rs: "e_rec_struct env = rs" using insert(3) by (simp add: env_ok_def)
  have R: "store_inv rs s' \<and> (kv_abs (media w) s', r) = spec_insert (fk_enable_ttl s) (memory_room rs key value s) key value
       (timestamp_or_now env ts) ttl (kv_abs (media w) s) \<and> (s' = s \<or> (\<exists>rec. stored key rec s s'))"
    using insert_internal_result[of env s ts key "value" ttl s' r "media w"] insert(3-5) kv_okD(1)[OF K(1)] rs by (simp add: env_ok_def)
  have "kv_ok rs (media w) s' \<and> fk_disk_io s' = fk_disk_io s"
    using R K(1) kv_ok_put[OF K(1)] by (auto simp: stored_def put_effect_def)
  moreover have "kv_abs (media w) s' = fst (spec_insert (fk_enable_ttl s) (memory_room rs key value s) key value (timestamp_or_now env ts) ttl A)"
    using R K(2) by (metis fst_conv)
  ultimately show ?thesis using insert(2) K by (simp add: in_step_def)
next
  case (delete env ts key s s' r w A)
  have K: "kv_ok rs (media w) s" "kv_abs (media w) s = A" "quiet w" "fk_disk_io s = d" using ok delete(1) by (simp_all add: in_step_def)
  have rs: "e_rec_struct env = rs" using delete(3) by (simp add: env_ok_def)
  have R: "store_inv rs s' \<and> (kv_abs (media w) s', r) = spec_delete key (timestamp_or_now env ts) (kv_abs (media w) s) \<and>
      (s' = s \<or> (\<exists>a. removed key a s s'))"
    using delete_result[of env s key ts s' r "media w"] delete(4) kv_okD(1)[OF K(1)] rs by simp
  have abs: "kv_abs (media w) s' = fst (spec_delete key (timestamp_or_now env ts) A)" using R K(2) by (metis fst_conv)
  have "kv_ok rs (media w) s' \<and> fk_disk_io s' = fk_disk_io s"
  proof (cases "s' = s")
    case False
    with R obtain a where rm: "removed key a s s'" by blast
    have "kv_abs (media w) s' key = None" using rm by (simp add: removed_def kv_abs_None)
    then have "kv_abs (media w) s' = (kv_abs (media w) s)(key := None)"
      using abs K(2) rm kv_abs_Some[of s key a "media w"] by (auto simp: spec_delete_def removed_def split: if_splits)
    with kv_ok_remove[OF K(1) rm] R rm show ?thesis by (simp add: removed_def)
  qed (use K in simp)
  with abs delete(2) K show ?thesis by (simp add: in_step_def)
next
  case (retime env key ttl s s' r w A)
  have K: "kv_ok rs (media w) s" "kv_abs (media w) s = A" "quiet w" "fk_disk_io s = d" using ok retime(1) by (simp_all add: in_step_def)
  have R: "(kv_abs (media w) s', r) = spec_update_ttl (fk_enable_ttl s) (e_now env) key ttl (kv_abs (media w) s)"
    and E: "s' = s \<or> (\<exists>a e. e < U64_LIM \<and> fk_hash_table s key = Some a \<and> s' = s\<lparr>fk_heap := (fk_heap s)(a := (fk_heap s a)\<lparr>r_ttl_expiry := e\<rparr>)\<rparr>)"
    using update_ttl_result[OF kv_okD(1)[OF K(1)] retime(4), of "media w"] by blast+
  have "kv_ok rs (media w) s'" using E K(1) kv_ok_retime[OF K(1)] by blast
  moreover have "fk_disk_io s' = fk_disk_io s" using E by auto
  moreover have "kv_abs (media w) s' = fst (spec_update_ttl (fk_enable_ttl s) (e_now env) key ttl A)" using R K(2) by (metis fst_conv)
  ultimately show ?thesis using retime(2) K by (simp add: in_step_def)
next
  case (increment env ts key delta ttl s w s' w' r A)
  have K: "kv_ok rs (media w) s" "kv_abs (media w) s = A" "quiet w" "fk_disk_io s = d" using ok increment(1) by (simp_all add: in_step_def)
  have rs: "e_rec_struct env = rs" "e_os env = os" using increment(3) by (simp_all add: env_ok_def)
  have R: "store_inv rs s' \<and> media w' = media w \<and> quiet w' = quiet w \<and>
    ((kv_abs (media w) s', r) = spec_increment key delta (timestamp_or_now env ts) ttl (kv_abs (media w) s) \<and>
       (s' = s \<or> (\<exists>rec. stored key rec s s')) \<or>
     s' = s \<and> (\<exists>a e. fk_hash_table s key = Some a \<and> r_value (fk_heap s a) = None \<and> r = Err e \<and> device_error e))"
    using increment_result[OF rs(2) _ kv_ok_values[OF kv_okD(3,4)[OF K(1)]] timestamp_bound[OF increment(3)] increment(4,5)]
      kv_okD(1)[OF K(1)] rs(1) by simp
  have "kv_ok rs (media w) s' \<and> fk_disk_io s' = fk_disk_io s"
    using R K(1) kv_ok_put[OF K(1)] by (auto simp: stored_def put_effect_def)
  moreover have "kv_abs (media w) s' = (if \<exists>e. r = Err e \<and> device_error e then A else fst (spec_increment key delta (timestamp_or_now env ts) ttl A))"
  proof (cases "\<exists>e. r = Err e \<and> device_error e")
    case True
    with R K(2) spec_increment_no_device_error[of key delta "timestamp_or_now env ts" ttl A] have "s' = s" by (metis snd_conv)
    with True K(2) show ?thesis by simp
  next
    case False
    with R K(2) have "(kv_abs (media w) s', r) = spec_increment key delta (timestamp_or_now env ts) ttl A" by blast
    with False show ?thesis by (metis fst_conv)
  qed
  ultimately show ?thesis using increment(2) K R by (simp add: in_step_def)
next
  case (read env key s w s' w' r A)
  have K: "kv_ok rs (media w) s" "kv_abs (media w) s = A" "quiet w" "fk_disk_io s = d" using ok read(1) by (simp_all add: in_step_def)
  have os: "e_os env = os" using read(3) by (simp add: env_ok_def)
  from get_result[OF os kv_ok_values[OF kv_okD(3,4)[OF K(1)]] kv_okD(5)[OF K(1)], of key] read(4)
  have G: "same_core s s'" "media w' = media w" "quiet w' = quiet w" "cache_coherent (media w) s'" by auto
  from get_frame[OF read(4)] have F: "fk_write_buffer s' = fk_write_buffer s" "fk_cache s' = None \<longleftrightarrow> fk_cache s = None" by auto
  have "kv_ok rs (media w) s'" by (rule kv_ok_same_core[OF K(1) G(1) F(1) G(4) F(2)])
  with G K read(2) same_core_abs[OF G(1), of "media w"] show ?thesis by (simp add: in_step_def same_core_def)
next
  case (range env lo hi limit s w s' w' r A)
  have K: "kv_ok rs (media w) s" "kv_abs (media w) s = A" "quiet w" "fk_disk_io s = d" using ok range(1) by (simp_all add: in_step_def)
  have os: "e_os env = os" using range(3) by (simp add: env_ok_def)
  note R = range_query_result[OF os kv_okD(1)[OF K(1)] kv_ok_values[OF kv_okD(3,4)[OF K(1)]] range(4)]
  have "cache_coherent (media w) s'" using coherent_same_core[OF R(1,4,5)] kv_okD(5)[OF K(1)] by simp
  with kv_ok_same_core[OF K(1) R(1) range_query_frame[OF range(4)]] R(4) have "kv_ok rs (media w) s'" by simp
  with R K range(2) same_core_abs[OF R(1), of "media w"] show ?thesis by (simp add: in_step_def same_core_def)
next
  case (worker env s i w s' w' r A)
  have K: "kv_ok rs (media w) s" "kv_abs (media w) s = A" "quiet w" "fk_disk_io s = d" using ok worker(1) by (simp_all add: in_step_def)
  have os: "e_os env = os" using worker(3) by (simp add: env_ok_def)
  have "steady x" if "fk_disk_io s = Some x" for x using dev K(4) that by simp
  from run_worker_kv_ok[OF K(1) os worker(4) K(3) this, of 0] worker(5,6) K worker(2) show ?thesis by (simp add: in_step_def)
next
  case (flush env s order w s' w' A)
  have K: "kv_ok rs (media w) s" "kv_abs (media w) s = A" "quiet w" "fk_disk_io s = d" using ok flush(1) by (simp_all add: in_step_def)
  have os: "e_os env = os" using flush(3) by (simp add: env_ok_def)
  have "steady x" if "fk_disk_io s = Some x" for x using dev K(4) that by simp
  from flush_all_kv_ok[OF K(1) os K(3) this flush(4,5)] K flush(2) show ?thesis by (simp add: in_step_def)
next
  case (metadata env s x w s' w' A)
  have K: "kv_ok rs (media w) s" "kv_abs (media w) s = A" "quiet w" "fk_disk_io s = d" using ok metadata(1) by (simp_all add: in_step_def)
  have os: "e_os env = os" using metadata(3) by (simp add: env_ok_def)
  have "fk_disk_io s' = fk_disk_io s" using metadata(5) by (auto simp: save_metadata_def Let_def)
  with save_metadata_kv_ok[OF K(1) os metadata(5)] K metadata(2) show ?thesis by (simp add: in_step_def)
qed

lemma kv_run_in_step:
  assumes "kv_run os rs q q'" "in_step rs d q" "\<And>x. d = Some x \<Longrightarrow> steady x"
  shows "in_step rs d q'"
  using assms(1) unfolding kv_run_def
  by (induction rule: rtranclp_induct) (use assms(2,3) kv_step_in_step in blast)+

end

end
