(* ===== verification/Builder.thy ===== *)
theory Builder
  imports Store_Disk
begin

text \<open>
  Configuration and construction of a store: src/core/builder.rs and src/core/init.rs. The number of
  processors is the argument \<open>num_cpus\<close>.
\<close>

section \<open>Configuration\<close>

record db_config =
  c_persistency :: bool
  c_max_memory :: "nat option"
  c_enable_caching :: bool
  c_hash_bits :: nat
  c_enable_ttl :: bool
  c_ttl_config :: "ttl_config option"
  c_file_path :: "string option"
  c_file_size :: "nat option"

record db_builder =
  bd_max_memory :: "nat option"
  bd_enable_caching :: "bool option"
  bd_hash_bits :: nat
  bd_enable_ttl :: bool
  bd_ttl_config :: "ttl_config option"
  bd_file_path :: "string option"
  bd_file_size :: "nat option"

definition builder_new :: db_builder where
  "builder_new =
     \<lparr>bd_max_memory = Some DEFAULT_MAX_MEMORY, bd_enable_caching = None, bd_hash_bits = DEFAULT_HASH_BITS,
      bd_enable_ttl = False, bd_ttl_config = None, bd_file_path = None, bd_file_size = None\<rparr>"

definition builder_default :: db_builder where
  "builder_default = builder_new"

definition kv_builder :: db_builder where
  "kv_builder = builder_new"

definition with_max_memory :: "nat \<Rightarrow> db_builder \<Rightarrow> db_builder" where
  "with_max_memory limit b = b\<lparr>bd_max_memory := Some limit\<rparr>"

definition no_memory_limit :: "db_builder \<Rightarrow> db_builder" where
  "no_memory_limit b = b\<lparr>bd_max_memory := None\<rparr>"

definition with_caching :: "bool \<Rightarrow> db_builder \<Rightarrow> db_builder" where
  "with_caching enable b = b\<lparr>bd_enable_caching := Some enable\<rparr>"

definition with_hash_bits :: "nat \<Rightarrow> db_builder \<Rightarrow> db_builder" where
  "with_hash_bits bits b = b\<lparr>bd_hash_bits := bits\<rparr>"

definition with_ttl :: "bool \<Rightarrow> db_builder \<Rightarrow> db_builder" where
  "with_ttl enable b =
     (let b1 = b\<lparr>bd_enable_ttl := enable\<rparr>
      in if enable
         then b1\<lparr>bd_ttl_config := Some ((case bd_ttl_config b1 of Some c \<Rightarrow> c | None \<Rightarrow> ttl_config_trait_default)\<lparr>tc_enabled := True\<rparr>)\<rparr>
         else b1)"

definition with_ttl_config :: "nat \<Rightarrow> nat \<Rightarrow> rat \<Rightarrow> nat \<Rightarrow> db_builder \<Rightarrow> db_builder" where
  "with_ttl_config interval max_time threshold sample_size b =
     b\<lparr>bd_ttl_config := Some \<lparr>tc_enabled = True, tc_interval = from_millis interval, tc_max_time_per_run = from_millis max_time,
        tc_max_iterations = DEFAULT_ITERATION, tc_expiry_threshold = threshold, tc_sample_size = sample_size\<rparr>\<rparr>"

definition with_file_path :: "string \<Rightarrow> db_builder \<Rightarrow> db_builder" where
  "with_file_path path b = b\<lparr>bd_file_path := Some path\<rparr>"

definition with_file_size :: "nat \<Rightarrow> db_builder \<Rightarrow> db_builder" where
  "with_file_size sz b = b\<lparr>bd_file_size := Some sz\<rparr>"

definition build_config :: "db_builder \<Rightarrow> db_config" where
  "build_config b =
     (let persistency = (bd_file_path b \<noteq> None)
      in \<lparr>c_persistency = persistency, c_max_memory = bd_max_memory b,
          c_enable_caching = (case bd_enable_caching b of Some e \<Rightarrow> e | None \<Rightarrow> persistency),
          c_hash_bits = bd_hash_bits b, c_enable_ttl = bd_enable_ttl b, c_ttl_config = bd_ttl_config b,
          c_file_path = bd_file_path b, c_file_size = bd_file_size b\<rparr>)"

section \<open>Construction\<close>

definition initial_store :: "'w env \<Rightarrow> db_config \<Rightarrow> fun_kv" where
  "initial_store env config =
     \<lparr>fk_heap = (\<lambda>_. record_new [] [] 0), fk_next = 0, fk_hash_table = Map.empty, fk_tree = [], fk_stats = stats_new,
      fk_write_buffer = None, fk_free_space = fsm_new, fk_metadata = metadata_new (now_secs env),
      fk_persistency = c_persistency config, fk_enable_caching = c_enable_caching config,
      fk_max_memory = c_max_memory config,
      fk_cache = (if c_enable_caching config then Some cache_new else None),
      fk_persistence_size = 0, fk_disk_io = None, fk_enable_ttl = c_enable_ttl config, fk_ttl = None\<rparr>"

text \<open>\<open>1 << hash_bits\<close> overflows from 64 bits on.\<close>

definition build_with_config :: "'w env \<Rightarrow> 'w fs \<Rightarrow> (bytes \<Rightarrow> metadata option) \<Rightarrow> nat \<Rightarrow> db_config \<Rightarrow> 'w \<Rightarrow>
    'w \<times> fun_kv res" where
  "build_with_config env fs tfb num_cpus config w =
     (if 64 \<le> c_hash_bits config then (w, Panic)
      else
        let store = initial_store env config
        in if c_persistency config
           then
             (case try_bind (open_device env fs tfb (c_file_path config) (c_file_size config) (store, w))
                     (\<lambda>_ sw. load_indexes env tfb sw) of
                ((s, w1), Ok _) \<Rightarrow>
                  (case fk_disk_io s of
                     Some d \<Rightarrow>
                       let wb = start_workers (max (num_cpus div 2) 1) (write_buffer_new num_cpus (m_version (fk_metadata s)))
                       in (w1, Ok (s\<lparr>fk_write_buffer := Some wb\<rparr>))
                   | None \<Rightarrow> (w1, Ok s))
              | ((s, w1), Err e) \<Rightarrow> (w1, Err e)
              | ((s, w1), Panic) \<Rightarrow> (w1, Panic))
           else (w, Ok store))"

definition build :: "'w env \<Rightarrow> 'w fs \<Rightarrow> (bytes \<Rightarrow> metadata option) \<Rightarrow> nat \<Rightarrow> db_builder \<Rightarrow> 'w \<Rightarrow> 'w \<times> fun_kv res" where
  "build env fs tfb num_cpus b w = build_with_config env fs tfb num_cpus (build_config b) w"

definition kv_new :: "'w env \<Rightarrow> 'w fs \<Rightarrow> (bytes \<Rightarrow> metadata option) \<Rightarrow> nat \<Rightarrow> string option \<Rightarrow> 'w \<Rightarrow> 'w \<times> fun_kv res" where
  "kv_new env fs tfb num_cpus file_path w =
     (let persistency = (file_path \<noteq> None)
      in build_with_config env fs tfb num_cpus
           \<lparr>c_persistency = persistency, c_max_memory = Some DEFAULT_MAX_MEMORY, c_enable_caching = persistency,
            c_hash_bits = DEFAULT_HASH_BITS, c_enable_ttl = False, c_ttl_config = None,
            c_file_path = file_path, c_file_size = None\<rparr> w)"

section \<open>What construction establishes\<close>

text \<open>The default builder and the constructor agree.\<close>

lemma new_is_default_build:
  "kv_new env fs tfb n file_path w =
     build env fs tfb n (case file_path of None \<Rightarrow> builder_new | Some p \<Rightarrow> with_file_path p builder_new) w"
  by (simp add: kv_new_def build_def build_config_def builder_new_def with_file_path_def Let_def split: option.split)

lemma initial_store_inv:
  "store_inv rs (initial_store env config)" "kv_abs m (initial_store env config) = Map.empty"
  "cache_coherent m (initial_store env config)"
proof -
  show "store_inv rs (initial_store env config)"
    by (simp add: store_inv_def initial_store_def stats_new_def om_inv_def)
  show "kv_abs m (initial_store env config) = Map.empty" by (simp add: kv_abs_def initial_store_def fun_eq_iff)
  have "cache.coherent (cache_new, stats_new) (kv_values m s)" for s
    unfolding cache.coherent_def by (simp add: cache_lookup_def cache_new_def bucket_lookup_def)
  with cache_new_ok show "cache_coherent m (initial_store env config)"
    by (simp add: cache_coherent_def initial_store_def)
qed

text \<open>A store in memory without a cache satisfies the invariant from the start.\<close>

lemma memory_store_ok:
  assumes "\<not> c_persistency config" "\<not> c_enable_caching config"
  shows "kv_ok rs m (initial_store env config)"
  using assms initial_store_inv(1)[of rs env config] initial_store_inv(3)[of m env config]
  by (simp add: kv_ok_def wired_def shards_ok_def disk_inv_def device_inv_def queue_inv_def live_def buffered_def
      disk_ok_def initial_store_def)

text \<open>
  So does a persistent store over a device of free sectors, before any record is written.
\<close>

lemma persistent_store_ok:
  assumes f: "initialize fsm_new psize = (f, Ok ())" "psize < 2 ^ 63"
    and c: "c_persistency config"
    and s: "s = (initial_store env config)\<lparr>fk_persistence_size := psize, fk_free_space := f, fk_metadata := md,
        fk_disk_io := Some d, fk_write_buffer := Some wb\<rparr>"
    and wb: "wb_shards wb \<noteq> []" "\<And>sh. sh \<in> set (wb_shards wb) \<Longrightarrow> sh_buffer sh = []"
  shows "kv_ok rs m s" "kv_abs m s = Map.empty"
proof -
  have n: "METADATA_BLOCK_SIZE < psize div BLOCK_SIZE"
    using f(1) initialize_small[of psize fsm_new] by (cases "METADATA_BLOCK_SIZE < psize div BLOCK_SIZE") auto
  from initialize_ok[OF n] f have i: "fsm_inv f" "persistence_size f = psize" by (auto simp: U64_LIM_def)
  let ?s = "initial_store env config"
  have b: "buffered s = []" using wb(2) by (auto simp: buffered_def s)
  have abs: "kv_abs m s = kv_abs m ?s" by (simp add: kv_abs_def s)
  then show "kv_abs m s = Map.empty" by (simp add: initial_store_inv)
  have "rec_bytes rs s = rec_bytes rs ?s" by (rule ext) (simp add: rec_bytes_def s)
  with initial_store_inv(1)[of rs env config] have "store_inv rs s" by (simp add: store_inv_def record_indexed_def s)
  moreover have "kv_values m s = kv_values m ?s" by (rule ext) (simp add: kv_values_def abs)
  then have "cache_coherent m s" using initial_store_inv(3)[of m env config] by (simp add: cache_coherent_def s cong: option.case_cong)
  moreover have "device_sectors f * BLOCK_SIZE < 2 ^ 63" using device_bytes[of "device_sectors f" f] f(2) i(2) by simp
  ultimately show "kv_ok rs m s"
    using wb c i b
    by (simp add: kv_ok_def wired_def shards_ok_def disk_inv_def device_inv_def queue_inv_def live_def disk_ok_def)
      (simp add: s initial_store_def)
qed

lemma zero_not_signature:
  assumes "m 0 = 0"
  shows "take SIGNATURE_SIZE (fetch 0 BLOCK_SIZE m) \<noteq> SIGNATURE"
proof
  assume "take SIGNATURE_SIZE (fetch 0 BLOCK_SIZE m) = SIGNATURE"
  then have "take SIGNATURE_SIZE (fetch 0 BLOCK_SIZE m) ! 0 = SIGNATURE ! 0" by simp
  with assms show False by (simp add: fetch_def SIGNATURE_def kv_const)
qed

text \<open>Opening a file that did not exist: it is extended and all of its data sectors are free.\<close>

lemma open_new_file:
  assumes opened: "open_file fs path w = (w0, Ok direct)" "fs_len fs w0 = Inr 0"
    and psize: "psize = (case file_size of Some n \<Rightarrow> n | None \<Rightarrow> DEFAULT_PERSISTENT_SIZE)"
    and run: "open_device env fs tfb (Some path) file_size (s, w) = ((s', w'), Ok ())"
  shows "\<exists>f md. fs_set_len fs psize w0 = (w', None) \<and> initialize (fk_free_space s) psize = (f, Ok ()) \<and>
    s' = s\<lparr>fk_persistence_size := psize, fk_free_space := f, fk_metadata := md,
      fk_disk_io := Some (disk_io_new (fst (fs_ring fs)) (snd (fs_ring fs)) direct)\<rparr>"
proof -
  obtain w1 e where l: "fs_set_len fs psize w0 = (w1, e)" by fastforce
  obtain f r where i: "initialize (fk_free_space s) psize = (f, r)" by fastforce
  have "e = None" using run opened l by (cases e) (simp_all add: open_device_def io_result_def Let_def psize)
  moreover have "r = Ok ()" using run opened l i \<open>e = None\<close>
    by (cases r) (simp_all add: open_device_def io_result_def Let_def psize)
  ultimately show ?thesis using run opened l i
    by (auto simp: open_device_def io_result_def Let_def psize split: option.splits)
qed

context block_device
begin

text \<open>The first block of a fresh file is not a metadata block, so nothing is loaded.\<close>

lemma load_nothing:
  assumes z: "media w 0 = 0" and os: "e_os env = os"
    and run: "load_indexes env tfb (s, w) = ((s', w'), Ok ())"
  shows "s' = s" "media w' = media w" "quiet w' = quiet w"
proof -
  have "s' = s \<and> media w' = media w \<and> quiet w' = quiet w"
  proof (cases "fk_persistency s \<and> fk_disk_io s \<noteq> None")
    case True
    then obtain d where d: "fk_persistency s" "fk_disk_io s = Some d" by blast
    obtain w1 r where rd: "read_metadata os d w = (w1, r)" by fastforce
    have R: "media w1 = media w" "quiet w1 = quiet w" "\<And>bs. r = Ok bs \<Longrightarrow> bs = fetch 0 BLOCK_SIZE (media w)"
      using read_sectors_result[of d METADATA_BLOCK 1 w w1 r] rd by (simp_all add: read_metadata_def kv_const)
    note zero_not_signature[of "media w", OF z]
    with run d rd os R show ?thesis by (cases r) (auto simp: load_indexes_def Let_def)
  qed (use run in \<open>auto simp: load_indexes_def split: option.splits if_splits\<close>)
  then show "s' = s" "media w' = media w" "quiet w' = quiet w" by simp_all
qed

lemma new_file_store:
  assumes opened: "open_file fs path w = (w0, Ok direct)" "fs_len fs w0 = Inr 0"
    and psize: "psize = (case c_file_size config of Some n \<Rightarrow> n | None \<Rightarrow> DEFAULT_PERSISTENT_SIZE)" "psize < 2 ^ 63"
    and zero: "\<And>w1. fs_set_len fs psize w0 = (w1, None) \<Longrightarrow> media w1 0 = 0 \<and> quiet w1"
    and config: "c_persistency config" "c_file_path config = Some path" and os: "e_os env = os"
    and run: "build_with_config env fs tfb num_cpus config w = (w', Ok s)"
  shows "kv_ok rs (media w') s" "kv_abs (media w') s = Map.empty" "quiet w'"
    "fk_disk_io s = Some (disk_io_new (fst (fs_ring fs)) (snd (fs_ring fs)) direct)"
proof -
  let ?s0 = "initial_store env config"
  define d where "d = disk_io_new (fst (fs_ring fs)) (snd (fs_ring fs)) direct"
  obtain s1 w1 r1 where o: "open_device env fs tfb (Some path) (c_file_size config) (?s0, w) = ((s1, w1), r1)" by (metis prod.collapse)
  have "r1 = Ok ()" using run config o by (cases r1) (auto simp: build_with_config_def Let_def split: if_splits)
  from open_new_file[OF opened psize(1) o[unfolded this]] obtain f md where
    w1: "fs_set_len fs psize w0 = (w1, None)" and f: "initialize fsm_new psize = (f, Ok ())"
    and s1: "s1 = ?s0\<lparr>fk_persistence_size := psize, fk_free_space := f, fk_metadata := md, fk_disk_io := Some d\<rparr>"
    by (auto simp: d_def initial_store_def)
  obtain s2 w2 r2 where l: "load_indexes env tfb (s1, w1) = ((s2, w2), r2)" by (metis prod.collapse)
  have r2: "r2 = Ok ()" using run config o l \<open>r1 = Ok ()\<close> by (cases r2) (auto simp: build_with_config_def Let_def split: if_splits)
  note z = zero[OF w1]
  note L = load_nothing[OF conjunct1[OF z] os l[unfolded r2]]
  obtain wb where s: "s = s1\<lparr>fk_write_buffer := Some wb\<rparr>" and w': "w' = w2"
    and wb: "wb = start_workers (max (num_cpus div 2) 1) (write_buffer_new num_cpus (m_version (fk_metadata s1)))"
    using run config o l \<open>r1 = Ok ()\<close> r2 L(1) s1 by (auto simp: build_with_config_def Let_def split: if_splits)
  have sh: "wb_shards wb \<noteq> []" "\<And>x. x \<in> set (wb_shards wb) \<Longrightarrow> sh_buffer x = []"
    by (auto simp: wb start_workers_def write_buffer_new_def Let_def shard_new_def)
  have s': "s = ?s0\<lparr>fk_persistence_size := psize, fk_free_space := f, fk_metadata := md, fk_disk_io := Some d, fk_write_buffer := Some wb\<rparr>"
    by (simp add: s s1)
  from persistent_store_ok[OF f psize(2) config(1) s' sh] show "kv_ok rs (media w') s" "kv_abs (media w') s = Map.empty" by simp_all
  show "quiet w'" using z L(3) w' by simp
  show "fk_disk_io s = Some (disk_io_new (fst (fs_ring fs)) (snd (fs_ring fs)) direct)" by (simp add: s' d_def)
qed

end

end
