(* ===== verification/Store_Theorems.thy ===== *)
theory Store_Theorems
  imports Store_Run Builder
begin

text \<open>
  What the operations of the store promise to their callers, one call at a time and over whole runs,
  from a store that is built in memory or over a new file.
\<close>

section \<open>Counters\<close>

lemma dom_kv_abs: "dom (kv_abs m s) = dom (fk_hash_table s)"
  by (auto simp: kv_abs_def dom_def)

lemma store_len:
  assumes "store_inv rs s"
  shows "kv_len s = card (dom (kv_abs m s)) mod 2 ^ 32"
proof -
  have i: "om_inv (fk_tree s)" "om_get (fk_tree s) = fk_hash_table s" "st_record_count (fk_stats s) = length (fk_tree s) mod 2 ^ 32"
    using assms by (simp_all add: store_inv_def)
  have "dom (fk_hash_table s) = fst ` set (fk_tree s)" using i(2) dom_map_of_conv_image_fst by metis
  moreover have "distinct (map fst (fk_tree s))" using i(1) by (simp add: om_inv_def strict_sorted_iff)
  ultimately have "card (dom (fk_hash_table s)) = length (fk_tree s)" using distinct_card[of "map fst (fk_tree s)"] by simp
  with i(3) show ?thesis by (simp add: kv_len_def dom_kv_abs)
qed

section \<open>A small store\<close>

text \<open>A store in memory with expiry, and its surroundings at time \<open>now\<close>.\<close>

definition demo_config :: db_config where
  "demo_config = build_config (with_ttl True (with_max_memory 1000 builder_new))"

definition demo_env :: "nat \<Rightarrow> ram env" where
  "demo_env now = \<lparr>e_os = ram_os, e_rec_struct = 100, e_thread_hash = 0, e_now = now, e_latency = 1\<rparr>"

definition demo_store :: fun_kv where
  "demo_store = initial_store (demo_env 5) demo_config"

lemma demo_config_facts: "\<not> c_persistency demo_config" "\<not> c_enable_caching demo_config" "c_enable_ttl demo_config"
    "c_max_memory demo_config = Some 1000" "c_hash_bits demo_config = DEFAULT_HASH_BITS"
  by (simp_all add: demo_config_def build_config_def with_ttl_def with_max_memory_def builder_new_def Let_def)

lemma demo_store_ok: "kv_ok 100 m demo_store" "kv_abs m demo_store = Map.empty"
  using memory_store_ok[of demo_config] initial_store_inv(2) demo_config_facts by (simp_all add: demo_store_def)

lemma demo_store_fields:
  "fk_max_memory demo_store = Some 1000" "fk_enable_ttl demo_store" "st_memory_usage (fk_stats demo_store) = 0"
  "\<not> fk_persistency demo_store" "fk_disk_io demo_store = None" "fk_hash_table demo_store = Map.empty"
  by (simp_all add: demo_store_def initial_store_def demo_config_facts stats_new_def)

section \<open>Single calls\<close>

text \<open>
  C4. An insert refines the insert of an abstract map from keys to value, timestamp and expiry. It
  rejects empty and oversized keys and values and timestamps older than the stored one, refuses a
  new key that does not fit the memory limit, computes the expiry with an overflow check, otherwise
  stores exactly the new entry and answers whether the key was new; every other key keeps its entry,
  the indexes stay consistent and the counter of records is the number of keys.
\<close>

theorem insert_refines:
  assumes "store_inv (e_rec_struct env) s" and "e_now env < U64_LIM" and "\<And>t. ts = Some t \<Longrightarrow> t < U64_LIM"
    and "st_memory_usage (fk_stats s) + calculate_record_size (e_rec_struct env) (length key) (length value) < U64_LIM"
    and "insert_internal env key value ts ttl s = (s', r)"
  shows "(kv_abs m s', r) = spec_insert (fk_enable_ttl s) (memory_room (e_rec_struct env) key value s) key value
      (timestamp_or_now env ts) ttl (kv_abs m s) \<and>
    store_inv (e_rec_struct env) s' \<and> kv_len s' = card (dom (kv_abs m s')) mod 2 ^ 32"
  using insert_internal_result[OF assms, of m] store_len[of "e_rec_struct env" s' m] by blast

lemma demo_insert:
  obtains s' where "insert_internal (demo_env 5) [1] [2, 3] None 7 demo_store = (s', Ok True)"
    "kv_abs m s' = [[1] \<mapsto> ([2, 3], 5, 7000000005)]" "kv_ok 100 m s'" "fk_enable_ttl s'" "fk_disk_io s' = None"
    "\<not> fk_persistency s'" "fk_cache s' = None"
proof -
  obtain s' r where run: "insert_internal (demo_env 5) [1] [2, 3] None 7 demo_store = (s', r)" by fastforce
  have pre: "store_inv (e_rec_struct (demo_env 5)) demo_store" using kv_okD(1)[OF demo_store_ok(1)] by (simp add: demo_env_def)
  have room: "st_memory_usage (fk_stats demo_store) + calculate_record_size (e_rec_struct (demo_env 5)) (length [1 :: byte]) (length [2, 3 :: byte]) < U64_LIM"
    by (simp add: demo_store_fields demo_env_def calculate_record_size_def U64_LIM_def)
  have R: "(kv_abs m s', r) = spec_insert True (memory_room 100 [1] [2, 3] demo_store) [1] [2, 3] 5 7 Map.empty"
    "demo_store = s' \<or> (\<exists>rec. stored [1] rec demo_store s')" "store_inv 100 s'"
    using insert_internal_result[OF pre _ _ room run, of m] demo_store_ok(2)[of m] demo_store_fields
    by (auto simp: demo_env_def U64_LIM_def timestamp_or_now_def)
  have m: "memory_room 100 [1] [2, 3] demo_store" by (simp add: memory_room_def demo_store_fields calculate_record_size_def)
  from R(1) m have E: "kv_abs m s' = [[1] \<mapsto> ([2, 3], 5, 7000000005)]" "r = Ok True"
    by (simp_all add: spec_insert_def spec_expiry_def SECOND_def U64_LIM_def)
  with R(2) demo_store_ok(2)[of m] obtain rec where st: "stored [1] rec demo_store s'" by fastforce
  note S = st[unfolded stored_def put_effect_def]
  have ok: "kv_ok 100 m s'" by (rule kv_ok_put[OF demo_store_ok(1) st R(3)])
  show thesis
    by (rule that[of s']) (use run E ok S kv_okD(6)[OF ok] demo_store_fields in simp_all)
qed

theorem insert_refines_witness:
  "\<exists>s'. insert_internal (demo_env 5) [1] [2, 3] None 7 demo_store = (s', Ok True) \<and>
     kv_abs (\<lambda>_. 0) s' = [[1] \<mapsto> ([2, 3], 5, 7000000005)] \<and> kv_len s' = 1"
proof -
  obtain s' where s': "insert_internal (demo_env 5) [1] [2, 3] None 7 demo_store = (s', Ok True)"
    "kv_abs (\<lambda>_. 0) s' = [[1] \<mapsto> ([2, 3], 5, 7000000005)]" by (rule demo_insert)
  have pre: "store_inv (e_rec_struct (demo_env 5)) demo_store" using kv_okD(1)[OF demo_store_ok(1)] by (simp add: demo_env_def)
  have "kv_len s' = card (dom (kv_abs (\<lambda>_. 0) s')) mod 2 ^ 32"
    using insert_refines[OF pre _ _ _ s'(1), of "\<lambda>_. 0"]
    by (simp add: demo_store_fields demo_env_def calculate_record_size_def U64_LIM_def)
  with s' show ?thesis by simp
qed

text \<open>
  C5. A delete refines the removal from the abstract map: it rejects invalid keys, missing keys and
  timestamps older than the stored one, and otherwise removes exactly that key from both indexes and
  gives its memory back.
\<close>

theorem delete_refines:
  assumes "store_inv (e_rec_struct env) s" and "delete_with_timestamp env key ts s = (s', r)"
  shows "(kv_abs m s', r) = spec_delete key (timestamp_or_now env ts) (kv_abs m s) \<and>
    store_inv (e_rec_struct env) s' \<and> kv_len s' = card (dom (kv_abs m s')) mod 2 ^ 32"
  using delete_result[OF assms, of m] store_len[of "e_rec_struct env" s' m] by blast

theorem delete_refines_witness:
  "\<exists>s1 s2. insert_internal (demo_env 5) [1] [2, 3] None 7 demo_store = (s1, Ok True) \<and>
     delete_with_timestamp (demo_env 6) [1] None s1 = (s2, Ok ()) \<and> kv_abs (\<lambda>_. 0) s2 = Map.empty \<and> kv_len s2 = 0"
proof -
  obtain s1 where s1: "insert_internal (demo_env 5) [1] [2, 3] None 7 demo_store = (s1, Ok True)"
    "kv_abs (\<lambda>_. 0) s1 = [[1] \<mapsto> ([2, 3], 5, 7000000005)]" "kv_ok 100 (\<lambda>_. 0) s1" by (rule demo_insert)
  obtain s2 r where s2: "delete_with_timestamp (demo_env 6) [1] None s1 = (s2, r)" by fastforce
  have inv: "store_inv (e_rec_struct (demo_env 6)) s1" using kv_okD(1)[OF s1(3)] by (simp add: demo_env_def)
  from delete_refines[OF inv s2, of "\<lambda>_. 0"] have "kv_abs (\<lambda>_. 0) s2 = Map.empty \<and> r = Ok () \<and> kv_len s2 = 0"
    by (simp add: s1(2) spec_delete_def timestamp_or_now_def demo_env_def)
  with s1 s2 show ?thesis by blast
qed





text \<open>
  C7. A read returns. On a consistent store with a coherent cache \<open>get\<close> always comes back (the
  eviction that it may trigger ends) and answers with the value of the abstract map, with
  \<open>KeyNotFound\<close> for a missing or expired key, with the cached value of the key, or with the error
  of the device when the value is only there. It changes neither the indexes, nor the records, nor
  the media, and the cache stays coherent.
\<close>

theorem get_correct:
  assumes "block_device os media sq" and "e_os env = os" and "kv_ok rs (media w) s"
  shows "\<exists>s' w' r. kv_get env key s w = Some ((s', w'), r) \<and> get_outcome (media w) (e_now env) key s r \<and>
    media w' = media w \<and> kv_abs (media w') s' = kv_abs (media w) s \<and> kv_ok rs (media w') s'"
proof -
  from block_device.get_result[OF assms(1,2) kv_ok_values[OF kv_okD(3,4)[OF assms(3)]] kv_okD(5)[OF assms(3)], of key]
  obtain s' w' r where g: "kv_get env key s w = Some ((s', w'), r)" "same_core s s'" "media w' = media w"
    "cache_coherent (media w) s'" "get_outcome (media w) (e_now env) key s r" by blast
  from get_frame[OF g(1)] have f: "fk_write_buffer s' = fk_write_buffer s" "fk_cache s' = None \<longleftrightarrow> fk_cache s = None" by auto
  from g f kv_ok_same_core[OF assms(3) g(2) f(1) g(4) f(2)] same_core_abs[OF g(2), of "media w"] show ?thesis by auto
qed

theorem get_correct_witness:
  "\<exists>s1 s2 w2. insert_internal (demo_env 5) [1] [2, 3] None 7 demo_store = (s1, Ok True) \<and>
     kv_get (demo_env 6) [1] s1 (blank_ram 32) = Some ((s2, w2), Ok [2, 3]) \<and>
     (\<exists>s3 w3. kv_get (demo_env 8000000000) [1] s1 (blank_ram 32) = Some ((s3, w3), Err KeyNotFound))"
proof -
  let ?w = "blank_ram 32"
  obtain s1 where s1: "insert_internal (demo_env 5) [1] [2, 3] None 7 demo_store = (s1, Ok True)"
    "kv_abs (ram_content ?w) s1 = [[1] \<mapsto> ([2, 3], 5, 7000000005)]" "kv_ok 100 (ram_content ?w) s1" "fk_enable_ttl s1"
    "fk_cache s1 = None" "\<not> fk_persistency s1" by (rule demo_insert)
  have os: "e_os (demo_env n) = ram_os" "e_now (demo_env n) = n" for n by (simp_all add: demo_env_def)
  have mem: "r_value (fk_heap s1 a) \<noteq> None" if "fk_hash_table s1 k = Some a" for k a
    using kv_ok_values[OF kv_okD(3,4)[OF s1(3)]] s1(6) that by (auto simp: values_ok_def readable_def)
  have "\<exists>s' w' r. kv_get (demo_env n) [1] s1 ?w = Some ((s', w'), r) \<and> r = spec_get True n [1] [[1] \<mapsto> ([2, 3], 5, 7000000005)]" for n
    using get_correct[OF ram.block_device_axioms os(1)[of n] s1(3), of "[1]"] s1(2,4,5) by (auto simp: get_outcome_def os(2) dest: mem)
  from this[of 6] this[of 8000000000] s1(1) show ?thesis by (auto simp: spec_get_def)
qed

text \<open>
  C8. A range query is exact: unless a bound is invalid or the device fails, it returns the keys
  between the bounds in increasing order, each with its current value, stops at the limit, and
  leaves a key of the range out only when the limit is reached by smaller keys.
\<close>

theorem range_query_exact:
  assumes "block_device os media sq" and "e_os env = os" and "kv_ok rs (media w) s"
    and "range_query env lo hi limit s w = ((s', w'), r)"
  shows "((validate_key lo \<noteq> Ok () \<or> validate_key hi \<noteq> Ok ()) \<and> r = Err InvalidKeySize \<or>
     (\<exists>e. r = Err e \<and> device_error e) \<or>
     (\<exists>xs. r = Ok xs \<and> range_answer (kv_values (media w) s) lo hi limit xs)) \<and>
    media w' = media w \<and> kv_abs (media w') s' = kv_abs (media w) s"
proof -
  note R = block_device.range_query_result[OF assms(1,2) kv_okD(1)[OF assms(3)] kv_ok_values[OF kv_okD(3,4)[OF assms(3)]] assms(4)]
  from R(6) R(2) same_core_abs[OF R(1), of "media w"] show ?thesis by simp
qed

theorem range_query_exact_witness:
  "\<exists>s1 s2 w2 xs. insert_internal (demo_env 5) [1] [2, 3] None 7 demo_store = (s1, Ok True) \<and>
     range_query (demo_env 6) [0] [9] 10 s1 (blank_ram 32) = ((s2, w2), Ok xs) \<and>
     range_answer [[1] \<mapsto> [2, 3]] [0] [9] 10 xs"
proof -
  let ?w = "blank_ram 32"
  obtain s1 where s1: "insert_internal (demo_env 5) [1] [2, 3] None 7 demo_store = (s1, Ok True)"
    "kv_abs (ram_content ?w) s1 = [[1] \<mapsto> ([2, 3], 5, 7000000005)]" "kv_ok 100 (ram_content ?w) s1" "\<not> fk_persistency s1"
    by (rule demo_insert)
  obtain s2 w2 r where run: "range_query (demo_env 6) [0] [9] 10 s1 ?w = ((s2, w2), r)" by (metis prod.collapse)
  have os: "e_os (demo_env 6) = ram_os" by (simp add: demo_env_def)
  have V: "kv_values (ram_content ?w) s1 = [[1] \<mapsto> [2, 3]]" by (simp add: kv_values_def s1(2) fun_eq_iff)
  have mem: "\<exists>v. r_value (fk_heap s1 a) = Some v" if "(k, a) \<in> set (fk_tree s1)" for k a
  proof -
    have "om_inv (fk_tree s1)" "om_get (fk_tree s1) = fk_hash_table s1" using kv_okD(1)[OF s1(3)] by (simp_all add: store_inv_def)
    then have "fk_hash_table s1 k = Some a" using that by (metis map_of_is_SomeI om_inv_def strict_sorted_iff)
    then show ?thesis using kv_ok_values[OF kv_okD(3,4)[OF s1(3)]] s1(4) by (auto simp: values_ok_def readable_def)
  qed
  have col: "\<exists>xs. range_collect (demo_env 6) s1 n es ?w = (?w, Ok xs)" if "set es \<subseteq> set (fk_tree s1)" for n es
    using that
  proof (induction es arbitrary: n)
    case (Cons x es)
    obtain k a where x: "x = (k, a)" by fastforce
    with Cons.prems mem obtain v where "r_value (fk_heap s1 a) = Some v" by fastforce
    then have "fetch_value (demo_env 6) (fk_heap s1 a) s1 ?w = (?w, Ok (v, True))" by (simp add: fetch_value_def get_value_def)
    with Cons.IH[of "n - 1"] Cons.prems show ?case by (auto simp: x)
  qed simp
  have "set (om_range [0] [9] (fk_tree s1)) \<subseteq> set (fk_tree s1)" by (auto simp: om_range_def)
  from col[OF this, of 10] obtain xs where "range_collect (demo_env 6) s1 10 (om_range [0] [9] (fk_tree s1)) ?w = (?w, Ok xs)"
    by blast
  then have "r = Ok xs" using run by (simp add: range_query_def validate_key_def kv_const)
  moreover have "range_answer [[1] \<mapsto> [2, 3]] [0] [9] 10 xs"
    using range_query_exact[OF ram.block_device_axioms os s1(3) run] \<open>r = Ok xs\<close> by (simp add: V)
  ultimately show ?thesis using s1(1) run by blast
qed

section \<open>Runs\<close>

text \<open>Without a cache and a device every read is exact.\<close>

lemma memory_get:
  assumes bd: "block_device os media sq" and os: "e_os env = os" and ok: "kv_ok rs (media w) s" and p: "\<not> fk_persistency s"
  shows "\<exists>s' w'. kv_get env key s w = Some ((s', w'), spec_get (fk_enable_ttl s) (e_now env) key (kv_abs (media w) s))"
proof -
  from block_device.get_result[OF bd os kv_ok_values[OF kv_okD(3,4)[OF ok]] kv_okD(5)[OF ok], of key]
  obtain s' w' r where g: "kv_get env key s w = Some ((s', w'), r)" "get_outcome (media w) (e_now env) key s r" by blast
  have "r_value (fk_heap s a) \<noteq> None" if "fk_hash_table s key = Some a" for a
    using kv_ok_values[OF kv_okD(3,4)[OF ok]] p that by (auto simp: values_ok_def readable_def)
  moreover have "fk_cache s = None" using kv_okD(6)[OF ok] p by blast
  ultimately show ?thesis using g by (auto simp: get_outcome_def)
qed

text \<open>A run from a consistent store ends in one, in step with the abstract map.\<close>

lemma run_start:
  assumes "block_device os media sq" "kv_ok rs (media w) s" "block_device.quiet os sq w" "\<And>d. fk_disk_io s = Some d \<Longrightarrow> block_device.steady os sq d"
    and "kv_run os rs (s, w, kv_abs (media w) s) (s', w', A)"
  shows "kv_ok rs (media w') s'" "kv_abs (media w') s' = A" "fk_disk_io s' = fk_disk_io s"
proof -
  have "block_device.in_step os media sq rs (fk_disk_io s) (s, w, kv_abs (media w) s)"
    using assms(2,3) by (simp add: block_device.in_step_def[OF assms(1)])
  from block_device.kv_run_in_step[OF assms(1) assms(5) this assms(4)]
  show "kv_ok rs (media w') s'" "kv_abs (media w') s' = A" "fk_disk_io s' = fk_disk_io s"
    by (simp_all add: block_device.in_step_def[OF assms(1)])
qed


definition demo_fs :: "ram fs" where
  "demo_fs = \<lparr>fs_dockerenv = (\<lambda>_. True), fs_open_direct = (\<lambda>_ w. (w, Some NotFound)), fs_open = (\<lambda>_ w. (w, None)),
     fs_len = (\<lambda>w. Inr (ram_size w)), fs_set_len = (\<lambda>n w. (w\<lparr>ram_size := n\<rparr>, None)), fs_try_clone = (\<lambda>_. None),
     fs_read_start = (\<lambda>n w. fetch 0 n (ram_content w)), fs_ring = (False, False)\<rparr>"

lemma demo_insert_step:
  assumes "st_memory_usage (fk_stats s) = 0" "memory_room 100 [1] [2, 3] s" "fk_enable_ttl s"
  shows "\<exists>s'. kv_run ram_os 100 (s, w, Map.empty) (s', w, [[1] \<mapsto> ([2, 3], 5, 7000000005)])"
proof -
  obtain s' r where r: "insert_internal (demo_env 5) [1] [2, 3] None 7 s = (s', r)" by fastforce
  have "env_ok ram_os 100 (demo_env 5) None" by (simp add: env_ok_def demo_env_def U64_LIM_def)
  moreover have "st_memory_usage (fk_stats s) + calculate_record_size 100 (length [1 :: byte]) (length [2, 3 :: byte]) < U64_LIM"
    using assms by (simp add: calculate_record_size_def U64_LIM_def)
  ultimately have "kv_step ram_os 100 (s, w, Map.empty)
      (s', w, fst (spec_insert (fk_enable_ttl s) (memory_room 100 [1] [2, 3] s) [1] [2, 3] (timestamp_or_now (demo_env 5) None) 7 Map.empty))"
    using r by (rule kv_step.insert)
  with assms show ?thesis
    by (auto simp: kv_run_def spec_insert_def spec_expiry_def timestamp_or_now_def demo_env_def SECOND_def U64_LIM_def)
qed



definition disk_config :: db_config where
  "disk_config = build_config (with_file_size 4194304 (with_file_path ''db'' (with_ttl True builder_new)))"

lemma disk_config_facts: "c_persistency disk_config" "c_file_path disk_config = Some ''db''" "c_file_size disk_config = Some 4194304"
    "c_enable_ttl disk_config" "c_hash_bits disk_config = DEFAULT_HASH_BITS" "c_max_memory disk_config = Some DEFAULT_MAX_MEMORY"
  by (simp_all add: disk_config_def build_config_def with_ttl_def with_file_path_def with_file_size_def builder_new_def Let_def)

lemma demo_file:
  obtains s w1 where "build_with_config (demo_env 5) demo_fs (\<lambda>_. None) 4 disk_config (blank_ram 0) = (w1, Ok s)"
    "st_memory_usage (fk_stats s) = 0" "fk_max_memory s = Some DEFAULT_MAX_MEMORY" "fk_enable_ttl s"
    "fk_free_space s = demo_fsm" "fk_write_buffer s \<noteq> None" "buffered s = []" "fk_disk_io s = Some sync_io" "fk_persistency s"
    "fk_hash_table s = Map.empty" "ram.quiet w1"
proof -
  let ?w1 = "(blank_ram 0)\<lparr>ram_size := 4194304\<rparr>"
  let ?s0 = "initial_store (demo_env 5) disk_config"
  have "METADATA_BLOCK_SIZE < (4194304 :: nat) div BLOCK_SIZE" "(4194304 :: nat) < U64_LIM" by (simp_all add: kv_const U64_LIM_def)
  from initialize_ok[OF this] obtain f where f: "initialize fsm_new 4194304 = (f, Ok ())" by blast
  define s1 where "s1 = ?s0\<lparr>fk_persistence_size := 4194304, fk_free_space := f,
    fk_metadata := metadata_update (now_secs (demo_env 5)) ((fk_metadata ?s0)\<lparr>m_persistent_size := 4194304\<rparr>), fk_disk_io := Some sync_io\<rparr>"
  have o: "open_device (demo_env 5) demo_fs (\<lambda>_. None) (Some ''db'') (Some 4194304) (?s0, blank_ram 0) = ((s1, ?w1), Ok ())"
    using f by (simp add: open_device_def open_file_def regular_open_def demo_fs_def io_result_def Let_def s1_def
        initial_store_def blank_ram_def disk_io_new_def sync_io_def)
  have rd: "read_metadata ram_os sync_io ?w1 = (?w1, Ok (fetch 0 4096 (\<lambda>_. 0)))"
    by (simp add: read_metadata_def disk_io_defs ram_os_def sync_io_def blank_ram_def kv_const U64_LIM_def)
  have sig: "take SIGNATURE_SIZE (fetch 0 4096 (\<lambda>_. 0)) \<noteq> SIGNATURE"
    using zero_not_signature[of "\<lambda>_. 0"] by (simp add: kv_const)
  have l: "load_indexes (demo_env 5) (\<lambda>_. None) (s1, ?w1) = ((s1, ?w1), Ok ())"
    using rd sig by (simp add: load_indexes_def s1_def demo_env_def Let_def)
  have p: "fk_disk_io s1 = Some sync_io" by (simp add: s1_def)
  define wb where "wb = start_workers (Suc (Suc 0)) (write_buffer_new 4 (m_version (fk_metadata s1)))"
  have b: "build_with_config (demo_env 5) demo_fs (\<lambda>_. None) 4 disk_config (blank_ram 0) = (?w1, Ok (s1\<lparr>fk_write_buffer := Some wb\<rparr>))"
    using o l p by (simp add: build_with_config_def disk_config_facts kv_const Let_def wb_def)
  show thesis
  proof (rule that[OF b])
    show "buffered (s1\<lparr>fk_write_buffer := Some wb\<rparr>) = []"
      by (simp add: buffered_def wb_def start_workers_def write_buffer_new_def shard_new_def)
    show "ram.quiet ?w1" unfolding ram.quiet_def by (simp add: blank_ram_def ram_os_def)
  qed (simp_all add: s1_def initial_store_def stats_new_def disk_config_facts demo_fsm_def f)
qed

lemma demo_new:
  "open_file demo_fs ''db'' (blank_ram 0) = (blank_ram 0, Ok False)" "fs_len demo_fs (blank_ram 0) = Inr 0"
  "4194304 = (case c_file_size disk_config of Some n \<Rightarrow> n | None \<Rightarrow> DEFAULT_PERSISTENT_SIZE)" "(4194304 :: nat) < 2 ^ 63"
  "fs_set_len demo_fs 4194304 (blank_ram 0) = (w1, None) \<Longrightarrow> ram_content w1 0 = 0 \<and> ram.quiet w1"
  "ram.steady (disk_io_new (fst (fs_ring demo_fs)) (snd (fs_ring demo_fs)) False)" "e_os (demo_env 5) = ram_os"
proof -
  show "fs_set_len demo_fs 4194304 (blank_ram 0) = (w1, None) \<Longrightarrow> ram_content w1 0 = 0 \<and> ram.quiet w1"
    unfolding ram.quiet_def by (auto simp: demo_fs_def ram_os_def blank_ram_def)
  show "ram.steady (disk_io_new (fst (fs_ring demo_fs)) (snd (fs_ring demo_fs)) False)"
    using sync_steady by (simp add: demo_fs_def disk_io_new_def sync_io_def)
qed (simp_all add: open_file_def regular_open_def demo_fs_def io_result_def blank_ram_def disk_config_facts demo_env_def)




section \<open>A cache without a device\<close>

text \<open>A cached key is answered from the cache, whatever the indexes say.\<close>

lemma get_cached:
  assumes "validate_key key = Ok ()" "fk_enable_caching s" "fk_cache s = Some c" "cache_ok c st" "cache_lookup c key = Some v"
  shows "\<exists>s'. kv_get env key s w = Some ((s', w), Ok v)"
proof -
  obtain c' r where g: "cache_get key c = (c', r)" by fastforce
  with cache_get_result[OF assms(4) g] assms(5) have "r = Some v" by simp
  with g assms show ?thesis by (simp add: kv_get_def cached_def)
qed

lemma memory_update_frame:
  assumes "\<not> fk_persistency s" "fk_hash_table s key = Some a" "insert_internal env key value ts ttl s = (s', Ok False)"
  shows "fk_cache s' = fk_cache s \<and> fk_enable_caching s' = fk_enable_caching s \<and> validate_key key = Ok ()"
proof -
  have v: "validate_key_value key value = Ok ()" using assms(3) by (cases "validate_key_value key value") (auto simp: insert_internal_def)
  then have k: "validate_key key = Ok ()" by (cases "validate_key key") (auto simp: validate_key_value_def)
  obtain e where "update_record_with_ttl env a value (timestamp_or_now env ts) e s = (s', Ok False)"
    using assms(2,3) v by (auto simp: insert_internal_def Let_def split: if_splits elim: try_bind_OkD)
  with assms(1) k show ?thesis
    by (auto simp: update_record_with_ttl_def new_record_def index_put_def update_memory_usage_def Let_def split: option.splits)
qed

text \<open>
  C14. Stale reads of a store in memory with a cache. An update invalidates the cache only when the
  store is persistent: without a device, a key that was read before keeps its cached value, and every
  later read returns it although the indexes already hold the new value.
\<close>

theorem stale_cached_update:
  assumes "store_inv (e_rec_struct env) s" and "e_now env < U64_LIM" and "\<And>t. ts = Some t \<Longrightarrow> t < U64_LIM"
    and "st_memory_usage (fk_stats s) + calculate_record_size (e_rec_struct env) (length key) (length value) < U64_LIM"
    and "\<not> fk_persistency s" and "fk_enable_caching s" and "fk_cache s = Some c" and "cache_ok c (fk_stats s)"
    and "cache_lookup c key = Some old" and "insert_internal env key value ts ttl s = (s', Ok False)"
  shows "(\<exists>t e. kv_abs m s' key = Some (value, t, e)) \<and> (\<exists>s'' w'. kv_get env' key s' w = Some ((s'', w'), Ok old))"
proof -
  have sp: "(kv_abs m s', Ok False) = spec_insert (fk_enable_ttl s) (memory_room (e_rec_struct env) key value s) key value
       (timestamp_or_now env ts) ttl (kv_abs m s)"
    using insert_internal_result[OF assms(1-4,10), of m] by blast
  then have e: "\<exists>t e. kv_abs m s' key = Some (value, t, e)" and "kv_abs m s key \<noteq> None"
    by (auto simp: spec_insert_def split: if_splits option.splits outcome.splits)
  then obtain a where a: "fk_hash_table s key = Some a" by (auto simp: kv_abs_def)
  note F = memory_update_frame[OF assms(5) a assms(10)]
  have "\<exists>s''. kv_get env' key s' w = Some ((s'', w), Ok old)"
    by (rule get_cached[of key s' c "fk_stats s"]) (use F assms(6-9) in simp_all)
  with e show ?thesis by blast
qed

text \<open>The store of the witness: in memory, with a cache, one key, read once.\<close>

definition caching_store :: fun_kv where
  "caching_store = initial_store (demo_env 5) (build_config (with_caching True builder_new))"

lemma caching_store_fields:
  "\<not> fk_persistency caching_store" "fk_enable_caching caching_store" "fk_cache caching_store = Some cache_new"
  "\<not> fk_enable_ttl caching_store" "fk_stats caching_store = stats_new" "fk_max_memory caching_store = Some DEFAULT_MAX_MEMORY"
  by (simp_all add: caching_store_def initial_store_def build_config_def with_caching_def builder_new_def Let_def)

definition caching_once :: fun_kv where
  "caching_once = fst (insert_internal (demo_env 5) [1] [2] None 0 caching_store)"

lemma caching_once_fields:
  "insert_internal (demo_env 5) [1] [2] None 0 caching_store = (caching_once, Ok True)"
  "\<not> fk_persistency caching_once" "fk_enable_caching caching_once" "fk_cache caching_once = Some cache_new"
  "fk_hash_table caching_once = [[1] \<mapsto> 0]" "fk_heap caching_once 0 = record_new [1] [2] 5" "\<not> fk_enable_ttl caching_once"
  "st_cache_memory (fk_stats caching_once) = 0" "st_memory_usage (fk_stats caching_once) = 102"
  by (simp_all add: caching_once_def caching_store_def initial_store_def build_config_def with_caching_def builder_new_def
      insert_internal_def validate_key_value_def validate_key_def check_memory_limit_def checked_add_def calculate_record_size_def
      new_record_def index_put_def upd_stats_def record_insert_def make_record_def timestamp_or_now_def demo_env_def stats_new_def
      kv_const U64_LIM_def wrapping_add_def Let_def)

lemma caching_once_inv: "store_inv 100 caching_once" "kv_abs m caching_once = [[1] \<mapsto> ([2], 5, 0)]"
proof -
  have e: "kv_abs m caching_store = Map.empty" unfolding caching_store_def by (rule initial_store_inv(2))
  have i: "store_inv (e_rec_struct (demo_env 5)) caching_store" using initial_store_inv(1) by (simp add: caching_store_def)
  have "(kv_abs m caching_once, Ok True) = spec_insert False (memory_room 100 [1] [2] caching_store) [1] [2] 5 0 Map.empty \<and> store_inv 100 caching_once"
    using insert_internal_result[OF i _ _ _ caching_once_fields(1), of m]
    by (simp add: e caching_store_fields demo_env_def timestamp_or_now_def calculate_record_size_def stats_new_def U64_LIM_def)
  then show "store_inv 100 caching_once" "kv_abs m caching_once = [[1] \<mapsto> ([2], 5, 0)]"
    by (auto simp: spec_insert_def spec_expiry_def split: if_splits)
qed

lemma caching_read:
  obtains s2 c2 where "kv_get (demo_env 6) [1] caching_once w = Some ((s2, w), Ok [2])" "same_core caching_once s2"
    "fk_cache s2 = Some c2" "cache_ok c2 (fk_stats s2)" "cache_lookup c2 [1] = Some [2]"
proof -
  obtain c1 r where g: "cache_get [1] cache_new = (c1, r)" by fastforce
  have ok1: "cache_ok c1 stats_new" and r: "r = None"
    using cache_get_result[OF cache_new_ok g] by (simp_all add: cache_lookup_def cache_new_def bucket_lookup_def)
  have adm: "cache_admits [1] [2] c1"
    using g by (auto simp: cache_get_def cache_admits_def entry_size_def cache_new_def kv_const Let_def split: prod.splits)
  have ok: "cache_ok c1 (fk_stats caching_once)"
    using ok1 cache_ok_stats[of "fk_stats caching_once" stats_new c1] by (simp add: caching_once_fields stats_new_def)
  obtain c2 st where i: "cache_insert [1] [2] c1 (fk_stats caching_once) = Some (Ok (c2, st))" "cache_ok c2 st" "cache_lookup c2 [1] = Some [2]"
    using cache_insert_result[OF ok adm] by blast
  from cache_insert_counters[OF i(1)] have n: "st_record_count st = st_record_count (fk_stats caching_once)"
    "st_memory_usage st = st_memory_usage (fk_stats caching_once)" by (auto simp: cache_counters_def)
  define s2 where "s2 = upd_stats (record_get 1 True) (caching_once\<lparr>fk_cache := Some c2, fk_stats := st\<rparr>)"
  have k: "validate_key [1] = Ok ()" by (simp add: validate_key_def kv_const)
  have run: "kv_get (demo_env 6) [1] caching_once w = Some ((s2, w), Ok [2])"
    using k g r i(1) by (simp add: kv_get_def cached_def caching_once_fields fetch_value_def get_value_def record_new_def cache_fill_def
        s2_def demo_env_def Let_def)
  have "cache_ok c2 (fk_stats s2)" using cache_ok_stats[of "fk_stats s2" st c2] i(2) by (simp add: s2_def upd_stats_def record_get_def)
  moreover have "same_core caching_once s2" using n by (simp add: s2_def upd_stats_def same_core_def record_get_def)
  ultimately show thesis using that[OF run, of c2] i(3) by (simp add: s2_def upd_stats_def)
qed

theorem stale_cached_update_witness:
  "\<exists>s1 s2 s3 s4 w'. insert_internal (demo_env 5) [1] [2] None 0 caching_store = (s1, Ok True) \<and>
     kv_get (demo_env 6) [1] s1 (blank_ram 0) = Some ((s2, blank_ram 0), Ok [2]) \<and>
     insert_internal (demo_env 7) [1] [3] None 0 s2 = (s3, Ok False) \<and>
     kv_get (demo_env 8) [1] s3 (blank_ram 0) = Some ((s4, w'), Ok [2])"
proof -
  obtain s2 c2 where s2: "kv_get (demo_env 6) [1] caching_once (blank_ram 0) = Some ((s2, blank_ram 0), Ok [2])" "same_core caching_once s2"
    "fk_cache s2 = Some c2" "cache_ok c2 (fk_stats s2)" "cache_lookup c2 [1] = Some [2]" by (rule caching_read)
  have C: "\<not> fk_persistency s2" "fk_enable_caching s2" "st_memory_usage (fk_stats s2) = 102" "\<not> fk_enable_ttl s2"
    using s2(2) caching_once_fields by (simp_all add: same_core_def)
  have i: "store_inv (e_rec_struct (demo_env 7)) s2" using same_core_inv[OF s2(2)] caching_once_inv(1) by (simp add: demo_env_def)
  have A: "kv_abs (\<lambda>_. 0) s2 = [[1] \<mapsto> ([2], 5, 0)]" using same_core_abs[OF s2(2)] caching_once_inv(2) by simp
  have room: "e_now (demo_env 7) < U64_LIM"
    "st_memory_usage (fk_stats s2) + calculate_record_size (e_rec_struct (demo_env 7)) (length [1 :: byte]) (length [3 :: byte]) < U64_LIM"
    by (simp_all add: C demo_env_def calculate_record_size_def U64_LIM_def)
  obtain s3 r where run: "insert_internal (demo_env 7) [1] [3] None 0 s2 = (s3, r)" by fastforce
  have "(kv_abs (\<lambda>_. 0) s3, r) = spec_insert (fk_enable_ttl s2) (memory_room (e_rec_struct (demo_env 7)) [1] [3] s2) [1] [3] (timestamp_or_now (demo_env 7) None) 0 (kv_abs (\<lambda>_. 0) s2)"
    using insert_internal_result[OF i room(1) _ room(2) run] by blast
  then have "r = Ok False" by (simp add: A spec_insert_def spec_expiry_def timestamp_or_now_def demo_env_def)
  note run = run[unfolded this]
  have "\<exists>s4 w'. kv_get (demo_env 8) [1] s3 (blank_ram 0) = Some ((s4, w'), Ok [2])"
    using stale_cached_update[OF i room(1) _ room(2) C(1,2) s2(3-5) run, of "\<lambda>_. 0" "demo_env 8" "blank_ram 0"] by blast
  with caching_once_fields(1) s2(1) run show ?thesis by blast
qed

end
