(* ===== verification/Ttl.thy ===== *)
theory Ttl
  imports Store_Theorems
begin

text \<open>
  The expiry sweeper of src/core/ttl.rs: sampling of the hash table, removal of expired keys, the
  loop of one run and the loop of the thread. What a sampling draws from its surroundings is its
  \<open>draw\<close>: the order in which \<open>iter_sync\<close> visits the table and the random number; what a wake of the
  thread observes is its \<open>wake\<close>.
\<close>

section \<open>Sampling\<close>

type_synonym draw = "((bytes \<rightharpoonup> addr) \<Rightarrow> (bytes \<times> addr) list) \<times> nat"

text \<open>
  The candidates are the entries with an expiry among the first hundred visited.
  \<open>random_range(0..n)\<close> is a number modulo \<open>n\<close>.
\<close>

definition get_random_ttl_entry :: "heap \<Rightarrow> (bytes \<times> addr) list \<Rightarrow> nat \<Rightarrow> (bytes \<times> addr) option" where
  "get_random_ttl_entry h entries number =
     (let candidates = filter (\<lambda>(key, a). 0 < r_ttl_expiry (h a)) (take 100 entries)
      in if candidates = [] then None else Some (candidates ! (number mod length candidates)))"

definition remove_from_tree :: "bytes \<Rightarrow> fun_kv \<Rightarrow> fun_kv" where
  "remove_from_tree key s = s\<lparr>fk_tree := om_remove key (fk_tree s)\<rparr>"

definition get_hash_table :: "fun_kv \<Rightarrow> bytes \<rightharpoonup> addr" where
  "get_hash_table s = fk_hash_table s"

definition get_write_buffer :: "fun_kv \<Rightarrow> write_buffer option" where
  "get_write_buffer s = fk_write_buffer s"

text \<open>One turn of the sampling loop, with the counts of sampled and expired entries.\<close>

definition sample_one :: "'w env \<Rightarrow> draw \<Rightarrow> fun_kv \<times> nat \<times> nat \<Rightarrow> fun_kv \<times> nat \<times> nat" where
  "sample_one env d st =
     (case (d, st) of ((iter, number), (s, sampled, expired)) \<Rightarrow>
        case get_random_ttl_entry (fk_heap s) (iter (get_hash_table s)) number of
          None \<Rightarrow> (s, sampled, expired)
        | Some (key, a) \<Rightarrow>
            let expiry = r_ttl_expiry (fk_heap s a)
            in if 0 < expiry \<and> expiry < e_now env
               then
                 let s1 = remove_from_tree key (s\<lparr>fk_hash_table := (fk_hash_table s)(key := None)\<rparr>);
                     s2 = (if 0 < r_sector (fk_heap s1 a) \<and> get_write_buffer s1 \<noteq> None
                           then buffer_write env Delete a 0 s1 else s1)
                 in (s2, sampled + 1, expired + 1)
               else (s, sampled + 1, expired))"

definition sample_and_expire_batch :: "'w env \<Rightarrow> ttl_config \<Rightarrow> (nat \<Rightarrow> draw) \<Rightarrow> fun_kv \<Rightarrow> fun_kv \<times> nat \<times> nat" where
  "sample_and_expire_batch env config draws s =
     fold (\<lambda>i. sample_one env (draws i)) [0..<tc_sample_size config] (s, 0, 0)"

section \<open>Single precision\<close>

text \<open>
  \<open>expired as f32 / sampled as f32\<close>, with the rounding to 24 bits, ties to even, of both casts and
  of the division. Quotients of 64-bit counts are in the normal range.
\<close>

definition round_half_even :: "nat \<Rightarrow> nat \<Rightarrow> nat" where
  "round_half_even n d =
     (let q = n div d; r = n mod d in if 2 * r < d \<or> (2 * r = d \<and> even q) then q else q + 1)"

function f32_down :: "nat \<Rightarrow> nat \<Rightarrow> nat" where
  "f32_down n d = (if 0 < d \<and> 2 ^ 24 * d \<le> n then Suc (f32_down n (2 * d)) else 0)"
  by pat_completeness auto
termination by (relation "measure (\<lambda>(n, d). Suc n - d)") auto

function f32_up :: "nat \<Rightarrow> nat \<Rightarrow> nat" where
  "f32_up n d = (if 0 < n \<and> n < 2 ^ 23 * d then Suc (f32_up (2 * n) d) else 0)"
  by pat_completeness auto
termination by (relation "measure (\<lambda>(n, d). 2 ^ 23 * d - n)") auto

declare f32_down.simps [simp del] f32_up.simps [simp del]

definition f32_cast :: "nat \<Rightarrow> nat" where
  "f32_cast n = (let k = f32_down n 1 in round_half_even n (2 ^ k) * 2 ^ k)"

definition f32_div :: "nat \<Rightarrow> nat \<Rightarrow> rat" where
  "f32_div a b =
     (if a < 2 ^ 23 * b
      then let k = f32_up a b in of_nat (round_half_even (a * 2 ^ k) b) / 2 ^ k
      else let k = f32_down a b in of_nat (round_half_even a (b * 2 ^ k) * 2 ^ k))"

definition expiry_rate :: "nat \<Rightarrow> nat \<Rightarrow> rat" where
  "expiry_rate sampled expired = (if 0 < sampled then f32_div (f32_cast expired) (f32_cast sampled) else 0)"

section \<open>The thread\<close>

record 'w wake =
  wk_shutdown :: bool
  wk_alive :: bool
  wk_env :: "nat \<Rightarrow> 'w env"
  wk_draws :: "nat \<Rightarrow> nat \<Rightarrow> draw"
  wk_elapsed :: "nat \<Rightarrow> nat"
  wk_clock :: nat
  wk_shutdown_after :: bool

text \<open>
  The inner loop, from iteration \<open>iterations\<close> on. A run samples at most
  \<open>max_iterations * sample_size\<close> entries, so the sums do not overflow.
\<close>

function sweep_loop :: "ttl_config \<Rightarrow> 'w wake \<Rightarrow> nat \<Rightarrow> fun_kv \<times> nat \<times> nat \<Rightarrow> fun_kv \<times> nat \<times> nat" where
  "sweep_loop config wk iterations st =
     (let (s, total_sampled, total_expired) = st;
          (s', sampled, expired) = sample_and_expire_batch (wk_env wk iterations) config (wk_draws wk iterations) s;
          st' = (s', total_sampled + sampled, total_expired + expired)
      in if expiry_rate sampled expired < tc_expiry_threshold config then st'
         else if tc_max_iterations config \<le> iterations + 1 then st'
         else if tc_max_time_per_run config < wk_elapsed wk iterations then st'
         else sweep_loop config wk (iterations + 1) st')"
  by pat_completeness auto
termination by (relation "measure (\<lambda>(config, wk, iterations, st). tc_max_iterations config - iterations)") auto

declare sweep_loop.simps [simp del]

text \<open>One run and its statistics, kept only when something was sampled.\<close>

definition sweep_run :: "ttl_config \<Rightarrow> 'w wake \<Rightarrow> fun_kv \<times> ttl_sweeper_stats \<Rightarrow> fun_kv \<times> ttl_sweeper_stats" where
  "sweep_run config wk st =
     (let (s, stats) = st; (s', total_sampled, total_expired) = sweep_loop config wk 0 (s, 0, 0)
      in (s', if 0 < total_sampled
              then stats\<lparr>ts_total_sampled := wrapping_add (ts_total_sampled stats) total_sampled,
                         ts_total_expired := wrapping_add (ts_total_expired stats) total_expired,
                         ts_total_runs := wrapping_add (ts_total_runs stats) 1,
                         ts_last_run := wk_clock wk mod U64_LIM\<rparr>
              else stats))"

fun run_sweeper_loop :: "ttl_config \<Rightarrow> 'w wake list \<Rightarrow> fun_kv \<times> ttl_sweeper_stats \<Rightarrow> fun_kv \<times> ttl_sweeper_stats" where
  "run_sweeper_loop config [] st = st"
| "run_sweeper_loop config (wk # wakes) st =
     (if wk_shutdown wk \<or> \<not> wk_alive wk then st
      else let st' = sweep_run config wk st
           in if wk_shutdown_after wk then st' else run_sweeper_loop config wakes st')"

definition start_ttl_sweeper :: "ttl_config option \<Rightarrow> fun_kv \<Rightarrow> fun_kv \<times> unit res" where
  "start_ttl_sweeper config s =
     (if \<not> fk_enable_ttl s then (s, Err TtlNotEnabled)
      else
        let ttl_config = (case config of Some c \<Rightarrow> c | None \<Rightarrow> ttl_config_default)
        in (if tc_enabled ttl_config then s\<lparr>fk_ttl := Some (ttl_start (ttl_sweeper_new ttl_config))\<rparr> else s, Ok ()))"

text \<open>The counters of a sweeper as it reports them.\<close>

record ttl_sweeper_snapshot =
  tn_total_sampled :: nat
  tn_total_expired :: nat
  tn_total_runs :: nat
  tn_last_run :: nat

definition ttl_stats :: "ttl_sweeper \<Rightarrow> ttl_sweeper_snapshot" where
  "ttl_stats tw =
     \<lparr>tn_total_sampled = ts_total_sampled (tw_stats tw), tn_total_expired = ts_total_expired (tw_stats tw),
      tn_total_runs = ts_total_runs (tw_stats tw), tn_last_run = ts_last_run (tw_stats tw)\<rparr>"

section \<open>What a sweep does\<close>

text \<open>\<open>iter_sync\<close> visits every entry of the table once, in an order of its own.\<close>

definition table_order :: "((bytes \<rightharpoonup> addr) \<Rightarrow> (bytes \<times> addr) list) \<Rightarrow> bool" where
  "table_order iter \<longleftrightarrow> (\<forall>H. finite (dom H) \<longrightarrow> map_of (iter H) = H \<and> distinct (map fst (iter H)))"

lemma table_orderD:
  assumes "table_order iter" "finite (dom H)"
  shows "(k, a) \<in> set (iter H) \<longleftrightarrow> H k = Some a" "length (iter H) = card (dom H)"
proof -
  have m: "map_of (iter H) = H" "distinct (map fst (iter H))" using assms by (auto simp: table_order_def)
  then show "(k, a) \<in> set (iter H) \<longleftrightarrow> H k = Some a" using map_of_eq_Some_iff by metis
  have "dom H = set (map fst (iter H))" using m(1) dom_map_of_conv_image_fst[of "iter H"] by simp
  then show "length (iter H) = card (dom H)" using distinct_card[OF m(2)] by simp
qed

definition table_ok :: "fun_kv \<Rightarrow> bool" where
  "table_ok s \<longleftrightarrow> finite (dom (fk_hash_table s)) \<and> om_inv (fk_tree s) \<and> om_get (fk_tree s) = fk_hash_table s"

lemma store_table_ok: "store_inv rs s \<Longrightarrow> table_ok s"
  by (auto simp: store_inv_def table_ok_def finite_dom_map_of dest!: sym[of "om_get _"])

text \<open>
  \<open>n\<close> keys are gone, all with an expiry before \<open>now\<close>; records, cache and counters are as before.
\<close>

definition swept :: "nat \<Rightarrow> nat \<Rightarrow> fun_kv \<Rightarrow> fun_kv \<Rightarrow> bool" where
  "swept now n s s' \<longleftrightarrow> table_ok s' \<and> fk_heap s' = fk_heap s \<and> fk_hash_table s' \<subseteq>\<^sub>m fk_hash_table s \<and>
     (\<forall>k a. fk_hash_table s k = Some a \<longrightarrow> fk_hash_table s' k = None \<longrightarrow>
        0 < r_ttl_expiry (fk_heap s a) \<and> r_ttl_expiry (fk_heap s a) < now) \<and>
     card (dom (fk_hash_table s)) = card (dom (fk_hash_table s')) + n \<and>
     kv_len s' = kv_len s \<and> memory_usage s' = memory_usage s \<and> fk_cache s' = fk_cache s \<and> fk_enable_ttl s' = fk_enable_ttl s"

lemma swept_refl: "table_ok s \<Longrightarrow> swept now 0 s s"
  by (simp add: swept_def)

lemma swept_trans:
  assumes "swept now n s s1" "swept now m s1 s2"
  shows "swept now (n + m) s s2"
proof -
  have "0 < r_ttl_expiry (fk_heap s a) \<and> r_ttl_expiry (fk_heap s a) < now"
    if "fk_hash_table s k = Some a" "fk_hash_table s2 k = None" for k a
  proof (cases "fk_hash_table s1 k")
    case (Some b)
    then have "b = a" using assms(1) that(1) by (force simp: swept_def map_le_def dom_def)
    with Some assms that show ?thesis by (simp add: swept_def)
  qed (use assms(1) that in \<open>simp add: swept_def\<close>)
  with assms show ?thesis by (auto simp: swept_def intro: map_le_trans)
qed

lemma swept_mono: "swept now n s s' \<Longrightarrow> now \<le> now' \<Longrightarrow> swept now' n s s'"
  by (fastforce simp: swept_def)

lemma buffer_write_cache: "fk_cache (buffer_write env op a n s) = fk_cache s"
  by (simp add: buffer_write_def split: option.split prod.split)

text \<open>The entry drawn is a key with an expiry.\<close>

lemma random_entry:
  assumes "table_order iter" "finite (dom H)" "get_random_ttl_entry h (iter H) number = Some (k, a)"
  shows "H k = Some a" "0 < r_ttl_expiry (h a)"
proof -
  let ?c = "filter (\<lambda>(key, a). 0 < r_ttl_expiry (h a)) (take 100 (iter H))"
  have "?c \<noteq> []" "(k, a) = ?c ! (number mod length ?c)"
    using assms(3) by (auto simp: get_random_ttl_entry_def Let_def split: if_splits)
  then have "(k, a) \<in> set ?c" by (metis length_greater_0_conv mod_less_divisor nth_mem)
  then have "(k, a) \<in> set (iter H)" "0 < r_ttl_expiry (h a)" by (auto dest: in_set_takeD)
  then show "H k = Some a" "0 < r_ttl_expiry (h a)" using table_orderD(1)[OF assms(1,2)] by auto
qed

lemma random_entry_exists:
  assumes "table_order iter" "finite (dom H)" "card (dom H) \<le> 100" "H k = Some a" "0 < r_ttl_expiry (h a)"
  shows "get_random_ttl_entry h (iter H) number \<noteq> None"
proof -
  have "take 100 (iter H) = iter H" using table_orderD(2)[OF assms(1,2)] assms(3) by simp
  moreover have "(k, a) \<in> set (iter H)" using table_orderD(1)[OF assms(1,2)] assms(4) by simp
  ultimately have "filter (\<lambda>(key, a). 0 < r_ttl_expiry (h a)) (take 100 (iter H)) \<noteq> []"
    using assms(5) by (auto simp: filter_empty_conv)
  then show ?thesis by (simp add: get_random_ttl_entry_def Let_def del: not_None_eq)
qed

text \<open>One sampling leaves the store alone or removes one expired key.\<close>

lemma sample_one_result:
  assumes ok: "table_ok s" and iter: "table_order (fst d)" and run: "sample_one env d (s, i, n) = (s', i', n')"
  shows "s' = s \<and> n' = n \<or>
    n' = n + 1 \<and> swept (e_now env) 1 s s' \<and> (\<exists>k a. fk_hash_table s k = Some a \<and> 0 < r_ttl_expiry (fk_heap s a) \<and> fk_hash_table s' = (fk_hash_table s)(k := None))"
proof -
  obtain it num where d: "d = (it, num)" by fastforce
  let ?H = "fk_hash_table s"
  have fin: "finite (dom ?H)" using ok by (simp add: table_ok_def)
  show ?thesis
  proof (cases "get_random_ttl_entry (fk_heap s) (it ?H) num")
    case None
    with run show ?thesis by (simp add: sample_one_def d get_hash_table_def)
  next
    case (Some p)
    then obtain k a where p: "get_random_ttl_entry (fk_heap s) (it ?H) num = Some (k, a)" by (cases p) auto
    note E = random_entry[OF iter[unfolded d fst_conv] fin p]
    show ?thesis
    proof (cases "r_ttl_expiry (fk_heap s a) < e_now env")
      case False
      with run p E(2) show ?thesis by (simp add: sample_one_def d get_hash_table_def)
    next
      case True
      define s1 where "s1 = remove_from_tree k (s\<lparr>fk_hash_table := ?H(k := None)\<rparr>)"
      have s': "s' = (if 0 < r_sector (fk_heap s1 a) \<and> fk_write_buffer s1 \<noteq> None then buffer_write env Delete a 0 s1 else s1)" "n' = n + 1"
        using run p E(2) True by (auto simp: sample_one_def d get_hash_table_def get_write_buffer_def s1_def Let_def)
      have c: "same_core s1 s'" "fk_cache s' = fk_cache s1"
        using same_core_buffer_write[of s1] buffer_write_cache by (auto simp: s'(1) same_core_def)
      have c1: "card (dom ?H) = card (dom (?H(k := None))) + 1"
        using fin E(1) card_Suc_Diff1[of "dom ?H" k] by (auto simp: domI)
      have t1: "table_ok s1" using ok by (simp add: table_ok_def s1_def remove_from_tree_def om_inv_remove)
      have "swept (e_now env) 1 s s'"
        using c c1 t1 E True
        by (auto simp: swept_def same_core_def table_ok_def s1_def remove_from_tree_def map_le_def kv_len_def memory_usage_def split: if_splits)
      moreover have "fk_hash_table s' = ?H(k := None)" using c(1) by (simp add: same_core_def s1_def remove_from_tree_def)
      ultimately show ?thesis using s'(2) E by blast
    qed
  qed
qed

lemma samples_result:
  assumes "table_ok s" "\<And>j. table_order (fst (draws j))" "fold (\<lambda>j. sample_one env (draws j)) js (s, i, n) = (s', i', n')"
  shows "n \<le> n' \<and> swept (e_now env) (n' - n) s s'"
  using assms(1,3)
proof (induction js arbitrary: s i n)
  case Nil
  then show ?case using swept_refl by simp
next
  case (Cons j js)
  obtain s1 i1 n1 where 1: "sample_one env (draws j) (s, i, n) = (s1, i1, n1)" by (metis prod.collapse)
  have rest: "fold (\<lambda>j. sample_one env (draws j)) js (s1, i1, n1) = (s', i', n')" using Cons.prems(2) 1 by simp
  from sample_one_result[OF Cons.prems(1) assms(2) 1] have n1: "n \<le> n1 \<and> swept (e_now env) (n1 - n) s s1"
    using swept_refl[OF Cons.prems(1)] by auto
  then have "table_ok s1" by (simp add: swept_def)
  from Cons.IH[OF this rest] n1 show ?case using swept_trans[of "e_now env" "n1 - n" s s1 "n' - n1" s'] by auto
qed

lemma batch_result:
  assumes "table_ok s" "\<And>j. table_order (fst (draws j))" "sample_and_expire_batch env config draws s = (s', i, n)"
  shows "swept (e_now env) n s s'"
  using samples_result[OF assms(1,2) assms(3)[unfolded sample_and_expire_batch_def]] by simp

lemma sweep_loop_result:
  assumes "table_ok s" "\<And>i j. table_order (fst (wk_draws wk i j))" "\<And>i. e_now (wk_env wk i) \<le> now"
    and "sweep_loop config wk iterations (s, i, n) = (s', i', n')"
  shows "n \<le> n' \<and> swept now (n' - n) s s'"
  using assms(1,4)
proof (induction "tc_max_iterations config - iterations" arbitrary: iterations s i n rule: less_induct)
  case less
  obtain s1 i1 n1 where b: "sample_and_expire_batch (wk_env wk iterations) config (wk_draws wk iterations) s = (s1, i1, n1)"
    by (metis prod.collapse)
  have sw: "swept now n1 s s1"
    using batch_result[OF less.prems(1) _ b] swept_mono assms(2,3) by blast
  then have ok: "table_ok s1" by (simp add: swept_def)
  define stop where "stop \<longleftrightarrow> expiry_rate i1 n1 < tc_expiry_threshold config \<or> tc_max_iterations config \<le> iterations + 1 \<or>
    tc_max_time_per_run config < wk_elapsed wk iterations"
  have step: "sweep_loop config wk iterations (s, i, n) =
      (if stop then (s1, i + i1, n + n1) else sweep_loop config wk (iterations + 1) (s1, i + i1, n + n1))"
    by (subst sweep_loop.simps) (simp add: b stop_def Let_def)
  show ?case
  proof (cases stop)
    case False
    then have "tc_max_iterations config - (iterations + 1) < tc_max_iterations config - iterations" by (auto simp: stop_def)
    moreover have "sweep_loop config wk (iterations + 1) (s1, i + i1, n + n1) = (s', i', n')" using less.prems(2) False step by simp
    ultimately have "n + n1 \<le> n' \<and> swept now (n' - (n + n1)) s1 s'" by (rule less.hyps[OF _ ok])
    with sw show ?thesis using swept_trans[of now n1 s s1 "n' - (n + n1)" s'] by simp
  qed (use sw step less.prems(2) in simp)
qed

lemma swept_abs:
  assumes "swept now n s s'"
  shows "kv_abs m s' k = kv_abs m s k \<or> kv_abs m s' k = None \<and> (\<exists>v t e. kv_abs m s k = Some (v, t, e) \<and> 0 < e \<and> e < now)"
proof (cases "fk_hash_table s' k")
  case (Some a)
  then have "fk_hash_table s k = Some a" using assms by (force simp: swept_def map_le_def dom_def)
  with Some assms show ?thesis by (simp add: swept_def kv_abs_def)
next
  case None
  with assms show ?thesis by (cases "fk_hash_table s k") (auto simp: swept_def kv_abs_def entry_of_def)
qed

text \<open>The keys with an expiry.\<close>

definition ttl_keys :: "fun_kv \<Rightarrow> bytes set" where
  "ttl_keys s = {k. \<exists>a. fk_hash_table s k = Some a \<and> 0 < r_ttl_expiry (fk_heap s a)}"

lemma ttl_keys_dom: "ttl_keys s \<subseteq> dom (fk_hash_table s)"
  by (auto simp: ttl_keys_def)

text \<open>With all of them expired and within reach of the sampling, every draw removes one.\<close>

lemma sample_one_drains:
  assumes ok: "table_ok s" and iter: "table_order (fst d)" and small: "card (dom (fk_hash_table s)) \<le> 100"
    and exp: "\<And>k a. fk_hash_table s k = Some a \<Longrightarrow> r_ttl_expiry (fk_heap s a) < e_now env"
    and run: "sample_one env d (s, i, n) = (s', i', n')" and ne: "ttl_keys s \<noteq> {}"
  shows "card (ttl_keys s) = Suc (card (ttl_keys s'))"
proof -
  have fin: "finite (dom (fk_hash_table s))" using ok by (simp add: table_ok_def)
  obtain it num where d: "d = (it, num)" by fastforce
  from ne obtain k0 a0 where "fk_hash_table s k0 = Some a0" "0 < r_ttl_expiry (fk_heap s a0)" by (auto simp: ttl_keys_def)
  then obtain k a where p: "get_random_ttl_entry (fk_heap s) (it (fk_hash_table s)) num = Some (k, a)"
    using random_entry_exists[OF iter fin small, of k0 a0 "fk_heap s" num] by (auto simp: d)
  from random_entry[OF iter[unfolded d fst_conv] fin p] exp have "n' \<noteq> n"
    using run p by (auto simp: sample_one_def d get_hash_table_def Let_def)
  with sample_one_result[OF ok iter run] obtain k a where sw: "swept (e_now env) 1 s s'"
    and k: "fk_hash_table s k = Some a" "0 < r_ttl_expiry (fk_heap s a)" "fk_hash_table s' = (fk_hash_table s)(k := None)" by blast
  have "ttl_keys s' = ttl_keys s - {k}" using sw k(3) by (auto simp: ttl_keys_def swept_def split: if_splits)
  moreover have "k \<in> ttl_keys s" using k by (simp add: ttl_keys_def)
  ultimately show ?thesis using card_Suc_Diff1[OF finite_subset[OF ttl_keys_dom fin]] by metis
qed

lemma samples_drain:
  assumes "table_ok s" "\<And>j. table_order (fst (draws j))" "card (dom (fk_hash_table s)) \<le> 100"
    and "\<And>k a. fk_hash_table s k = Some a \<Longrightarrow> r_ttl_expiry (fk_heap s a) < e_now env"
    and "fold (\<lambda>j. sample_one env (draws j)) js (s, i, n) = (s', i', n')" and "card (ttl_keys s) \<le> length js"
  shows "ttl_keys s' = {}"
  using assms(1,3-6)
proof (induction js arbitrary: s i n)
  case Nil
  then show ?case using finite_subset[OF ttl_keys_dom, of s] by (simp add: table_ok_def)
next
  case (Cons j js)
  obtain s1 i1 n1 where 1: "sample_one env (draws j) (s, i, n) = (s1, i1, n1)" by (metis prod.collapse)
  note R = sample_one_result[OF Cons.prems(1) assms(2) 1]
  have sw: "swept (e_now env) (n1 - n) s s1" using R swept_refl[OF Cons.prems(1)] by auto
  show ?case
  proof (rule Cons.IH)
    show "table_ok s1" "card (dom (fk_hash_table s1)) \<le> 100" using sw Cons.prems(2) by (simp_all add: swept_def)
    show "r_ttl_expiry (fk_heap s1 a) < e_now env" if "fk_hash_table s1 k = Some a" for k a
    proof -
      have "fk_hash_table s k = Some a" using sw that by (force simp: swept_def map_le_def dom_def)
      with Cons.prems(3) sw show ?thesis by (simp add: swept_def)
    qed
    show "fold (\<lambda>j. sample_one env (draws j)) js (s1, i1, n1) = (s', i', n')" using Cons.prems(4) 1 by simp
    show "card (ttl_keys s1) \<le> length js"
    proof (cases "ttl_keys s = {}")
      case True
      then have "ttl_keys s1 = {}" using R by (auto simp: ttl_keys_def)
      then show ?thesis by simp
    next
      case False
      from sample_one_drains[OF Cons.prems(1) assms(2) Cons.prems(2,3) 1 False] Cons.prems(5) show ?thesis by simp
    qed
  qed
qed

text \<open>A visit in key order, and a wake of the sweeper long after the demo key has expired.\<close>

definition key_order :: "(bytes \<rightharpoonup> addr) \<Rightarrow> (bytes \<times> addr) list" where
  "key_order H = map (\<lambda>k. (k, the (H k))) (sorted_list_of_set (dom H))"

lemma key_order_ok: "table_order key_order"
proof -
  have "map_of (map (\<lambda>k. (k, the (H k))) xs) = H |` set xs" if "set xs \<subseteq> dom H" for H :: "bytes \<rightharpoonup> addr" and xs
    using that by (induction xs) (auto simp: restrict_map_def fun_eq_iff)
  from this[of "sorted_list_of_set (dom H)" H for H] show ?thesis
    by (auto simp: table_order_def key_order_def comp_def restrict_map_def fun_eq_iff domIff split: if_splits)
qed

definition demo_wake :: "ram wake" where
  "demo_wake = \<lparr>wk_shutdown = False, wk_alive = True, wk_env = (\<lambda>_. demo_env 8000000000), wk_draws = (\<lambda>_ _. (key_order, 0)),
     wk_elapsed = (\<lambda>_. 0), wk_clock = 8000000000, wk_shutdown_after = False\<rparr>"

definition one_batch :: ttl_config where
  "one_batch = ttl_config_default\<lparr>tc_max_iterations := 1\<rparr>"



text \<open>
  C13. A sweep does not count what it removes: the sweeper takes the expired keys out of the indexes,
  but the number of records and the memory in use that the store reports stay as they were, so that
  afterwards \<open>len\<close> exceeds the number of keys by the keys swept, and the memory limit keeps
  counting records that are gone.
\<close>

theorem sweep_leaves_counters:
  assumes "store_inv rs s" and "\<And>i j. table_order (fst (wk_draws wk i j))"
    and "\<And>i. e_now (wk_env wk i) < U64_LIM" and "sweep_loop config wk 0 (s, 0, 0) = (s', sampled, expired)"
  shows "kv_len s' = (card (dom (kv_abs m s')) + expired) mod 2 ^ 32 \<and> memory_usage s' = memory_usage s \<and> fk_cache s' = fk_cache s"
proof -
  from sweep_loop_result[OF store_table_ok[OF assms(1)] assms(2) less_imp_le[OF assms(3)] assms(4)]
  have sw: "swept U64_LIM expired s s'" by simp
  have "card (dom (kv_abs m s)) = card (dom (kv_abs m s')) + expired" using sw by (simp add: dom_kv_abs swept_def)
  with store_len[OF assms(1), of m] sw show ?thesis by (simp add: swept_def)
qed

theorem sweep_leaves_counters_witness:
  "\<exists>s s' sampled expired. insert_internal (demo_env 5) [1] [2, 3] None 7 demo_store = (s, Ok True) \<and>
     sweep_loop one_batch demo_wake 0 (s, 0, 0) = (s', sampled, expired) \<and>
     kv_abs (\<lambda>_. 0) s' = Map.empty \<and> kv_len s' = 1"
proof -
  obtain s where s: "insert_internal (demo_env 5) [1] [2, 3] None 7 demo_store = (s, Ok True)"
    "kv_abs (\<lambda>_. 0) s = [[1] \<mapsto> ([2, 3], 5, 7000000005)]" "kv_ok 100 (\<lambda>_. 0) s" by (rule demo_insert)
  have d: "table_order (fst (wk_draws demo_wake i j))" "e_now (wk_env demo_wake i) < U64_LIM" for i j
    by (simp_all add: demo_wake_def key_order_ok demo_env_def U64_LIM_def)
  obtain s' i n where b: "sample_and_expire_batch (wk_env demo_wake 0) one_batch (wk_draws demo_wake 0) s = (s', i, n)"
    by (metis prod.collapse)
  have run: "sweep_loop one_batch demo_wake 0 (s, 0, 0) = (s', i, n)"
    by (subst sweep_loop.simps) (simp add: b, simp add: one_batch_def Let_def)
  have ok: "table_ok s" by (rule store_table_ok[OF kv_okD(1)[OF s(3)]])
  have h: "fk_hash_table s k = Some a \<Longrightarrow> k = [1] \<and> r_ttl_expiry (fk_heap s a) = 7000000005" for k a
    using kv_abs_Some[of s k a "\<lambda>_. 0"] by (auto simp: s(2) split: if_splits)
  have "dom (fk_hash_table s) = {[1]}" using dom_kv_abs[of "\<lambda>_. 0" s] by (simp add: s(2))
  moreover then have "card (ttl_keys s) \<le> 1" using card_mono[OF _ ttl_keys_dom[of s]] by simp
  ultimately have "ttl_keys s' = {}"
    by (intro samples_drain[OF ok d(1) _ _ b[unfolded sample_and_expire_batch_def]])
      (use h in \<open>auto simp: demo_wake_def demo_env_def one_batch_def ttl_config_default_def ttl_config_trait_default_def\<close>)
  then have n1: "kv_abs (\<lambda>_. 0) s' [1] \<noteq> Some ([2, 3], 5, 7000000005)"
    by (auto simp: ttl_keys_def kv_abs_def entry_of_def)
  have "kv_abs (\<lambda>_. 0) s' k = None" for k
    using n1 swept_abs[OF batch_result[OF ok d(1) b], of "\<lambda>_. 0" k] by (cases "k = [1]") (auto simp: s(2))
  then have e: "kv_abs (\<lambda>_. 0) s' = Map.empty" by (rule ext)
  have "n = 1" using batch_result[OF ok d(1) b] e dom_kv_abs[of "\<lambda>_. 0" s'] \<open>dom (fk_hash_table s) = {[1]}\<close> by (simp add: swept_def)
  with sweep_leaves_counters[OF kv_okD(1)[OF s(3)] d run, of "\<lambda>_. 0"] e have "kv_len s' = 1" by simp
  with s(1) run e show ?thesis by blast
qed

text \<open>
  C12. A sweep reaches the expired keys. When the store holds at most a hundred keys and none of them
  has an expiry ahead of the clock, one batch with at least as many samples as there are keys with
  an expiry removes all of them, in whatever order and with whatever random numbers it samples, and
  removes nothing else.
\<close>

theorem sweep_drains_expired:
  assumes "store_inv rs s" and "\<And>j. table_order (fst (draws j))" and "card (dom (kv_abs m s)) \<le> 100"
    and "\<And>k v t e. kv_abs m s k = Some (v, t, e) \<Longrightarrow> e < e_now env"
    and "card {k. \<exists>v t e. kv_abs m s k = Some (v, t, e) \<and> 0 < e} \<le> tc_sample_size config"
    and "sample_and_expire_batch env config draws s = (s', sampled, expired)"
  shows "kv_abs m s' = (\<lambda>k. case kv_abs m s k of Some (v, t, e) \<Rightarrow> if 0 < e then None else Some (v, t, e) | None \<Rightarrow> None)"
proof -
  have ok: "table_ok s" by (rule store_table_ok[OF assms(1)])
  have tk: "ttl_keys x = {k. \<exists>v t e. kv_abs m x k = Some (v, t, e) \<and> 0 < e}" for x
    by (auto simp: ttl_keys_def kv_abs_def entry_of_def)
  have e: "r_ttl_expiry (fk_heap s a) < e_now env" if "fk_hash_table s k = Some a" for k a
    using assms(4)[OF kv_abs_Some[OF that]] .
  have "ttl_keys s' = {}"
    by (rule samples_drain[OF ok assms(2) _ e assms(6)[unfolded sample_and_expire_batch_def]])
      (use assms(3,5) tk[of s] in \<open>simp_all add: dom_kv_abs\<close>)
  then have none: "e = 0" if "kv_abs m s' k = Some (v, t, e)" for k v t e using that by (auto simp: tk)
  note sw = swept_abs[OF batch_result[OF ok assms(2,6)], of m]
  show ?thesis
  proof (rule ext)
    fix k show "kv_abs m s' k = (case kv_abs m s k of Some (v, t, e) \<Rightarrow> if 0 < e then None else Some (v, t, e) | None \<Rightarrow> None)"
      using sw[of k] none[of k] by (auto split: option.split)
  qed
qed

theorem sweep_drains_expired_witness:
  "\<exists>s s' sampled expired. insert_internal (demo_env 5) [1] [2, 3] None 7 demo_store = (s, Ok True) \<and>
     sample_and_expire_batch (demo_env 8000000000) ttl_config_default (\<lambda>_. (key_order, 3)) s = (s', sampled, expired) \<and>
     kv_abs (\<lambda>_. 0) s' = Map.empty"
proof -
  obtain s where s: "insert_internal (demo_env 5) [1] [2, 3] None 7 demo_store = (s, Ok True)"
    "kv_abs (\<lambda>_. 0) s = [[1] \<mapsto> ([2, 3], 5, 7000000005)]" "kv_ok 100 (\<lambda>_. 0) s" by (rule demo_insert)
  obtain s' i n where b: "sample_and_expire_batch (demo_env 8000000000) ttl_config_default (\<lambda>_. (key_order, 3)) s = (s', i, n)"
    by (metis prod.collapse)
  have "{k. \<exists>v t e. kv_abs (\<lambda>_. 0) s k = Some (v, t, e) \<and> 0 < e} = {[1]}" by (auto simp: s(2) split: if_splits)
  then have c: "card {k. \<exists>v t e. kv_abs (\<lambda>_. 0) s k = Some (v, t, e) \<and> 0 < e} \<le> tc_sample_size ttl_config_default"
    by (simp add: ttl_config_default_def ttl_config_trait_default_def)
  have "kv_abs (\<lambda>_. 0) s' = (\<lambda>k. case kv_abs (\<lambda>_. 0) s k of Some (v, t, e) \<Rightarrow> if 0 < e then None else Some (v, t, e) | None \<Rightarrow> None)"
    by (rule sweep_drains_expired[OF kv_okD(1)[OF s(3)] _ _ _ c b])
      (auto simp: s(2) key_order_ok demo_env_def split: if_splits)
  then have "kv_abs (\<lambda>_. 0) s' = Map.empty" by (auto simp: s(2) fun_eq_iff)
  with s(1) b show ?thesis by blast
qed

end
