(* ===== verification/Recovery.thy ===== *)
theory Recovery
  imports Store_Theorems
begin

text \<open>
  What opening an existing file recovers: for a device that holds the images of some records in
  disjoint extents and no other block that looks like a record, the indexes, the values and the free
  space are rebuilt exactly.
\<close>

section \<open>Devices\<close>

text \<open>A block that the scan steps over, and a record image at a sector.\<close>

definition blank_block :: "(nat \<Rightarrow> byte) \<Rightarrow> nat \<Rightarrow> bool" where
  "blank_block m sector \<longleftrightarrow>
     (let data = fetch (sector * BLOCK_SIZE) BLOCK_SIZE m
      in take 8 data = DELETED_MARKER \<or> from_le_bytes (byte_slice 0 2 data) \<noteq> SECTOR_MARKER \<or>
         from_le_bytes (byte_slice 2 4 data) \<noteq> 0)"

definition image_at :: "(nat \<Rightarrow> byte) \<Rightarrow> nat \<Rightarrow> kv_record \<Rightarrow> bool" where
  "image_at m sector r \<longleftrightarrow> record_wf r \<and> r_value r \<noteq> None \<and> r_key r \<noteq> [] \<and>
     record_header_size (length (r_key r)) \<le> BLOCK_SIZE \<and>
     fetch (sector * BLOCK_SIZE) (rec_sectors r * BLOCK_SIZE) m = perpare_record_data r"

text \<open>The records of a device from sector \<open>n\<close> on, in the order of their sectors.\<close>

fun laid_out :: "(nat \<Rightarrow> byte) \<Rightarrow> nat \<Rightarrow> nat \<Rightarrow> (nat \<times> kv_record) list \<Rightarrow> bool" where
  "laid_out m total_sectors n [] \<longleftrightarrow> (\<forall>i\<in>{n..<total_sectors}. blank_block m i)"
| "laid_out m total_sectors n ((sector, r) # rest) \<longleftrightarrow>
     n \<le> sector \<and> METADATA_BLOCK_SIZE \<le> sector \<and> (\<forall>i\<in>{n..<sector}. blank_block m i) \<and>
     sector + rec_sectors r \<le> total_sectors \<and> image_at m sector r \<and>
     laid_out m total_sectors (sector + rec_sectors r) rest"

definition lapsed :: "bool \<Rightarrow> nat \<Rightarrow> kv_record \<Rightarrow> bool" where
  "lapsed ttl_on now r \<longleftrightarrow> ttl_on \<and> 0 < r_ttl_expiry r \<and> r_ttl_expiry r < now"

definition layout_map :: "(nat \<times> kv_record) list \<Rightarrow> bytes \<rightharpoonup> kv_entry" where
  "layout_map lay = map_of (map (\<lambda>(sector, r). (r_key r, the (r_value r), r_timestamp r, r_ttl_expiry r)) lay)"

definition occupied :: "(nat \<times> kv_record) list \<Rightarrow> nat list" where
  "occupied lay = concat (map (\<lambda>(sector, r). [sector..<sector + rec_sectors r]) lay)"

section \<open>One record\<close>

definition recovered_as :: "nat \<Rightarrow> kv_record \<Rightarrow> kv_record" where
  "recovered_as sector r = recovered_record (r_key r) (r_value_len r) (r_timestamp r) (r_ttl_expiry r) sector"

lemma recovered_as_simps [simp]:
  "r_key (recovered_as n r) = r_key r" "r_value_len (recovered_as n r) = r_value_len r"
  "r_timestamp (recovered_as n r) = r_timestamp r" "r_ttl_expiry (recovered_as n r) = r_ttl_expiry r"
  "r_sector (recovered_as n r) = n" "r_value (recovered_as n r) = None" "r_refcount (recovered_as n r) = 1"
  "rec_sectors (recovered_as n r) = rec_sectors r"
  by (simp_all add: recovered_as_def recovered_record_def record_new_def clear_value_def rec_sectors_def)

lemma recovered_as_wf: "record_wf r \<Longrightarrow> n < U64_LIM \<Longrightarrow> record_wf (recovered_as n r)"
  by (simp add: record_wf_def) (simp add: recovered_as_def recovered_record_def record_new_def clear_value_def)

text \<open>The state after a record was found.\<close>

definition recover_one :: "nat \<Rightarrow> nat \<Rightarrow> kv_record \<Rightarrow> fun_kv \<Rightarrow> fun_kv" where
  "recover_one rs sector r s =
     upd_stats (\<lambda>st. st\<lparr>st_disk_usage := wrapping_add (st_disk_usage st) (rec_sectors r * BLOCK_SIZE)\<rparr>)
       (upd_stats (\<lambda>st. st\<lparr>st_memory_usage := wrapping_add (st_memory_usage st) (rs + length (r_key r) + r_value_len r)\<rparr>)
         (upd_stats (\<lambda>st. st\<lparr>st_record_count := wrapping_add32 (st_record_count st) 1\<rparr>)
           (index_put (r_key r) (fk_next s) (fst (new_record (recovered_as sector r) s)))))"

lemma key_bounds:
  assumes "image_at m sector r"
  shows "length (r_key r) \<le> 4066" "r_key r \<noteq> []" "validate_key (r_key r) = Ok ()"
  using assms by (auto simp: image_at_def record_header_size_def validate_key_def kv_const)

lemma scan_block_record:
  assumes im: "image_at m sector r" and lim: "rec_sectors r * BLOCK_SIZE < U64_LIM" "e_rec_struct env + rec_sectors r * BLOCK_SIZE < U64_LIM"
  shows "scan_block env sector (fetch (sector * BLOCK_SIZE) BLOCK_SIZE m) s =
    (if lapsed (fk_enable_ttl s) (e_now env) r then (s, Ok (rec_sectors r, []))
     else (recover_one (e_rec_struct env) sector r s, Ok (rec_sectors r, [sector..<sector + rec_sectors r])))"
proof -
  let ?k = "r_key r" and ?data = "fetch (sector * BLOCK_SIZE) BLOCK_SIZE m"
  from im obtain v where r: "record_wf r" "r_value r = Some v" "record_header_size (length ?k) \<le> BLOCK_SIZE"
    "fetch (sector * BLOCK_SIZE) (rec_sectors r * BLOCK_SIZE) m = perpare_record_data r" by (auto simp: image_at_def)
  note K = key_bounds[OF im]
  have k16: "length ?k < 2 ^ 16" using K(1) by simp
  have one: "BLOCK_SIZE \<le> rec_sectors r * BLOCK_SIZE" using rec_sectors_pos[of r] by simp
  have "take BLOCK_SIZE (fetch (sector * BLOCK_SIZE) (rec_sectors r * BLOCK_SIZE) m) = ?data"
    using one by (simp add: fetch_def take_map)
  with r(4) have data: "?data = take BLOCK_SIZE (perpare_record_data r)" by simp
  obtain rest where d: "?data = (to_le_bytes 2 SECTOR_MARKER @ to_le_bytes 2 0) @ to_le_bytes 2 (length ?k) @ ?k @
    to_le_bytes 8 (r_value_len r) @ to_le_bytes 8 (r_timestamp r) @ to_le_bytes 8 (r_ttl_expiry r) @ rest"
    unfolding data by (rule first_block_layout[OF r(1,2) k16 r(3)])
  have lims: "r_value_len r < U64_LIM" "r_timestamp r < U64_LIM" "r_ttl_expiry r < U64_LIM" using r(1) by (simp_all add: record_wf_def)
  have parse: "parse_record ?data = Some (?k, r_value_len r, r_timestamp r, r_ttl_expiry r)"
    unfolding d by (rule parse_image[OF _ k16 lims]) simp
  have len: "length ?data = BLOCK_SIZE" by (simp add: fetch_def)
  have "from_le_bytes (byte_slice 0 2 ([] @ to_le_bytes 2 SECTOR_MARKER @ to_le_bytes 2 0 @ to_le_bytes 2 (length ?k) @ ?k @
    to_le_bytes 8 (r_value_len r) @ to_le_bytes 8 (r_timestamp r) @ to_le_bytes 8 (r_ttl_expiry r) @ rest)) = SECTOR_MARKER"
    by (rule u16.read_field) (simp_all add: kv_const)
  then have mk: "from_le_bytes (byte_slice 0 2 ?data) = SECTOR_MARKER" unfolding d by simp
  have "from_le_bytes (byte_slice 2 4 (to_le_bytes 2 SECTOR_MARKER @ to_le_bytes 2 0 @ to_le_bytes 2 (length ?k) @ ?k @
    to_le_bytes 8 (r_value_len r) @ to_le_bytes 8 (r_timestamp r) @ to_le_bytes 8 (r_ttl_expiry r) @ rest)) = 0"
    by (rule u16.read_field) (simp_all add: kv_const)
  then have sq: "from_le_bytes (byte_slice 2 4 ?data) = 0" unfolding d by simp
  have nd: "take 8 ?data \<noteq> DELETED_MARKER"
  proof
    assume "take 8 ?data = DELETED_MARKER"
    then have "take 2 (take 8 ?data) = take 2 DELETED_MARKER" by simp
    then have "byte_slice 0 2 ?data = [0, 0x44]" by (simp add: byte_slice_def DELETED_MARKER_def)
    with mk show False by (simp add: kv_const)
  qed
  have ts: "total_size (length ?k) (r_value_len r) \<le> rec_sectors r * BLOCK_SIZE"
    using total_size_le_padded by (simp add: rec_sectors_def)
  then have c1: "checked_add (record_header_size (length ?k)) (r_value_len r) = Some (total_size (length ?k) (r_value_len r))"
    using lim(1) by (simp add: checked_add_def total_size_def)
  have c2: "checked_mul (rec_sectors r) BLOCK_SIZE = Some (rec_sectors r * BLOCK_SIZE)" using lim(1) by (simp add: checked_mul_def)
  have c3: "checked_add (e_rec_struct env + length ?k) (r_value_len r) = Some (e_rec_struct env + length ?k + r_value_len r)"
    using lim(2) ts by (simp add: checked_add_def total_size_def record_header_size_def)
  show ?thesis
    using len nd mk sq parse c1 c2 c3 K
    by (simp add: scan_block_def kv_const lapsed_def recover_one_def recovered_as_def new_record_def Let_def
        flip: rec_sectors_def[unfolded kv_const])
qed

lemma scan_block_blank:
  assumes "blank_block m sector"
  shows "scan_block env sector (fetch (sector * BLOCK_SIZE) BLOCK_SIZE m) s = (s, Ok (1, []))"
  using assms by (auto simp: scan_block_def blank_block_def Let_def fetch_def kv_const)

text \<open>What stays as it is while records are found.\<close>

definition rec_frame :: "fun_kv \<Rightarrow> fun_kv \<Rightarrow> bool" where
  "rec_frame s s' \<longleftrightarrow> fk_persistency s' = fk_persistency s \<and> fk_disk_io s' = fk_disk_io s \<and> fk_write_buffer s' = fk_write_buffer s \<and>
     fk_cache s' = fk_cache s \<and> st_cache_memory (fk_stats s') = st_cache_memory (fk_stats s) \<and> fk_enable_ttl s' = fk_enable_ttl s \<and>
     fk_enable_caching s' = fk_enable_caching s \<and> fk_free_space s' = fk_free_space s \<and> fk_metadata s' = fk_metadata s \<and>
     fk_persistence_size s' = fk_persistence_size s"

lemma rec_frame_refl [simp]: "rec_frame s s"
  by (simp add: rec_frame_def)

lemma rec_frame_trans: "rec_frame s s1 \<Longrightarrow> rec_frame s1 s2 \<Longrightarrow> rec_frame s s2"
  by (simp add: rec_frame_def)

lemma recovered_value:
  assumes "image_at m sector r"
  shows "entry_of m (recovered_as sector r) = (the (r_value r), r_timestamp r, r_ttl_expiry r)"
proof -
  from assms obtain v where r: "record_wf r" "r_value r = Some v"
    "fetch (sector * BLOCK_SIZE) (rec_sectors r * BLOCK_SIZE) m = perpare_record_data r" by (auto simp: image_at_def)
  let ?h = "record_header_size (length (r_key r))"
  have len: "length v = r_value_len r" using r(1,2) by (simp add: record_wf_def)
  have le: "?h + r_value_len r \<le> rec_sectors r * BLOCK_SIZE"
    using total_size_le_padded[of "length (r_key r)" "r_value_len r"] by (simp add: rec_sectors_def total_size_def)
  have "value_at m (recovered_as sector r) = byte_slice ?h (?h + r_value_len r) (fetch (sector * BLOCK_SIZE) (rec_sectors r * BLOCK_SIZE) m)"
    using le by (simp add: value_at_def fetch_def byte_slice_def take_map drop_map ac_simps)
  also have "\<dots> = v" using image_value[OF r(1,2)] len r(3) by simp
  finally show ?thesis using r(2) by (simp add: entry_of_def value_of_def)
qed

lemma recover_one_result:
  assumes inv: "store_inv rs s" and im: "image_at m sector r" and new: "fk_hash_table s (r_key r) = None" and sec: "sector < U64_LIM"
    and s': "s' = recover_one rs sector r s"
  shows "store_inv rs s'" "kv_abs m s' = (kv_abs m s)(r_key r \<mapsto> (the (r_value r), r_timestamp r, r_ttl_expiry r))"
    "fk_hash_table s' = (fk_hash_table s)(r_key r \<mapsto> fk_next s)" "fk_heap s' = (fk_heap s)(fk_next s := recovered_as sector r)"
    "rec_frame s s'"
proof -
  have p: "put_effect (r_key r) (recovered_as sector r) s s'"
    by (simp add: s' recover_one_def put_effect_def upd_stats_def index_put_def new_record_def)
  then show "fk_hash_table s' = (fk_hash_table s)(r_key r \<mapsto> fk_next s)" "fk_heap s' = (fk_heap s)(fk_next s := recovered_as sector r)"
    by (simp_all add: put_effect_def)
  show "rec_frame s s'" by (simp add: rec_frame_def s' recover_one_def upd_stats_def index_put_def new_record_def)
  show "kv_abs m s' = (kv_abs m s)(r_key r \<mapsto> (the (r_value r), r_timestamp r, r_ttl_expiry r))"
    using put_effect_abs[OF p inv, of m] recovered_value[OF im] by simp
  have wf: "record_wf (recovered_as sector r)" by (rule recovered_as_wf) (use im sec in \<open>simp_all add: image_at_def\<close>)
  have mem: "st_memory_usage (fk_stats s) = om_sum (rec_bytes rs s) (fk_tree s) mod U64_LIM" using inv by (simp add: store_inv_def)
  show "store_inv rs s'"
    by (rule put_effect_inv[OF p inv _ wf _ key_bounds(3)[OF im]])
      (simp_all add: new s' recover_one_def upd_stats_def index_put_def new_record_def mem wrapping_mod
        calculate_size_def calculate_record_size_def add.assoc)
qed

section \<open>The scan\<close>

text \<open>
  Reads of single blocks succeed on the worlds of a set that the reads do not leave.
\<close>

context block_device
begin

definition reads_ok :: "disk_io \<Rightarrow> nat \<Rightarrow> ('w \<Rightarrow> bool) \<Rightarrow> bool" where
  "reads_ok d total_sectors W \<longleftrightarrow> total_sectors * BLOCK_SIZE < 2 ^ 63 \<and>
     (\<forall>sector w. sector < total_sectors \<longrightarrow> W w \<longrightarrow> (\<exists>w' bs. read_sectors_sync os d sector 1 w = (w', Ok bs) \<and> W w'))"

lemma read_block:
  assumes "reads_ok d total_sectors W" "sector < total_sectors" "W w"
  obtains w' where "read_sectors_sync os d sector 1 w = (w', Ok (fetch (sector * BLOCK_SIZE) BLOCK_SIZE (media w)))"
    "W w'" "media w' = media w" "quiet w' = quiet w"
proof -
  obtain w' bs where r: "read_sectors_sync os d sector 1 w = (w', Ok bs)" "W w'" using assms unfolding reads_ok_def by blast
  have "sector * BLOCK_SIZE \<le> total_sectors * BLOCK_SIZE" by (rule mult_le_mono1) (use assms(2) in simp)
  also have "\<dots> < 2 ^ 63" using assms(1) by (simp add: reads_ok_def)
  finally have "sector * BLOCK_SIZE < 2 ^ 63" .
  note R = read_sectors_result[OF r(1) this]
  show thesis by (rule that[of w']) (use r R in simp_all)
qed

lemma scan_blanks:
  assumes "reads_ok d total_sectors W" "e_os env = os" "W w" "n \<le> k" "k \<le> total_sectors" "\<forall>i\<in>{n..<k}. blank_block (media w) i"
  shows "\<exists>w'. scan_sectors env d total_sectors n (s, w) = scan_sectors env d total_sectors k (s, w') \<and> W w' \<and> media w' = media w \<and> quiet w' = quiet w"
  using assms(3-6)
proof (induction "k - n" arbitrary: n w)
  case (Suc x)
  then have n: "n < k" by simp
  obtain w1 where r: "read_sectors_sync os d n 1 w = (w1, Ok (fetch (n * BLOCK_SIZE) BLOCK_SIZE (media w)))"
    "W w1" "media w1 = media w" "quiet w1 = quiet w" by (rule read_block[OF assms(1) _ Suc.prems(1)]) (use n Suc.prems in auto)
  have b: "scan_block env n (fetch (n * BLOCK_SIZE) BLOCK_SIZE (media w)) s = (s, Ok (1, []))"
    by (rule scan_block_blank) (use n Suc.prems(4) in simp)
  have "try_bind p (\<lambda>rest sw. (sw, Ok ([] @ rest))) = p" for p :: "(fun_kv \<times> 'w) \<times> nat list res"
    by (cases p; cases "snd p") auto
  then have step: "scan_sectors env d total_sectors n (s, w) = scan_sectors env d total_sectors (n + 1) (s, w1)"
    using n Suc.prems(3) r(1) b assms(2) by (subst scan_sectors.simps) simp
  have "\<exists>w'. scan_sectors env d total_sectors (n + 1) (s, w1) = scan_sectors env d total_sectors k (s, w') \<and> W w' \<and> media w' = media w1 \<and> quiet w' = quiet w1"
    by (rule Suc.hyps(1)) (use Suc n r in simp_all)
  with step r(3,4) show ?case by auto
qed auto

lemma scan_layout:
  assumes rd: "reads_ok d total_sectors W" and os: "e_os env = os"
    and lim: "e_rec_struct env + total_sectors * BLOCK_SIZE < U64_LIM"
    and "laid_out (media w) total_sectors n lay" "n \<le> total_sectors" "W w" "store_inv (e_rec_struct env) s"
    and "distinct (map (r_key \<circ> snd) lay)" "\<forall>(sector, r)\<in>set lay. fk_hash_table s (r_key r) = None"
  defines "kept \<equiv> filter (\<lambda>(sector, r). \<not> lapsed (fk_enable_ttl s) (e_now env) r) lay"
  shows "\<exists>s' w'. scan_sectors env d total_sectors n (s, w) = ((s', w'), Ok (occupied kept)) \<and> W w' \<and> media w' = media w \<and> quiet w' = quiet w \<and>
    store_inv (e_rec_struct env) s' \<and> kv_abs (media w) s' = kv_abs (media w) s ++ layout_map kept \<and> rec_frame s s' \<and>
    (\<forall>k a. fk_hash_table s' k = Some a \<longrightarrow> fk_hash_table s k = Some a \<and> fk_heap s' a = fk_heap s a \<or>
       (\<exists>(sector, r)\<in>set kept. k = r_key r \<and> fk_heap s' a = recovered_as sector r))"
  using assms(4-9) unfolding kept_def
proof (induction lay arbitrary: n s w)
  case Nil
  from scan_blanks[OF rd os Nil.prems(3,2), of s] Nil.prems(1)
  obtain w' where w': "scan_sectors env d total_sectors n (s, w) = scan_sectors env d total_sectors total_sectors (s, w')"
    "W w'" "media w' = media w" "quiet w' = quiet w" by auto
  have "scan_sectors env d total_sectors total_sectors (s, w') = ((s, w'), Ok [])" by (subst scan_sectors.simps) simp
  with w' Nil.prems show ?case by (auto simp: occupied_def layout_map_def)
next
  case (Cons x lay)
  obtain sector r where x: "x = (sector, r)" by fastforce
  let ?m = "media w" and ?rs = "e_rec_struct env" and ?k = "r_key r" and ?next = "sector + rec_sectors r"
  from Cons.prems(1) have L: "n \<le> sector" "\<forall>i\<in>{n..<sector}. blank_block ?m i" "?next \<le> total_sectors" "image_at ?m sector r"
    "laid_out ?m total_sectors ?next lay" by (auto simp: x)
  have pos: "0 < rec_sectors r" by (rule rec_sectors_pos)
  obtain w1 where w1: "scan_sectors env d total_sectors n (s, w) = scan_sectors env d total_sectors sector (s, w1)"
    "W w1" "media w1 = ?m" "quiet w1 = quiet w"
    using scan_blanks[OF rd os Cons.prems(3) L(1) _ L(2), of s] L(3) by auto
  obtain w2 where w2: "read_sectors_sync os d sector 1 w1 = (w2, Ok (fetch (sector * BLOCK_SIZE) BLOCK_SIZE ?m))"
    "W w2" "media w2 = ?m" "quiet w2 = quiet w"
    using read_block[OF rd _ w1(2), of sector] L(3) pos w1(3,4) by (metis add_lessD1 le_neq_implies_less less_add_same_cancel1 order_less_le_trans)
  have le: "rec_sectors r * BLOCK_SIZE \<le> total_sectors * BLOCK_SIZE" using L(3) by (intro mult_le_mono1) simp
  have b: "rec_sectors r * BLOCK_SIZE < U64_LIM" "?rs + rec_sectors r * BLOCK_SIZE < U64_LIM" using le lim by linarith+
  note sb = scan_block_record[OF L(4) b, of s]
  have new: "fk_hash_table s ?k = None" using Cons.prems(6) by (simp add: x)
  have lt: "sector < total_sectors" using L(3) pos by simp
  let ?on = "fk_enable_ttl s" and ?now = "e_now env"
  show ?case
  proof (cases "lapsed ?on ?now r")
    case True
    then have step: "scan_sectors env d total_sectors sector (s, w1) =
        try_bind (scan_sectors env d total_sectors ?next (s, w2)) (\<lambda>rest sw. (sw, Ok ([] @ rest)))"
      using lt w2(1) sb os by (subst scan_sectors.simps) simp
    obtain s' w' where R: "scan_sectors env d total_sectors ?next (s, w2) = ((s', w'), Ok (occupied (filter (\<lambda>(sector, r). \<not> lapsed ?on ?now r) lay)))"
      "W w' \<and> media w' = media w2 \<and> quiet w' = quiet w2 \<and> store_inv ?rs s' \<and>
       kv_abs (media w2) s' = kv_abs (media w2) s ++ layout_map (filter (\<lambda>(sector, r). \<not> lapsed ?on ?now r) lay) \<and> rec_frame s s' \<and>
       (\<forall>k a. fk_hash_table s' k = Some a \<longrightarrow> fk_hash_table s k = Some a \<and> fk_heap s' a = fk_heap s a \<or>
         (\<exists>(sector, r)\<in>set (filter (\<lambda>(sector, r). \<not> lapsed ?on ?now r) lay). k = r_key r \<and> fk_heap s' a = recovered_as sector r))"
      using Cons.IH[of w2 ?next s] L w2 Cons.prems by (auto simp: x)
    with step w1(1) True w2 show ?thesis by (simp add: x)
  next
    case False
    define s1 where "s1 = recover_one ?rs sector r s"
    have "sector * 1 \<le> total_sectors * BLOCK_SIZE" using lt by (intro mult_le_mono) (simp_all add: kv_const)
    then have sec: "sector < U64_LIM" using lim by linarith
    note E = recover_one_result[OF Cons.prems(4) L(4) new sec s1_def]
    have step: "scan_sectors env d total_sectors sector (s, w1) =
        try_bind (scan_sectors env d total_sectors ?next (s1, w2)) (\<lambda>rest sw. (sw, Ok ([sector..<?next] @ rest)))"
      using lt w2(1) sb os False by (subst scan_sectors.simps) (simp add: s1_def)
    have on: "fk_enable_ttl s1 = ?on" using E(5) by (simp add: rec_frame_def)
    have kd: "r_key r' \<noteq> ?k" if "(sec', r') \<in> set lay" for sec' r'
      using Cons.prems(5) that by (force simp: x)
    have none: "\<forall>(sector, r)\<in>set lay. fk_hash_table s1 (r_key r) = None"
      using Cons.prems(6) kd by (auto simp: x E(3) split: prod.splits)
    obtain s' w' where R: "scan_sectors env d total_sectors ?next (s1, w2) = ((s', w'), Ok (occupied (filter (\<lambda>(sector, r). \<not> lapsed ?on ?now r) lay)))"
      "W w'" "media w' = media w2" "quiet w' = quiet w2" "store_inv ?rs s'"
      "kv_abs (media w2) s' = kv_abs (media w2) s1 ++ layout_map (filter (\<lambda>(sector, r). \<not> lapsed ?on ?now r) lay)" "rec_frame s1 s'"
      and H: "\<forall>k a. fk_hash_table s' k = Some a \<longrightarrow> fk_hash_table s1 k = Some a \<and> fk_heap s' a = fk_heap s1 a \<or>
         (\<exists>(sector, r)\<in>set (filter (\<lambda>(sector, r). \<not> lapsed ?on ?now r) lay). k = r_key r \<and> fk_heap s' a = recovered_as sector r)"
      using Cons.IH[of w2 ?next s1] L w2 Cons.prems(5) E(1) none by (auto simp: x on)
    have abs: "kv_abs ?m s' = kv_abs ?m s ++ layout_map (filter (\<lambda>(sector, r). \<not> lapsed ?on ?now r) (x # lay))"
    proof -
      let ?M = "layout_map (filter (\<lambda>(sector, r). \<not> lapsed ?on ?now r) lay)" and ?e = "(the (r_value r), r_timestamp r, r_ttl_expiry r)"
      have "?k \<notin> dom ?M" by (auto simp: layout_map_def dom_map_of_conv_image_fst split: prod.splits) (metis kd)
      moreover have "layout_map (filter (\<lambda>(sector, r). \<not> lapsed ?on ?now r) (x # lay)) = ?M(?k \<mapsto> ?e)"
        using False by (simp add: x layout_map_def)
      ultimately show ?thesis using R(6) E(2) w2(3) by (simp add: map_add_upd_left)
    qed
    have idx: "fk_hash_table s k = Some a \<and> fk_heap s' a = fk_heap s a \<or>
         (\<exists>(sector, r)\<in>set (filter (\<lambda>(sector, r). \<not> lapsed ?on ?now r) (x # lay)). k = r_key r \<and> fk_heap s' a = recovered_as sector r)"
      if ka: "fk_hash_table s' k = Some a" for k a
    proof (cases "fk_hash_table s1 k = Some a \<and> fk_heap s' a = fk_heap s1 a")
      case True
      show ?thesis
      proof (cases "k = ?k")
        case True
        with \<open>fk_hash_table s1 k = Some a \<and> fk_heap s' a = fk_heap s1 a\<close> have "fk_heap s' a = recovered_as sector r" by (simp add: E(3,4))
        with True False show ?thesis by (auto simp: x)
      next
        case False
        with True have "fk_hash_table s k = Some a" by (simp add: E(3))
        moreover then have "a < fk_next s" using inv_indexed[OF Cons.prems(4)] by (simp add: record_indexed_def)
        ultimately show ?thesis using True by (simp add: E(4))
      qed
    qed (use H ka in auto)
    show ?thesis
      using w1 step R w2 rec_frame_trans[OF E(5) R(7)] abs idx False by (auto simp: x occupied_def)
  qed
qed

end

section \<open>Free space\<close>

text \<open>The sectors before \<open>e\<close> have been dealt with.\<close>

definition gaps_done :: "nat \<Rightarrow> nat \<Rightarrow> free_space_manager \<Rightarrow> bool" where
  "gaps_done psize e f \<longleftrightarrow> fsm_inv f \<and> persistence_size f = psize \<and> free_sectors f \<subseteq> {..<e} \<and> total_free f \<le> e * BLOCK_SIZE \<and>
     METADATA_BLOCK_SIZE \<le> e"

lemma gap_release:
  assumes g: "gaps_done psize e f" and e: "e < x" "x \<le> psize div BLOCK_SIZE" and lim: "psize * 200 < U64_LIM"
  obtains f' where "release_sectors f e (x - e) = (f', Ok ())" "gaps_done psize x f'" "free_sectors f' = free_sectors f \<union> {e..<x}"
proof -
  have G: "fsm_inv f" "persistence_size f = psize" "free_sectors f \<subseteq> {..<e}" "total_free f \<le> e * BLOCK_SIZE" "METADATA_BLOCK_SIZE \<le> e"
    using g by (simp_all add: gaps_done_def)
  have ds: "device_sectors f = psize div BLOCK_SIZE" using G(2) by (simp add: device_sectors_def)
  have "e * BLOCK_SIZE \<le> psize" using e device_bytes[of e f] ds G(2) by simp
  then have room: "fsm_headroom f" using G(2,4) lim by (simp add: fsm_headroom_def)
  have n: "0 < x - e" "e + (x - e) \<le> device_sectors f" using e ds by simp_all
  have disj: "{e..<e + (x - e)} \<inter> free_sectors f = {}" using G(3) by auto
  obtain f' prev where R: "release_sectors f e (x - e) = (f', Ok ())" "fsm_inv f'" "persistence_size f' = persistence_size f"
    "total_free f' = total_free f + (x - e) * BLOCK_SIZE"
    by (rule release_sectors_ok[OF G(1) room n(1) G(5) n(2) disj])
  have fr: "free_sectors f' = free_sectors f \<union> {e..<x}"
    using fsm.release_Ok[OF G(1) room n(1) G(5) n(2) disj] R(1) e(1) by auto
  have "total_free f' \<le> e * BLOCK_SIZE + (x - e) * BLOCK_SIZE" using R(4) G(4) by simp
  also have "\<dots> = x * BLOCK_SIZE" using e(1) by (simp flip: add_mult_distrib)
  finally have "gaps_done psize x f'" using R G fr e(1) by (auto simp: gaps_done_def)
  with R(1) fr show thesis by (intro that)
qed

lemma release_gaps_ok:
  assumes "gaps_done psize e f" "sorted_wrt (<) occ" "\<forall>x\<in>set occ. e \<le> x \<and> x < psize div BLOCK_SIZE" "psize * 200 < U64_LIM"
  shows "\<exists>f' e'. release_gaps occ e f = (f', Ok e') \<and> gaps_done psize e' f' \<and> e \<le> e' \<and> (\<forall>x\<in>set occ. x < e') \<and>
    e' \<le> max e (psize div BLOCK_SIZE) \<and> free_sectors f' = free_sectors f \<union> ({e..<e'} - set occ)"
  using assms(1-3)
proof (induction occ arbitrary: e f)
  case (Cons x occ)
  have x: "e \<le> x" "x < psize div BLOCK_SIZE" using Cons.prems(3) by auto
  obtain f1 where f1: "(if e < x then release_sectors f e (x - e) else (f, Ok ())) = (f1, Ok ())" "gaps_done psize x f1"
    "free_sectors f1 = free_sectors f \<union> {e..<x}"
  proof (cases "e < x")
    case True
    then obtain f1 where "release_sectors f e (x - e) = (f1, Ok ())" "gaps_done psize x f1" "free_sectors f1 = free_sectors f \<union> {e..<x}"
      using gap_release[OF Cons.prems(1) True _ assms(4)] x(2) by (metis less_imp_le)
    with True that show thesis by simp
  qed (use Cons.prems(1) x(1) that in auto)
  have g: "gaps_done psize (x + 1) f1" using f1(2) by (auto simp: gaps_done_def)
  have "\<exists>f' e'. release_gaps occ (x + 1) f1 = (f', Ok e') \<and> gaps_done psize e' f' \<and> x + 1 \<le> e' \<and> (\<forall>x\<in>set occ. x < e') \<and>
    e' \<le> max (x + 1) (psize div BLOCK_SIZE) \<and> free_sectors f' = free_sectors f1 \<union> ({x + 1..<e'} - set occ)"
    by (rule Cons.IH[OF g]) (use Cons.prems(2,3) in auto)
  then obtain f' e' where R: "release_gaps occ (x + 1) f1 = (f', Ok e')" "gaps_done psize e' f'" "x + 1 \<le> e'" "\<forall>x\<in>set occ. x < e'"
    "e' \<le> max (x + 1) (psize div BLOCK_SIZE)" "free_sectors f' = free_sectors f1 \<union> ({x + 1..<e'} - set occ)" by blast
  have "free_sectors f' = free_sectors f \<union> ({e..<e'} - set (x # occ))"
    using R(3,6) f1(3) x(1) Cons.prems(2) by auto
  with R f1(1) x show ?case by auto
qed auto

lemma rebuild_free_space_ok:
  assumes "0 < psize" "psize * 200 < U64_LIM" "sorted_wrt (<) occ" "\<forall>x\<in>set occ. METADATA_BLOCK_SIZE \<le> x \<and> x < psize div BLOCK_SIZE"
  shows "\<exists>f. rebuild_free_space (psize div BLOCK_SIZE) occ (set_persistence_size fsm_new psize) = (f, Ok ()) \<and> fsm_inv f \<and>
    persistence_size f = psize \<and> free_sectors f = {METADATA_BLOCK_SIZE..<psize div BLOCK_SIZE} - set occ"
proof -
  let ?n = "psize div BLOCK_SIZE" and ?f = "set_persistence_size fsm_new psize"
  have f0: "free_sectors ?f = {}" by (simp add: free_of_def chunks_def set_persistence_size_def fsm_new_def)
  have "psize < U64_LIM" using assms(2) by simp
  with assms(1) f0 have g0: "gaps_done psize METADATA_BLOCK_SIZE ?f"
    by (simp add: gaps_done_def fsm_inv_def idx_wf_def chunk_wf_def chunks_def set_persistence_size_def fsm_new_def om_inv_def)
  have sort: "sort occ = occ" using assms(3) by (simp add: sorted_sort_id strict_sorted_imp_sorted)
  have ds: "DATA_START_BLOCK = METADATA_BLOCK_SIZE" by (simp add: kv_const)
  from release_gaps_ok[OF g0 assms(3,4,2)] obtain f1 e where R: "release_gaps occ METADATA_BLOCK_SIZE ?f = (f1, Ok e)"
    "gaps_done psize e f1" "METADATA_BLOCK_SIZE \<le> e" "\<forall>x\<in>set occ. x < e" "e \<le> max METADATA_BLOCK_SIZE ?n"
    "free_sectors f1 = {METADATA_BLOCK_SIZE..<e} - set occ" by (auto simp: f0)
  show ?thesis
  proof (cases "e < ?n")
    case True
    obtain f2 where "release_sectors f1 e (?n - e) = (f2, Ok ())" "gaps_done psize ?n f2" "free_sectors f2 = free_sectors f1 \<union> {e..<?n}"
      by (rule gap_release[OF R(2) True _ assms(2)]) simp
    with R True show ?thesis by (force simp: rebuild_free_space_def sort ds gaps_done_def)
  next
    case False
    with R have "{METADATA_BLOCK_SIZE..<e} - set occ = {METADATA_BLOCK_SIZE..<?n} - set occ" by (cases "METADATA_BLOCK_SIZE \<le> ?n") auto
    with R False show ?thesis by (simp add: rebuild_free_space_def sort ds gaps_done_def)
  qed
qed

section \<open>The reopened store\<close>

lemma laid_out_later:
  assumes "laid_out m total_sectors n lay" "(sector, r) \<in> set lay"
  shows "n \<le> sector" "METADATA_BLOCK_SIZE \<le> sector" "sector + rec_sectors r \<le> total_sectors" "image_at m sector r"
proof -
  have "n \<le> sector \<and> METADATA_BLOCK_SIZE \<le> sector \<and> sector + rec_sectors r \<le> total_sectors \<and> image_at m sector r"
    using assms
  proof (induction m total_sectors n lay rule: laid_out.induct)
    case (2 m total_sectors n sec' r' rest)
    then show ?case by (cases "(sector, r) = (sec', r')") auto
  qed simp
  then show "n \<le> sector" "METADATA_BLOCK_SIZE \<le> sector" "sector + rec_sectors r \<le> total_sectors" "image_at m sector r" by simp_all
qed

lemma layout_disjoint:
  assumes "laid_out m total_sectors n lay" "(s1, r1) \<in> set lay" "(s2, r2) \<in> set lay" "r_key r1 \<noteq> r_key r2"
  shows "{s1..<s1 + rec_sectors r1} \<inter> {s2..<s2 + rec_sectors r2} = {}"
  using assms
proof (induction m total_sectors n lay rule: laid_out.induct)
  case (2 m total_sectors n sec' r' rest)
  note later = laid_out_later(1)[of m total_sectors "sec' + rec_sectors r'" rest]
  consider "(s1, r1) = (sec', r')" "(s2, r2) \<in> set rest" | "(s2, r2) = (sec', r')" "(s1, r1) \<in> set rest"
    | "(s1, r1) \<in> set rest" "(s2, r2) \<in> set rest" using 2 by auto
  then show ?case
  proof cases
    case 1
    with later[of s2 r2] 2 show ?thesis by auto
  next
    case b: 2
    with later[of s1 r1] 2 show ?thesis by auto
  next
    case 3
    with 2 show ?thesis by simp
  qed
qed simp

lemma occupied_sorted:
  assumes "laid_out m total_sectors n lay"
  shows "sorted_wrt (<) (occupied (filter P lay))"
    "x \<in> set (occupied (filter P lay)) \<Longrightarrow> n \<le> x \<and> METADATA_BLOCK_SIZE \<le> x \<and> x < total_sectors"
proof -
  have b: "k \<le> x \<and> METADATA_BLOCK_SIZE \<le> x \<and> x < total_sectors"
    if l: "laid_out m total_sectors k lay'" and o: "x \<in> set (occupied (filter P lay'))" for lay' k x
  proof -
    obtain sec r where "(sec, r) \<in> set lay'" "sec \<le> x" "x < sec + rec_sectors r" using o by (auto simp: occupied_def)
    with laid_out_later[OF l, of sec r] show ?thesis by auto
  qed
  then show "x \<in> set (occupied (filter P lay)) \<Longrightarrow> n \<le> x \<and> METADATA_BLOCK_SIZE \<le> x \<and> x < total_sectors" using assms by blast
  show "sorted_wrt (<) (occupied (filter P lay))"
    using assms
  proof (induction lay arbitrary: n)
    case (Cons x lay)
    obtain sec r where x: "x = (sec, r)" by fastforce
    with Cons.prems have l: "laid_out m total_sectors (sec + rec_sectors r) lay" by simp
    note b[OF l] Cons.IH[OF l]
    then show ?case by (fastforce simp: x occupied_def sorted_wrt_append)
  qed (simp add: occupied_def)
qed

lemma layout_kv_ok:
  assumes lay: "laid_out m (psize div BLOCK_SIZE) n lay" and inv: "store_inv rs s"
    and idx: "\<And>k a. fk_hash_table s k = Some a \<Longrightarrow> \<exists>(sector, r)\<in>set (filter P lay). k = r_key r \<and> fk_heap s a = recovered_as sector r"
    and f: "fsm_inv f" "persistence_size f = psize" "free_sectors f = {METADATA_BLOCK_SIZE..<psize div BLOCK_SIZE} - set (occupied (filter P lay))"
    and psize: "psize < 2 ^ 63"
    and s: "fk_persistency s" "fk_disk_io s \<noteq> None" "fk_cache s \<noteq> None \<longrightarrow> fk_enable_caching s" "cache_coherent m s"
    and t: "t = s\<lparr>fk_free_space := f, fk_write_buffer := Some wb\<rparr>"
    and wb: "wb_shards wb \<noteq> []" "\<And>sh. sh \<in> set (wb_shards wb) \<Longrightarrow> sh_buffer sh = []"
  shows "kv_ok rs m t" "kv_abs m t = kv_abs m s"
proof -
  show abs: "kv_abs m t = kv_abs m s" by (simp add: t kv_abs_def)
  have b: "buffered t = []" using wb(2) by (auto simp: t buffered_def)
  have "rec_bytes rs t = rec_bytes rs s" by (rule ext) (simp add: t rec_bytes_def)
  with inv have i: "store_inv rs t" by (simp add: t store_inv_def record_indexed_def)
  have "kv_values m t = kv_values m s" by (rule ext) (simp add: kv_values_def abs)
  then have c: "cache_coherent m t" using s(4) by (simp add: t cache_coherent_def cong: option.case_cong)
  have dev: "device_inv t" using f s(2) psize device_bytes[of "device_sectors f" f] by (simp add: t device_inv_def)
  have liv: "live t = ran (fk_hash_table s)" by (simp add: live_def b) (simp add: t)
  have ix: "\<exists>k sector r. fk_hash_table s k = Some a \<and> (sector, r) \<in> set lay \<and> (sector, r) \<in> set (filter P lay) \<and> k = r_key r \<and> fk_heap s a = recovered_as sector r"
    if "a \<in> ran (fk_hash_table s)" for a using that idx by (fastforce simp: ran_def)
  have "disk_ok f (fk_heap s) (ran (fk_hash_table s))"
    unfolding disk_ok_def
  proof (intro conjI ballI impI)
    fix a assume a: "a \<in> ran (fk_hash_table s)"
    obtain k sector r where k: "fk_hash_table s k = Some a" "(sector, r) \<in> set lay" "(sector, r) \<in> set (filter P lay)" "k = r_key r" "fk_heap s a = recovered_as sector r"
      using ix[OF a] by blast
    note L = laid_out_later[OF lay k(2)]
    show "record_wf (fk_heap s a)" using inv_indexed[OF inv k(1)] by (simp add: record_indexed_def)
    show "r_sector (fk_heap s a) = 0 \<Longrightarrow> r_value (fk_heap s a) \<noteq> None" using L(2) by (simp add: k(5) kv_const)
    show "METADATA_BLOCK_SIZE \<le> r_sector (fk_heap s a)" using L(2) by (simp add: k(5))
    show "r_sector (fk_heap s a) + rec_sectors (fk_heap s a) \<le> device_sectors f" using L(3) f(2) by (simp add: k(5) device_sectors_def)
    show "rec_extent (fk_heap s a) \<inter> free_sectors f = {}"
      using k(3) unfolding f(3) by (force simp: rec_extent_def k(5) occupied_def)
    fix b assume b: "b \<in> ran (fk_hash_table s)" "a \<noteq> b"
    obtain k' sector' r' where k': "fk_hash_table s k' = Some b" "(sector', r') \<in> set lay" "k' = r_key r'" "fk_heap s b = recovered_as sector' r'"
      using ix[OF b(1)] by blast
    have "r_key r \<noteq> r_key r'" using k k' b(2) by auto
    from layout_disjoint[OF lay k(2) k'(2) this] show "rec_extent (fk_heap s a) \<inter> rec_extent (fk_heap s b) = {}"
      by (simp add: rec_extent_def k(5) k'(4))
  qed
  moreover have "\<forall>a\<in>ran (fk_hash_table s). a < fk_next s" using inv_indexed[OF inv] by (auto simp: ran_def record_indexed_def)
  ultimately have "disk_inv t" using b s(1) unfolding disk_inv_def liv by (simp add: queue_inv_def) (simp add: t)
  then show "kv_ok rs m t" using i c dev wb(1) s(1,3) by (simp add: kv_ok_def wired_def shards_ok_def) (simp add: t)
qed

text \<open>A store after its device was opened and before the scan.\<close>

definition just_opened :: "nat \<Rightarrow> (nat \<Rightarrow> byte) \<Rightarrow> nat \<Rightarrow> disk_io \<Rightarrow> bool \<Rightarrow> fun_kv \<Rightarrow> bool" where
  "just_opened rs m psize d ttl_on s \<longleftrightarrow> fk_hash_table s = Map.empty \<and> store_inv rs s \<and> cache_coherent m s \<and>
     fk_persistency s \<and> fk_disk_io s = Some d \<and> fk_persistence_size s = psize \<and>
     fk_free_space s = set_persistence_size fsm_new psize \<and> (fk_cache s \<noteq> None \<longrightarrow> fk_enable_caching s) \<and> fk_enable_ttl s = ttl_on"

lemma just_opened_abs: "just_opened rs m psize d ttl_on s \<Longrightarrow> kv_abs m s = Map.empty"
  by (simp add: just_opened_def kv_abs_def fun_eq_iff)

lemma just_opened_initial:
  assumes "c_persistency config"
    and s: "s = (initial_store env config)\<lparr>fk_persistence_size := psize, fk_free_space := set_persistence_size fsm_new psize,
      fk_disk_io := Some d\<rparr>"
  shows "just_opened rs m psize d (c_enable_ttl config) s"
proof -
  let ?s0 = "initial_store env config"
  have "rec_bytes rs s = rec_bytes rs ?s0" by (rule ext) (simp add: rec_bytes_def s)
  then have inv: "store_inv rs s" using initial_store_inv(1)[of rs env config] by (simp add: store_inv_def record_indexed_def s)
  have coh: "cache_coherent m s"
    by (rule coherent_shrinks[OF initial_store_inv(3)[of m env config] cache_shrinks_same])
      (simp_all add: kv_values_def initial_store_inv(2) s)
  have "fk_hash_table s = Map.empty" "fk_persistency s" "fk_cache s \<noteq> None \<longrightarrow> fk_enable_caching s" "fk_enable_ttl s = c_enable_ttl config"
    "fk_disk_io s = Some d" "fk_persistence_size s = psize" "fk_free_space s = set_persistence_size fsm_new psize"
    using assms(1) by (simp_all add: s initial_store_def)
  with inv coh show ?thesis by (simp add: just_opened_def)
qed

lemma just_opened_metadata:
  assumes "just_opened rs m psize d on s"
  shows "just_opened rs m psize d on (s\<lparr>fk_metadata := md\<rparr>)"
    "just_opened rs m psize d on (upd_stats (\<lambda>st. st\<lparr>st_disk_usage := n\<rparr>) (s\<lparr>fk_metadata := md\<rparr>))"
proof -
  let ?t = "upd_stats (\<lambda>st. st\<lparr>st_disk_usage := n\<rparr>) (s\<lparr>fk_metadata := md\<rparr>)" and ?u = "s\<lparr>fk_metadata := md\<rparr>"
  have c: "same_core s ?u" "same_core s ?t" by (simp_all add: same_core_def upd_stats_def)
  have "store_inv rs ?u" "store_inv rs ?t" using same_core_inv[OF c(1)] same_core_inv[OF c(2)] assms by (simp_all add: just_opened_def)
  moreover have "cache_coherent m ?u" "cache_coherent m ?t"
    using coherent_same_core[OF c(1), of m] coherent_same_core[OF c(2), of m] assms by (simp_all add: just_opened_def upd_stats_def)
  ultimately show "just_opened rs m psize d on ?u" "just_opened rs m psize d on ?t"
    using assms by (simp_all add: just_opened_def upd_stats_def)
qed

context block_device
begin

lemma open_existing_file:
  assumes o: "open_file fs path w = (w0, Ok direct)" "fs_len fs w0 = Inr psize" "0 < psize" "fs_try_clone fs w0 = None" "\<not> is_empty_file fs w0"
    and d: "d = disk_io_new (fst (fs_ring fs)) (snd (fs_ring fs)) direct"
    and c: "c_persistency config" and os: "e_os env = os" and rd: "reads_ok d total_sectors W" "0 < total_sectors" "W w0"
  shows "\<exists>s' w'. open_device env fs tfb (Some path) file_size (initial_store env config, w) = ((s', w'), Ok ()) \<and>
    just_opened rs (media w0) psize d (c_enable_ttl config) s' \<and> W w' \<and> media w' = media w0 \<and> quiet w' = quiet w0"
proof -
  define s3 where "s3 = (initial_store env config)\<lparr>fk_persistence_size := psize,
    fk_free_space := set_persistence_size fsm_new psize, fk_disk_io := Some d\<rparr>"
  have j: "just_opened rs (media w0) psize d (c_enable_ttl config) s3" by (rule just_opened_initial[OF c s3_def])
  have fs0: "fk_free_space (initial_store env config) = fsm_new" by (simp add: initial_store_def)
  obtain w1 where w1: "read_sectors_sync os d 0 1 w0 = (w1, Ok (fetch 0 BLOCK_SIZE (media w0)))" "W w1" "media w1 = media w0" "quiet w1 = quiet w0"
    by (rule read_block[OF rd]) auto
  have rm: "read_metadata os d w0 = (w1, Ok (fetch 0 BLOCK_SIZE (media w0)))" using w1(1) by (simp add: read_metadata_def kv_const)
  have "open_device env fs tfb (Some path) file_size (initial_store env config, w) =
    (case from_bytes tfb (fetch 0 BLOCK_SIZE (media w0)) of
       Some md \<Rightarrow> ((upd_stats (\<lambda>st. st\<lparr>st_disk_usage := m_total_size md\<rparr>) (s3\<lparr>fk_metadata := md\<rparr>), w1), Ok ())
     | None \<Rightarrow> ((s3, w1), Ok ()))"
    using o rm os by (simp add: open_device_def io_result_def Let_def s3_def fs0 flip: d cong: option.case_cong)
  with j just_opened_metadata[OF j] w1 show ?thesis by (cases "from_bytes tfb (fetch 0 BLOCK_SIZE (media w0))") auto
qed

lemma load_layout:
  assumes j: "just_opened (e_rec_struct env) (media w) psize d on s" and os: "e_os env = os"
    and rd: "reads_ok d (psize div BLOCK_SIZE) W" "W w"
    and size: "psize * 200 < U64_LIM" "e_rec_struct env < 2 ^ 32" "1 < psize div BLOCK_SIZE"
    and sig: "take SIGNATURE_SIZE (fetch 0 BLOCK_SIZE (media w)) = SIGNATURE"
    and lay: "laid_out (media w) (psize div BLOCK_SIZE) 1 lay" "distinct (map (r_key \<circ> snd) lay)"
    and kept: "kept = filter (\<lambda>(sector, r). \<not> lapsed on (e_now env) r) lay"
  shows "\<exists>s' f w'. load_indexes env tfb (s, w) = ((s'\<lparr>fk_free_space := f\<rparr>, w'), Ok ()) \<and>
    media w' = media w \<and> quiet w' = quiet w \<and> store_inv (e_rec_struct env) s' \<and> kv_abs (media w) s' = layout_map kept \<and>
    fsm_inv f \<and> persistence_size f = psize \<and> free_sectors f = {METADATA_BLOCK_SIZE..<psize div BLOCK_SIZE} - set (occupied kept) \<and>
    fk_persistency s' \<and> fk_disk_io s' = Some d \<and> (fk_cache s' \<noteq> None \<longrightarrow> fk_enable_caching s') \<and> cache_coherent (media w) s' \<and>
    (\<forall>k a. fk_hash_table s' k = Some a \<longrightarrow> (\<exists>(sector, r)\<in>set kept. k = r_key r \<and> fk_heap s' a = recovered_as sector r))"
proof -
  let ?n = "psize div BLOCK_SIZE" and ?rs = "e_rec_struct env" and ?m = "media w"
  have pos: "0 < psize" using size(3) by (cases psize) auto
  obtain w1 where w1: "read_sectors_sync os d 0 1 w = (w1, Ok (fetch 0 BLOCK_SIZE ?m))" "W w1" "media w1 = ?m" "quiet w1 = quiet w"
    using read_block[OF rd(1) _ rd(2), of 0] size(3) by auto
  have rm: "read_metadata os d w = (w1, Ok (fetch 0 BLOCK_SIZE ?m))" using w1(1) by (simp add: read_metadata_def kv_const)
  define s1 where "s1 = (case from_bytes tfb (fetch 0 BLOCK_SIZE ?m) of Some md \<Rightarrow> s\<lparr>fk_metadata := md\<rparr> | None \<Rightarrow> s)"
  have j1: "just_opened ?rs ?m psize d on s1" using j just_opened_metadata(1)[OF j] by (simp add: s1_def split: option.split)
  note J = j1[unfolded just_opened_def]
  have lim: "?rs + ?n * BLOCK_SIZE < U64_LIM"
    using size(1,2) div_times_less_eq_dividend[of psize BLOCK_SIZE] by (simp add: U64_LIM_def del: div_times_less_eq_dividend)
  have on: "fk_enable_ttl s1 = on" using J by simp
  have l1: "laid_out (media w1) ?n 1 lay" using lay(1) w1(3) by simp
  obtain s2 w2 where R: "scan_sectors env d ?n 1 (s1, w1) = ((s2, w2), Ok (occupied kept))" "media w2 = ?m" "quiet w2 = quiet w"
    "store_inv ?rs s2" "kv_abs ?m s2 = kv_abs ?m s1 ++ layout_map kept" "rec_frame s1 s2"
    and idx: "\<forall>k a. fk_hash_table s2 k = Some a \<longrightarrow> (\<exists>(sector, r)\<in>set kept. k = r_key r \<and> fk_heap s2 a = recovered_as sector r)"
    using scan_layout[OF rd(1) os lim l1 _ w1(2), of s1] lay(2) J size(3) w1(3,4) by (auto simp: kept on)
  note F = R(6)[unfolded rec_frame_def]
  have o: "sorted_wrt (<) (occupied kept)" "\<forall>x\<in>set (occupied kept). METADATA_BLOCK_SIZE \<le> x \<and> x < ?n"
    using occupied_sorted[OF lay(1)] by (auto simp: kept)
  obtain f where f: "rebuild_free_space ?n (occupied kept) (set_persistence_size fsm_new psize) = (f, Ok ())" "fsm_inv f"
    "persistence_size f = psize" "free_sectors f = {METADATA_BLOCK_SIZE..<?n} - set (occupied kept)"
    using rebuild_free_space_ok[OF pos size(1) o] by blast
  have "scan_and_rebuild_indexes env (s1, w1) = ((s2\<lparr>fk_free_space := f\<rparr>, w2), Ok ())"
    using J F R(1) f(1) pos by (simp add: scan_and_rebuild_indexes_def Let_def)
  moreover have "SIGNATURE_SIZE \<le> length (fetch 0 BLOCK_SIZE ?m)" by (simp add: fetch_def kv_const)
  ultimately have run: "load_indexes env tfb (s, w) = ((s2\<lparr>fk_free_space := f\<rparr>, w2), Ok ())"
    using j rm os sig by (simp add: load_indexes_def just_opened_def Let_def flip: s1_def)
  have "cache_coherent ?m s2"
    by (rule coherent_shrinks[OF _ cache_shrinks_same, of ?m s1]) (use J F in \<open>simp_all add: kv_values_def kv_abs_def\<close>)
  moreover have "kv_abs ?m s2 = layout_map kept" using R(5) just_opened_abs[OF j1] by simp
  ultimately show ?thesis
    by (intro exI[of _ s2] exI[of _ f] exI[of _ w2] conjI run R(2-4) f(2-4)) (use J F idx in simp_all)
qed

end

text \<open>
  C3. Reopening recovers the store. Let a file hold a metadata block with the signature, the images
  of records with distinct keys in disjoint extents of its data sectors, each with its key within
  the first block, and no other block that looks like a record. If its blocks can be read, building
  a store on it returns; the store holds exactly the records that have not expired, each readable
  with its value, timestamp and expiry, all its invariants hold, and the free space is exactly the
  data area without the extents of those records.
\<close>

theorem reopen_recovers:
  assumes bd: "block_device os media sq" and os: "e_os env = os"
    and c: "c_persistency config" "c_file_path config = Some path" "c_hash_bits config < 64"
    and o: "open_file fs path w = (w0, Ok direct)" "fs_len fs w0 = Inr psize" "fs_try_clone fs w0 = None" "\<not> is_empty_file fs w0"
    and d: "d = disk_io_new (fst (fs_ring fs)) (snd (fs_ring fs)) direct"
    and rd: "block_device.reads_ok os d (psize div BLOCK_SIZE) W" "W w0"
    and size: "psize * 200 < U64_LIM" "e_rec_struct env < 2 ^ 32" "1 < psize div BLOCK_SIZE"
    and sig: "take SIGNATURE_SIZE (fetch 0 BLOCK_SIZE (media w0)) = SIGNATURE"
    and lay: "laid_out (media w0) (psize div BLOCK_SIZE) 1 lay" "distinct (map (r_key \<circ> snd) lay)"
    and kept: "kept = filter (\<lambda>(sector, r). \<not> lapsed (c_enable_ttl config) (e_now env) r) lay"
  shows "\<exists>s w'. build_with_config env fs tfb num_cpus config w = (w', Ok s) \<and> media w' = media w0 \<and>
    kv_ok (e_rec_struct env) (media w') s \<and> kv_abs (media w') s = layout_map kept \<and>
    free_sectors (fk_free_space s) = {METADATA_BLOCK_SIZE..<psize div BLOCK_SIZE} - set (occupied kept)"
proof -
  let ?rs = "e_rec_struct env" and ?m = "media w0" and ?n = "psize div BLOCK_SIZE"
  have pos: "0 < psize" "0 < ?n" using size(3) by (cases psize; simp)+
  obtain s1 w1 where A: "open_device env fs tfb (Some path) (c_file_size config) (initial_store env config, w) = ((s1, w1), Ok ())"
    "just_opened ?rs ?m psize d (c_enable_ttl config) s1" "W w1" "media w1 = ?m"
    using block_device.open_existing_file[OF bd o(1,2) pos(1) o(3,4) d c(1) os rd(1) pos(2) rd(2)] by blast
  have S: "just_opened ?rs (media w1) psize d (c_enable_ttl config) s1" "take SIGNATURE_SIZE (fetch 0 BLOCK_SIZE (media w1)) = SIGNATURE"
    "laid_out (media w1) ?n 1 lay" using A(2,4) sig lay(1) by simp_all
  obtain s2 f w2 where B: "load_indexes env tfb (s1, w1) = ((s2\<lparr>fk_free_space := f\<rparr>, w2), Ok ())" "media w2 = ?m"
    "store_inv ?rs s2" "kv_abs ?m s2 = layout_map kept" "fsm_inv f" "persistence_size f = psize"
    "free_sectors f = {METADATA_BLOCK_SIZE..<?n} - set (occupied kept)"
    "fk_persistency s2" "fk_disk_io s2 = Some d" "fk_cache s2 \<noteq> None \<longrightarrow> fk_enable_caching s2" "cache_coherent ?m s2"
    "\<forall>k a. fk_hash_table s2 k = Some a \<longrightarrow> (\<exists>(sector, r)\<in>set kept. k = r_key r \<and> fk_heap s2 a = recovered_as sector r)"
    using block_device.load_layout[OF bd S(1) os rd(1) A(3) size S(2,3) lay(2) kept, of tfb, unfolded A(4)] by blast
  define wb where "wb = start_workers (max (num_cpus div 2) 1) (write_buffer_new num_cpus (m_version (fk_metadata s2)))"
  define s where "s = s2\<lparr>fk_free_space := f, fk_write_buffer := Some wb\<rparr>"
  have run: "build_with_config env fs tfb num_cpus config w = (w2, Ok s)"
    using c A(1) B(1,9) by (simp add: build_with_config_def s_def wb_def Let_def)
  have sh: "wb_shards wb \<noteq> []" "\<And>x. x \<in> set (wb_shards wb) \<Longrightarrow> sh_buffer x = []"
    by (auto simp: wb_def start_workers_def write_buffer_new_def Let_def shard_new_def)
  have lim: "psize < 2 ^ 63" using size(1) by (simp add: U64_LIM_def)
  have dn: "fk_disk_io s2 \<noteq> None" using B(9) by simp
  have K: "kv_ok ?rs ?m s" "kv_abs ?m s = kv_abs ?m s2"
    using layout_kv_ok[OF lay(1) B(3) _ B(5,6) B(7)[unfolded kept] lim B(8) dn B(10,11) s_def sh] B(12) unfolding kept by blast+
  have "free_sectors (fk_free_space s) = {METADATA_BLOCK_SIZE..<?n} - set (occupied kept)" using B(7) by (simp add: s_def)
  with run K B(2,4) show ?thesis by auto
qed

text \<open>A file of 32 blocks with one record.\<close>

definition demo_image :: ram where
  "demo_image = \<lparr>ram_size = 32 * BLOCK_SIZE,
     ram_content = put (16 * BLOCK_SIZE) (perpare_record_data demo_record) (put 0 SIGNATURE (\<lambda>_. 0)),
     ram_sq = [], ram_cq = []\<rparr>"

lemma demo_image_zero: "9 \<le> i \<Longrightarrow> i < 16 * BLOCK_SIZE \<or> 17 * BLOCK_SIZE \<le> i \<Longrightarrow> ram_content demo_image i = 0"
proof -
  have "length (perpare_record_data demo_record) = BLOCK_SIZE"
    by (simp add: length_perpare demo_record_def total_size_def record_header_size_def div_ceil_def kv_const)
  then show "9 \<le> i \<Longrightarrow> i < 16 * BLOCK_SIZE \<or> 17 * BLOCK_SIZE \<le> i \<Longrightarrow> ram_content demo_image i = 0"
    by (auto simp: demo_image_def put_outside SIGNATURE_def kv_const)
qed

lemma demo_image_blank:
  assumes "0 < i" "i \<noteq> 16"
  shows "blank_block (ram_content demo_image) i"
proof -
  let ?m = "ram_content demo_image"
  have "BLOCK_SIZE \<le> i * BLOCK_SIZE" "i \<le> 15 \<or> 17 \<le> i" using assms by auto
  then have z: "?m (i * BLOCK_SIZE + j) = 0" if "j < 2" for j
    using that by (intro demo_image_zero) (auto simp: kv_const)
  have "?m (i * BLOCK_SIZE) = 0" "?m (Suc (i * BLOCK_SIZE)) = 0" using z[of 0] z[of 1] by simp_all
  moreover have "byte_slice 0 2 (fetch (i * BLOCK_SIZE) BLOCK_SIZE ?m) = map ?m [i * BLOCK_SIZE..<i * BLOCK_SIZE + 2]"
    by (simp add: byte_slice_def fetch_def take_map kv_const)
  ultimately have "byte_slice 0 2 (fetch (i * BLOCK_SIZE) BLOCK_SIZE ?m) = [0, 0]" by (simp add: numeral_2_eq_2 One_nat_def)
  then show ?thesis by (simp add: blank_block_def kv_const)
qed

lemma demo_image_layout: "laid_out (ram_content demo_image) 32 1 [(16, demo_record)]"
proof -
  have n: "rec_sectors demo_record = 1"
    by (simp add: rec_sectors_def demo_record_def total_size_def record_header_size_def div_ceil_def kv_const)
  have len: "length (perpare_record_data demo_record) = BLOCK_SIZE"
    using n by (simp add: length_perpare rec_sectors_def)
  have "image_at (ram_content demo_image) 16 demo_record"
    using demo_record_facts fetch_put_same[OF len, of "16 * BLOCK_SIZE"]
    by (simp add: image_at_def n len demo_image_def record_header_size_def kv_const)
  then show ?thesis using demo_image_blank by (simp add: n) (simp add: kv_const)
qed

theorem reopen_recovers_witness:
  "\<exists>s w'. build_with_config (demo_env 5) demo_fs (\<lambda>_. None) 4 disk_config demo_image = (w', Ok s) \<and>
     kv_abs (ram_content w') s = [[0x6B] \<mapsto> ([1, 2, 3], 7, 9)] \<and>
     free_sectors (fk_free_space s) = {17..<32}"
proof -
  let ?m = "ram_content demo_image"
  have o: "open_file demo_fs ''db'' demo_image = (demo_image, Ok False)" "fs_len demo_fs demo_image = Inr (32 * BLOCK_SIZE)"
    "fs_try_clone demo_fs demo_image = None"
    by (simp_all add: open_file_def regular_open_def demo_fs_def io_result_def demo_image_def)
  have m0: "?m i = SIGNATURE ! i" if "i < 9" for i
    using that by (simp add: demo_image_def put_outside put_def SIGNATURE_def kv_const)
  have ne: "\<not> is_empty_file demo_fs demo_image"
  proof
    assume "is_empty_file demo_fs demo_image"
    then have "\<forall>b\<in>set (fetch 0 (min READ_BUFFER_SIZE (32 * BLOCK_SIZE)) ?m). b = 0"
      by (simp add: is_empty_file_def demo_fs_def demo_image_def kv_const)
    then have "?m 0 = 0" by (simp add: fetch_def kv_const)
    with m0[of 0] show False by (simp add: SIGNATURE_def)
  qed
  have d: "sync_io = disk_io_new (fst (fs_ring demo_fs)) (snd (fs_ring demo_fs)) False"
    by (simp add: demo_fs_def disk_io_new_def sync_io_def)
  have n: "32 * BLOCK_SIZE div BLOCK_SIZE = 32" by (simp add: kv_const)
  have rd: "ram.reads_ok sync_io (32 * BLOCK_SIZE div BLOCK_SIZE) (\<lambda>w. w = demo_image)"
    unfolding ram.reads_ok_def n
    by (auto simp: disk_io_defs ram_os_def sync_io_def demo_image_def kv_const U64_LIM_def)
  have lay: "laid_out ?m (32 * BLOCK_SIZE div BLOCK_SIZE) 1 [(16, demo_record)]" using demo_image_layout by (simp add: n)
  have sig: "take SIGNATURE_SIZE (fetch 0 BLOCK_SIZE ?m) = SIGNATURE"
    by (rule nth_equalityI) (simp_all add: m0 fetch_def length_SIGNATURE kv_const)
  have "\<exists>s w'. build_with_config (demo_env 5) demo_fs (\<lambda>_. None) 4 disk_config demo_image = (w', Ok s) \<and> ram_content w' = ?m \<and>
    kv_ok (e_rec_struct (demo_env 5)) (ram_content w') s \<and> kv_abs (ram_content w') s = layout_map [(16, demo_record)] \<and>
    free_sectors (fk_free_space s) = {METADATA_BLOCK_SIZE..<32 * BLOCK_SIZE div BLOCK_SIZE} - set (occupied [(16, demo_record)])"
    by (rule reopen_recovers[OF ram.block_device_axioms _ disk_config_facts(1,2) _ o ne d rd _ _ _ _ sig lay])
      (simp_all add: demo_env_def disk_config_facts n demo_image_layout lapsed_def demo_record_def U64_LIM_def kv_const)
  moreover have "layout_map [(16, demo_record)] = [[0x6B] \<mapsto> ([1, 2, 3], 7, 9)]"
    by (simp add: layout_map_def demo_record_def)
  moreover have "{METADATA_BLOCK_SIZE..<32 * BLOCK_SIZE div BLOCK_SIZE} - set (occupied [(16, demo_record)]) = {17..<32}"
    by (auto simp: occupied_def rec_sectors_def demo_record_def total_size_def record_header_size_def div_ceil_def kv_const)
  ultimately show ?thesis by auto
qed

end
