(* ===== verification/Spec2Isabelle.thy ===== *)
theory Spec2Isabelle
  imports Ttl Recovery Hash
begin

text \<open>
  Verification of fun-kv, an embedded key-value store written in Rust (src/src).

  \<^bold>\<open>The program.\<close> A store (\<open>FunKV\<close>, src/core) keeps every record in a hash table and in a skip list
  ordered by key; both hold references to the same record. Records carry a timestamp that orders
  concurrent writers and an optional expiry. A store with a file also has a write buffer, whose
  workers take the queued records in batches, allocate sectors from the free-space manager, write
  the images through the device layer (io_uring or pwrite) and then drop the values from memory; a
  read of such a record loads the value from the device, through a CLOCK cache. On opening, the
  device is scanned and the indexes and the free space are rebuilt. A sweeper thread samples the hash
  table for expired keys.

  \<^bold>\<open>The theories\<close>, in the order of their imports:

  \<^item> KV_Prelude: outcomes (\<open>Ok\<close>, \<open>Err\<close>, \<open>Panic\<close>), the \<open>?\<close> operator as \<open>try_bind\<close>, checked and wrapping
    arithmetic at the width of the Rust types, list and word lemmas.
  \<^item> KV_Constants: src/constants.rs and src/error.rs.
  \<^item> Ordered_Map, Chunk_Map: ordered maps (the B-trees and the skip list; locale \<open>ordered_map\<close>) and the
    abstract view of free space.
  \<^item> Free_Space: src/storage/free_space_manager.rs; locale \<open>space_allocator\<close> is what its clients use.
  \<^item> Codec, Records, Record_Format, Metadata: little-endian fields (locale \<open>fixed_codec\<close>),
    src/core/record.rs, src/storage/format.rs, src/storage/metadata.rs.
  \<^item> Hash, Stats, Alloc: src/utils/hash.rs, src/stats.rs, src/utils/allocator.rs.
  \<^item> Cache: src/core/cache.rs; locale \<open>lossy_cache\<close> is what the store relies on.
  \<^item> Disk_IO: src/storage/io.rs over a record of system calls; locale \<open>block_device\<close> states their
    documented behaviour, and a file in memory interprets it.
  \<^item> Write_Buffer: src/storage/write_buffer.rs: shards, channels, workers, batches.
  \<^item> Ttl_Config, Store: the state of the store and its operations (src/core/mod.rs, operations.rs,
    internal.rs). Records live in a heap; the indexes and the queues hold addresses.
  \<^item> Store_Effects, Store_Spec, Store_Reads: the abstract map from keys to value, timestamp and expiry, the
    abstraction \<open>kv_abs\<close> (a value comes from memory or from the media), the invariant \<open>store_inv\<close> and the
    refinement lemma of each operation.
  \<^item> Persistence: src/core/persistence.rs and src/core/recovery.rs.
  \<^item> Store_Disk: the invariant \<open>kv_ok\<close> of a store with its queues, cache, free space and media; every
    operation and every flush, failed or not, keeps it, and so does closing. No flush panics.
  \<^item> Store_Run: runs as an inductive step relation, in step with the abstract map.
  \<^item> Builder: src/core/builder.rs and src/core/init.rs; a built store satisfies the invariant.
  \<^item> Store_Theorems, Recovery, Ttl: the properties of the store, of reopening, and of the sweeper
    (src/core/ttl.rs).

  \<^bold>\<open>What is shown.\<close> The free-space manager takes the best fit, coalesces, never hands a sector out
  twice and loses none; the disk image, the metadata and the aligned buffers round-trip; the cache
  evicts down to its watermark, stays within its bound and agrees with the store; a flush moves
  records to the device without changing a value, and a failed flush changes no value either; workers are
  woken for every non-empty shard. Every operation of the store refines the operation of an abstract
  map on every branch. Runs of any operations, successful or failed flushes and metadata writes from
  a store built in memory or over a new file stay in step with that map, and so does closing it; reopening a file recovers exactly the records on it; sweeping is
  invisible to reads. Where the code does something else than it means to, the theorem states what it
  does: the drift of the free byte counter, the chunk lost by a rejected release, the leaked sector
  of a delete, keys too long for their length field or for the first block, the metadata block that
  never loads, the mirrored wake-up, stale values in the cache, and the counters a sweep leaves
  behind.

  \<^bold>\<open>Modelling.\<close> Every fallible call returns an outcome; arithmetic that overflows panics, as in a
  build with overflow checks, and atomic counters wrap. A loop that may not return (eviction waits
  for no one but is bounded by its scans) is an option, and is proved to return. The recovery scan and
  the sweeper terminate by a measure; no fuel is used. Each public operation, each request a worker
  serves and each sampling is one atomic step: interleavings between steps are arbitrary, those inside
  one operation are not represented. Parameters stand for what is not in the repository: the system
  calls, the file calls, the bytemuck cast, the size of a record, the clock, the latencies, the hash of
  the calling thread, the iteration order of the hash table, random numbers and rounding to double
  precision. The concurrent hash table (scc) is a map, and the skip list (crossbeam) an ordered map
  that replaces on insertion.

  \<^bold>\<open>Not modelled.\<close> The text formatting of statistics and errors, \<open>AtomicLink\<close> (a pointer that no code
  follows), the paths for systems other than Linux, sleeps and time-outs of threads, memory ordering,
  and the module declarations.
\<close>

end
